(* ===== verification/Prelude.thy ===== *)
theory Prelude
  imports Main "HOL-Library.Word"
begin

text \<open>
  Shared vocabulary of the development: the machine types of the 64-bit targets, the
  outcome of a fallible Rust call, and the generic facts on words and lists that the
  component theories use.

  A Rust function that returns \<open>Result\<close> and may also panic is modelled by a value of
  \<open>outcome\<close>: \<open>Ok\<close> and \<open>Err\<close> are the constructors of \<open>Result\<close>, and \<open>Panic\<close> stands for
  a failed assertion, an out-of-range index or a call of \<open>unwrap\<close> on nothing.
\<close>

unbundle bit_operations_syntax

section \<open>Machine types\<close>

type_synonym u8 = "8 word"
type_synonym u64 = "64 word"
type_synonym usize = "64 word"

section \<open>Outcomes\<close>

datatype ('a, 'e) outcome = Ok 'a | Err 'e | Panic

definition bind_outcome ::
  "('a, 'e) outcome \<Rightarrow> ('a \<Rightarrow> ('b, 'e) outcome) \<Rightarrow> ('b, 'e) outcome" where
  "bind_outcome m f = (case m of Ok a \<Rightarrow> f a | Err e \<Rightarrow> Err e | Panic \<Rightarrow> Panic)"

definition ok_or :: "'a option \<Rightarrow> 'e \<Rightarrow> ('a, 'e) outcome" where
  "ok_or x e = (case x of None \<Rightarrow> Err e | Some a \<Rightarrow> Ok a)"

named_theorems outcome_simps

lemma bind_outcome_simps [simp, outcome_simps]:
  "bind_outcome (Ok a) f = f a"
  "bind_outcome (Err e) f = Err e"
  "bind_outcome Panic f = Panic"
  by (simp_all add: bind_outcome_def)

lemma bind_outcome_eq_Ok [outcome_simps]:
  "bind_outcome m f = Ok b \<longleftrightarrow> (\<exists>a. m = Ok a \<and> f a = Ok b)"
  by (cases m) simp_all

lemma bind_outcome_eq_Panic [outcome_simps]:
  "bind_outcome m f = Panic \<longleftrightarrow> m = Panic \<or> (\<exists>a. m = Ok a \<and> f a = Panic)"
  by (cases m) simp_all

lemma ok_or_simps [simp, outcome_simps]:
  "ok_or None e = Err e"
  "ok_or (Some a) e = Ok a"
  by (simp_all add: ok_or_def)

lemma ok_or_eq_Ok [outcome_simps]: "ok_or x e = Ok a \<longleftrightarrow> x = Some a"
  by (cases x) simp_all

section \<open>Words: masks, powers of two and alignment\<close>

text \<open>
  The integer methods \<open>is_power_of_two\<close> and \<open>trailing_zeros\<close> of the Rust core library,
  at width 64.
\<close>

definition is_power_of_two :: "64 word \<Rightarrow> bool" where
  "is_power_of_two x = list_ex (\<lambda>k. x = 2 ^ k) [0..<64]"

definition trailing_zeros :: "64 word \<Rightarrow> nat" where
  "trailing_zeros x = length (takeWhile (\<lambda>i. \<not> bit x i) [0..<64])"

lemma is_power_of_two_iff: "is_power_of_two x \<longleftrightarrow> (\<exists>k<64. x = 2 ^ k)"
  by (auto simp: is_power_of_two_def list_ex_iff)

lemma takeWhile_upt_not_bit:
  "k < n \<Longrightarrow> (\<And>i. i < k \<Longrightarrow> \<not> P i) \<Longrightarrow> P k \<Longrightarrow> takeWhile (\<lambda>i. \<not> P i) [0..<n] = [0..<k]"
  by (rule takeWhile_eq_take_P_nth [of k "[0..<n]" "\<lambda>i. \<not> P i", THEN trans])
    (auto simp: take_upt)

lemma trailing_zeros_exp: "k < 64 \<Longrightarrow> trailing_zeros (2 ^ k) = k"
  by (subst trailing_zeros_def, subst takeWhile_upt_not_bit) (auto simp: bit_exp_iff)

lemma pow2_minus_1_mask: "(2 ^ k :: 'a::len word) - 1 = mask k"
  by (simp add: mask_eq_decr_exp)

lemma and_not_mask_split: "(x AND NOT (mask k)) + take_bit k x = (x :: 'a::len word)"
proof -
  have "x AND NOT (mask k) = push_bit k (drop_bit k x)"
    by (rule bit_word_eqI) (auto simp: bit_simps)
  then show ?thesis by (simp add: bits_ident)
qed

lemma unat_take_bit_word: "unat (take_bit k (x :: 'a::len word)) = unat x mod 2 ^ k"
  unfolding unsigned_take_bit_eq by (simp add: take_bit_eq_mod)

lemma unat_and_mask: "unat (x AND mask k :: 'a::len word) = unat x mod 2 ^ k"
  by (simp add: unat_take_bit_word flip: take_bit_eq_mask)

lemma unat_and_not_mask:
  "unat (x AND NOT (mask k) :: 'a::len word) = unat x - unat x mod 2 ^ k"
proof -
  have "x AND NOT (mask k) = x - take_bit k x"
    using and_not_mask_split [of x k] by (simp add: algebra_simps)
  moreover have "take_bit k x \<le> x"
    by (simp add: word_le_nat_alt unat_take_bit_word)
  ultimately show ?thesis
    by (simp add: unat_sub unat_take_bit_word)
qed

lemma unat_exp_word: "k < LENGTH('a) \<Longrightarrow> unat (2 ^ k :: 'a::len word) = 2 ^ k"
  by transfer (simp add: take_bit_eq_mod nat_mod_distrib nat_power_eq)

lemma unat_mask_word: "k < LENGTH('a) \<Longrightarrow> unat (mask k :: 'a::len word) = 2 ^ k - 1"
  unfolding unat_eq_nat_uint uint_mask_eq by (simp add: mask_eq_exp_minus_1 nat_diff_distrib' nat_power_eq)

lemma page_add_parts:
  fixes p x :: "'a::len word"
  assumes "p AND mask k = 0" and "x AND mask k = x"
  shows "(p + x) AND NOT (mask k) = p" and "(p + x) AND mask k = x"
proof -
  have "p AND x = 0"
    using assms by (metis and.assoc and.commute and_zero_eq)
  then have "p + x = p OR x"
    using word_plus_and_or [of p x] by simp
  moreover have "p AND NOT (mask k) = p"
    using assms(1) by (metis and_not_mask_split add_0_right take_bit_eq_mask)
  moreover have "x AND NOT (mask k) = 0"
    using assms(2) by (metis and.assoc bit.conj_cancel_right and_zero_eq)
  ultimately show "(p + x) AND NOT (mask k) = p" "(p + x) AND mask k = x"
    using assms by (simp_all add: bit.conj_disj_distrib2)
qed

lemma take_bit_split:
  fixes x y :: "'a::len word"
  shows "take_bit (m + n) x = take_bit (m + n) y \<longleftrightarrow>
    take_bit m x = take_bit m y \<and> take_bit n (drop_bit m x) = take_bit n (drop_bit m y)"
  (is "?l \<longleftrightarrow> ?r")
proof
  assume ?l
  then have "bit (take_bit (m + n) x) k = bit (take_bit (m + n) y) k" for k
    by simp
  then have b: "k < m + n \<Longrightarrow> bit x k = bit y k" for k
    by (auto simp: bit_take_bit_iff)
  show ?r
    by (auto simp: bit_eq_iff bit_simps b)
next
  assume r: ?r
  have b: "bit x k = bit y k" if "k < m + n" for k
  proof (cases "k < m")
    case True
    then have "bit (take_bit m x) k = bit (take_bit m y) k" using r by simp
    then show ?thesis using True by (simp add: bit_take_bit_iff)
  next
    case False
    then have "bit (take_bit n (drop_bit m x)) (k - m) = bit (take_bit n (drop_bit m y)) (k - m)"
      using r by simp
    moreover have "k - m < n" using False that by simp
    ultimately show ?thesis using False by (simp add: bit_simps)
  qed
  then show ?l by (auto simp: bit_eq_iff bit_simps)
qed

end
