(* ===== verification/Memory_Addr.thy ===== *)
theory Memory_Addr
  imports Prelude
begin

text \<open>
  The crate \<open>memory_addr\<close> (src/crates/memory_addr/src/lib.rs): the alignment functions on
  \<open>usize\<close> and the two address wrappers \<open>PhysAddr\<close> and \<open>VirtAddr\<close>.  Addresses are 64-bit
  words; \<open>+\<close> and \<open>-\<close> wrap around as they do in a release build.
\<close>

section \<open>Alignment of raw addresses\<close>

definition PAGE_SIZE_4K :: usize where
  "PAGE_SIZE_4K = 0x1000"

definition align_down :: "usize \<Rightarrow> usize \<Rightarrow> usize" where
  "align_down addr align = addr AND NOT (align - 1)"

definition align_up :: "usize \<Rightarrow> usize \<Rightarrow> usize" where
  "align_up addr align = (addr + align - 1) AND NOT (align - 1)"

definition align_offset :: "usize \<Rightarrow> usize \<Rightarrow> usize" where
  "align_offset addr align = addr AND (align - 1)"

definition is_aligned :: "usize \<Rightarrow> usize \<Rightarrow> bool" where
  "is_aligned addr align \<longleftrightarrow> align_offset addr align = 0"

definition align_down_4k :: "usize \<Rightarrow> usize" where
  "align_down_4k addr = align_down addr PAGE_SIZE_4K"

definition align_up_4k :: "usize \<Rightarrow> usize" where
  "align_up_4k addr = align_up addr PAGE_SIZE_4K"

definition align_offset_4k :: "usize \<Rightarrow> usize" where
  "align_offset_4k addr = align_offset addr PAGE_SIZE_4K"

definition is_aligned_4k :: "usize \<Rightarrow> bool" where
  "is_aligned_4k addr = is_aligned addr PAGE_SIZE_4K"

section \<open>Address wrappers\<close>

datatype PhysAddr = PhysAddr (pa_as_usize: usize)

datatype VirtAddr = VirtAddr (va_as_usize: usize)

definition pa_align_down :: "PhysAddr \<Rightarrow> usize \<Rightarrow> PhysAddr" where
  "pa_align_down a align = PhysAddr (align_down (pa_as_usize a) align)"

definition pa_align_up :: "PhysAddr \<Rightarrow> usize \<Rightarrow> PhysAddr" where
  "pa_align_up a align = PhysAddr (align_up (pa_as_usize a) align)"

definition pa_align_offset :: "PhysAddr \<Rightarrow> usize \<Rightarrow> usize" where
  "pa_align_offset a align = align_offset (pa_as_usize a) align"

definition pa_is_aligned :: "PhysAddr \<Rightarrow> usize \<Rightarrow> bool" where
  "pa_is_aligned a align = is_aligned (pa_as_usize a) align"

definition pa_align_down_4k :: "PhysAddr \<Rightarrow> PhysAddr" where
  "pa_align_down_4k a = pa_align_down a PAGE_SIZE_4K"

definition pa_align_up_4k :: "PhysAddr \<Rightarrow> PhysAddr" where
  "pa_align_up_4k a = pa_align_up a PAGE_SIZE_4K"

definition pa_align_offset_4k :: "PhysAddr \<Rightarrow> usize" where
  "pa_align_offset_4k a = pa_align_offset a PAGE_SIZE_4K"

definition pa_is_aligned_4k :: "PhysAddr \<Rightarrow> bool" where
  "pa_is_aligned_4k a = pa_is_aligned a PAGE_SIZE_4K"

definition va_align_down :: "VirtAddr \<Rightarrow> usize \<Rightarrow> VirtAddr" where
  "va_align_down a align = VirtAddr (align_down (va_as_usize a) align)"

definition va_align_up :: "VirtAddr \<Rightarrow> usize \<Rightarrow> VirtAddr" where
  "va_align_up a align = VirtAddr (align_up (va_as_usize a) align)"

definition va_align_offset :: "VirtAddr \<Rightarrow> usize \<Rightarrow> usize" where
  "va_align_offset a align = align_offset (va_as_usize a) align"

definition va_is_aligned :: "VirtAddr \<Rightarrow> usize \<Rightarrow> bool" where
  "va_is_aligned a align = is_aligned (va_as_usize a) align"

definition va_align_down_4k :: "VirtAddr \<Rightarrow> VirtAddr" where
  "va_align_down_4k a = va_align_down a PAGE_SIZE_4K"

definition va_align_up_4k :: "VirtAddr \<Rightarrow> VirtAddr" where
  "va_align_up_4k a = va_align_up a PAGE_SIZE_4K"

definition va_align_offset_4k :: "VirtAddr \<Rightarrow> usize" where
  "va_align_offset_4k a = va_align_offset a PAGE_SIZE_4K"

definition va_is_aligned_4k :: "VirtAddr \<Rightarrow> bool" where
  "va_is_aligned_4k a = va_is_aligned a PAGE_SIZE_4K"

definition pa_add :: "PhysAddr \<Rightarrow> usize \<Rightarrow> PhysAddr" where
  "pa_add a rhs = PhysAddr (pa_as_usize a + rhs)"

definition pa_sub :: "PhysAddr \<Rightarrow> usize \<Rightarrow> PhysAddr" where
  "pa_sub a rhs = PhysAddr (pa_as_usize a - rhs)"

definition va_add :: "VirtAddr \<Rightarrow> usize \<Rightarrow> VirtAddr" where
  "va_add a rhs = VirtAddr (va_as_usize a + rhs)"

definition va_sub :: "VirtAddr \<Rightarrow> usize \<Rightarrow> VirtAddr" where
  "va_sub a rhs = VirtAddr (va_as_usize a - rhs)"

section \<open>Alignment as arithmetic\<close>

text \<open>
  For an alignment that is a power of two the bit operations are division and remainder on
  the unsigned value.
\<close>

lemma PAGE_SIZE_4K_exp: "PAGE_SIZE_4K = 2 ^ 12"
  by (simp add: PAGE_SIZE_4K_def)

lemma unat_align_down: "unat (align_down a (2 ^ k)) = unat a - unat a mod 2 ^ k"
  by (simp add: align_down_def pow2_minus_1_mask unat_and_not_mask)

lemma unat_align_offset: "unat (align_offset a (2 ^ k)) = unat a mod 2 ^ k"
  by (simp add: align_offset_def pow2_minus_1_mask unat_and_mask)

lemma is_aligned_iff_dvd: "is_aligned a (2 ^ k) \<longleftrightarrow> 2 ^ k dvd unat a"
  by (simp add: is_aligned_def unat_align_offset dvd_eq_mod_eq_0 flip: unat_eq_zero)

lemma is_aligned_align_down: "is_aligned (align_down a (2 ^ k)) (2 ^ k)"
  by (simp add: is_aligned_iff_dvd unat_align_down minus_mod_eq_mult_div)

lemma align_down_add_offset: "align_down a (2 ^ k) + align_offset a (2 ^ k) = a"
  by (simp add: align_down_def align_offset_def pow2_minus_1_mask and_not_mask_split
      flip: take_bit_eq_mask)

lemma align_down_aligned: "is_aligned a (2 ^ k) \<Longrightarrow> align_down a (2 ^ k) = a"
  using align_down_add_offset [of a k] by (simp add: is_aligned_def)

lemma is_aligned_and_not_mask: "is_aligned a (2 ^ k) \<Longrightarrow> a AND NOT (mask k) = a"
  using align_down_aligned [of a k] by (simp add: align_down_def pow2_minus_1_mask)

lemma unat_align_up:
  assumes k: "k < 64" and no_wrap: "unat a + 2 ^ k \<le> 2 ^ 64"
  shows "unat (align_up a (2 ^ k)) = (unat a + 2 ^ k - 1) div 2 ^ k * 2 ^ k"
proof -
  have "unat a + (2 ^ k - 1) < 2 ^ 64"
    using no_wrap by (simp add: less_eq_Suc_le)
  then have "unat (a + mask k) = unat a + (2 ^ k - 1)"
    using k by (simp add: unat_word_ariths unat_mask_word)
  then have "unat (a + 2 ^ k - 1) = unat a + 2 ^ k - 1"
    by (simp add: mask_eq_decr_exp add_diff_eq)
  then show ?thesis
    by (simp add: align_up_def pow2_minus_1_mask unat_and_not_mask minus_mod_eq_div_mult)
qed

lemma is_aligned_align_up: "is_aligned (align_up a (2 ^ k)) (2 ^ k)"
  by (simp add: is_aligned_iff_dvd align_up_def pow2_minus_1_mask unat_and_not_mask
      minus_mod_eq_mult_div)

lemma ceil_multiple_least:
  fixes m :: nat
  assumes "0 < m" "n \<le> b" "m dvd b"
  shows "(n + m - 1) div m * m \<le> b"
proof -
  obtain q where b: "b = m * q" using assms(3) by blast
  have "(n + m - 1) div m \<le> (m * q + (m - 1)) div m"
    using assms b by (intro div_le_mono) simp
  also have "\<dots> = q"
    using assms(1) by (simp add: div_mult_self3 del: add_diff_assoc)
  finally show ?thesis
    using b by (simp add: mult.commute)
qed

lemma ceil_multiple_bounds:
  fixes m :: nat
  assumes "0 < m"
  shows "n \<le> (n + m - 1) div m * m" and "(n + m - 1) div m * m < n + m"
proof -
  have "(n + m - 1) div m * m + (n + m - 1) mod m = n + m - 1"
    by simp
  moreover have "(n + m - 1) mod m < m"
    using assms by simp
  ultimately show "n \<le> (n + m - 1) div m * m" and "(n + m - 1) div m * m < n + m"
    using assms by linarith+
qed

section \<open>Properties\<close>

text \<open>
  C10: \<^const>\<open>align_up\<close> rounds an address up to the least multiple of the alignment that is not
  below it, for every power-of-two alignment, as long as the addition inside it stays within
  64 bits.
\<close>
theorem align_up_least:
  assumes "k < 64" and "unat a + 2 ^ k \<le> 2 ^ 64"
  shows "is_aligned (align_up a (2 ^ k)) (2 ^ k) \<and> a \<le> align_up a (2 ^ k)
    \<and> unat (align_up a (2 ^ k)) < unat a + 2 ^ k
    \<and> (\<forall>b. is_aligned b (2 ^ k) \<and> a \<le> b \<longrightarrow> align_up a (2 ^ k) \<le> b)"
  by (simp add: is_aligned_align_up is_aligned_iff_dvd word_le_nat_alt unat_align_up [OF assms]
      ceil_multiple_bounds ceil_multiple_least del: One_nat_def)

theorem align_up_least_witness:
  "(12 :: nat) < 64 \<and> unat (0x1001 :: usize) + 2 ^ 12 \<le> 2 ^ 64
    \<and> align_up 0x1001 (2 ^ 12) = 0x2000 \<and> 0x1001 \<le> align_up 0x1001 (2 ^ 12)"
  using align_up_least [of 12 "0x1001"] by (simp add: align_up_def)

end
