(* ===== verification/Page_Table_Entry.thy ===== *)
theory Page_Table_Entry
  imports Memory_Addr
begin

text \<open>
  Page table entries of the crate \<open>page_table_entry\<close>: the generic mapping flags, the x86-64,
  RISC-V and AArch64 encodings of an entry, and the contract of the trait \<open>GenericPTE\<close> as
  the locale \<open>generic_pte\<close>, which each of the three encodings satisfies.

  A type declared with the \<open>bitflags\<close> macro is a word; \<open>contains\<close>, \<open>intersects\<close> and
  \<open>from_bits_truncate\<close> are the set operations of that macro on the bits of the word. The
  flag constants \<open>PTF\<close> of x86-64 come from another package, so they are a parameter: a
  record of their bit patterns, with the documented layout as the predicate
  \<open>ptf_documented\<close>.
\<close>

section \<open>Bit flags\<close>

definition contains :: "u64 \<Rightarrow> u64 \<Rightarrow> bool" where
  "contains f c \<longleftrightarrow> f AND c = c"

definition intersects :: "u64 \<Rightarrow> u64 \<Rightarrow> bool" where
  "intersects f c \<longleftrightarrow> f AND c \<noteq> 0"

definition from_bits_truncate :: "u64 \<Rightarrow> u64 \<Rightarrow> u64" where
  "from_bits_truncate all_bits b = b AND all_bits"

type_synonym MappingFlags = u64

definition MF_READ :: MappingFlags where "MF_READ = 0x01"
definition MF_WRITE :: MappingFlags where "MF_WRITE = 0x02"
definition MF_EXECUTE :: MappingFlags where "MF_EXECUTE = 0x04"
definition MF_USER :: MappingFlags where "MF_USER = 0x08"
definition MF_DEVICE :: MappingFlags where "MF_DEVICE = 0x10"
definition MF_UNCACHED :: MappingFlags where "MF_UNCACHED = 0x20"

lemmas mapping_flag_defs =
  MF_READ_def MF_WRITE_def MF_EXECUTE_def MF_USER_def MF_DEVICE_def MF_UNCACHED_def

section \<open>The trait \<open>GenericPTE\<close>\<close>

text \<open>
  The methods of the trait as a record. Every implementation is a transparent wrapper of a
  64-bit word, and a method with \<open>&mut self\<close> returns the new entry.
\<close>

record GenericPTE =
  new_page :: "PhysAddr \<Rightarrow> MappingFlags \<Rightarrow> bool \<Rightarrow> u64"
  new_table :: "PhysAddr \<Rightarrow> u64"
  pte_paddr :: "u64 \<Rightarrow> PhysAddr"
  pte_flags :: "u64 \<Rightarrow> MappingFlags"
  set_paddr :: "u64 \<Rightarrow> PhysAddr \<Rightarrow> u64"
  set_flags :: "u64 \<Rightarrow> MappingFlags \<Rightarrow> bool \<Rightarrow> u64"
  is_unused :: "u64 \<Rightarrow> bool"
  is_present :: "u64 \<Rightarrow> bool"
  is_huge :: "u64 \<Rightarrow> bool"
  clear :: "u64 \<Rightarrow> u64"

section \<open>x86-64\<close>

record PTF =
  PTF_PRESENT :: u64
  PTF_WRITABLE :: u64
  PTF_USER_ACCESSIBLE :: u64
  PTF_WRITE_THROUGH :: u64
  PTF_NO_CACHE :: u64
  PTF_HUGE_PAGE :: u64
  PTF_NO_EXECUTE :: u64
  PTF_all :: u64

text \<open>
  The layout the architecture documents: the bit of each flag, and that the flags are the
  bits of an entry that do not hold the physical address.
\<close>

definition ptf_documented :: "PTF \<Rightarrow> bool" where
  "ptf_documented P \<longleftrightarrow> PTF_PRESENT P = 0x1 \<and> PTF_WRITABLE P = 0x2
    \<and> PTF_USER_ACCESSIBLE P = 0x4 \<and> PTF_WRITE_THROUGH P = 0x8 \<and> PTF_NO_CACHE P = 0x10
    \<and> PTF_HUGE_PAGE P = 0x80 \<and> PTF_NO_EXECUTE P = 0x8000000000000000
    \<and> PTF_all P = 0xFFF0000000000FFF"

definition MappingFlags_from_PTF :: "PTF \<Rightarrow> u64 \<Rightarrow> MappingFlags" where
  "MappingFlags_from_PTF P f =
    (if f = 0 then 0
     else let
       ret = MF_READ;
       ret = (if contains f (PTF_WRITABLE P) then ret OR MF_WRITE else ret);
       ret = (if \<not> contains f (PTF_NO_EXECUTE P) then ret OR MF_EXECUTE else ret);
       ret = (if contains f (PTF_USER_ACCESSIBLE P) then ret OR MF_USER else ret);
       ret = (if contains f (PTF_NO_CACHE P) then ret OR MF_UNCACHED else ret)
     in ret)"

definition PTF_from_MappingFlags :: "PTF \<Rightarrow> MappingFlags \<Rightarrow> u64" where
  "PTF_from_MappingFlags P f =
    (if f = 0 then 0
     else let
       ret = PTF_PRESENT P;
       ret = (if contains f MF_WRITE then ret OR PTF_WRITABLE P else ret);
       ret = (if \<not> contains f MF_EXECUTE then ret OR PTF_NO_EXECUTE P else ret);
       ret = (if contains f MF_USER then ret OR PTF_USER_ACCESSIBLE P else ret);
       ret = (if contains f MF_DEVICE \<or> contains f MF_UNCACHED
              then ret OR (PTF_NO_CACHE P OR PTF_WRITE_THROUGH P) else ret)
     in ret)"

definition X64_PHYS_ADDR_MASK :: u64 where
  "X64_PHYS_ADDR_MASK = 0x000FFFFFFFFFF000"

definition x64_new_page :: "PTF \<Rightarrow> PhysAddr \<Rightarrow> MappingFlags \<Rightarrow> bool \<Rightarrow> u64" where
  "x64_new_page P paddr flags huge =
    (let fl = PTF_from_MappingFlags P flags;
         fl = (if huge then fl OR PTF_HUGE_PAGE P else fl)
     in fl OR (pa_as_usize paddr AND X64_PHYS_ADDR_MASK))"

definition x64_new_table :: "PTF \<Rightarrow> PhysAddr \<Rightarrow> u64" where
  "x64_new_table P paddr =
    (PTF_PRESENT P OR PTF_WRITABLE P OR PTF_USER_ACCESSIBLE P)
      OR (pa_as_usize paddr AND X64_PHYS_ADDR_MASK)"

definition x64_paddr :: "u64 \<Rightarrow> PhysAddr" where
  "x64_paddr e = PhysAddr (e AND X64_PHYS_ADDR_MASK)"

definition x64_flags :: "PTF \<Rightarrow> u64 \<Rightarrow> MappingFlags" where
  "x64_flags P e = MappingFlags_from_PTF P (from_bits_truncate (PTF_all P) e)"

definition x64_set_paddr :: "u64 \<Rightarrow> PhysAddr \<Rightarrow> u64" where
  "x64_set_paddr e paddr =
    (e AND NOT X64_PHYS_ADDR_MASK) OR (pa_as_usize paddr AND X64_PHYS_ADDR_MASK)"

definition x64_set_flags :: "PTF \<Rightarrow> u64 \<Rightarrow> MappingFlags \<Rightarrow> bool \<Rightarrow> u64" where
  "x64_set_flags P e flags huge =
    (let fl = PTF_from_MappingFlags P flags;
         fl = (if huge then fl OR PTF_HUGE_PAGE P else fl)
     in (e AND X64_PHYS_ADDR_MASK) OR fl)"

definition X64PTE :: "PTF \<Rightarrow> GenericPTE" where
  "X64PTE P = \<lparr>
    new_page = x64_new_page P, new_table = x64_new_table P, pte_paddr = x64_paddr,
    pte_flags = x64_flags P, set_paddr = x64_set_paddr, set_flags = x64_set_flags P,
    is_unused = (\<lambda>e. e = 0),
    is_present = (\<lambda>e. contains (from_bits_truncate (PTF_all P) e) (PTF_PRESENT P)),
    is_huge = (\<lambda>e. contains (from_bits_truncate (PTF_all P) e) (PTF_HUGE_PAGE P)),
    clear = (\<lambda>e. 0) \<rparr>"

section \<open>RISC-V\<close>

definition PTEFlags_V :: u64 where "PTEFlags_V = 0x01"
definition PTEFlags_R :: u64 where "PTEFlags_R = 0x02"
definition PTEFlags_W :: u64 where "PTEFlags_W = 0x04"
definition PTEFlags_X :: u64 where "PTEFlags_X = 0x08"
definition PTEFlags_U :: u64 where "PTEFlags_U = 0x10"
definition PTEFlags_G :: u64 where "PTEFlags_G = 0x20"
definition PTEFlags_A :: u64 where "PTEFlags_A = 0x40"
definition PTEFlags_D :: u64 where "PTEFlags_D = 0x80"

definition PTEFlags_all :: u64 where
  "PTEFlags_all = PTEFlags_V OR PTEFlags_R OR PTEFlags_W OR PTEFlags_X OR PTEFlags_U
    OR PTEFlags_G OR PTEFlags_A OR PTEFlags_D"

definition MappingFlags_from_PTEFlags :: "u64 \<Rightarrow> MappingFlags" where
  "MappingFlags_from_PTEFlags f =
    (let
       ret = 0;
       ret = (if contains f PTEFlags_R then ret OR MF_READ else ret);
       ret = (if contains f PTEFlags_W then ret OR MF_WRITE else ret);
       ret = (if contains f PTEFlags_X then ret OR MF_EXECUTE else ret);
       ret = (if contains f PTEFlags_U then ret OR MF_USER else ret)
     in ret)"

definition PTEFlags_from_MappingFlags :: "MappingFlags \<Rightarrow> u64" where
  "PTEFlags_from_MappingFlags f =
    (if f = 0 then 0
     else let
       ret = PTEFlags_V;
       ret = (if contains f MF_READ then ret OR PTEFlags_R else ret);
       ret = (if contains f MF_WRITE then ret OR PTEFlags_W else ret);
       ret = (if contains f MF_EXECUTE then ret OR PTEFlags_X else ret);
       ret = (if contains f MF_USER then ret OR PTEFlags_U else ret)
     in ret)"

definition RV64_PHYS_ADDR_MASK :: u64 where
  "RV64_PHYS_ADDR_MASK = push_bit 54 1 - push_bit 10 1"

definition rv64_new_page :: "PhysAddr \<Rightarrow> MappingFlags \<Rightarrow> bool \<Rightarrow> u64" where
  "rv64_new_page paddr flags huge =
    (PTEFlags_from_MappingFlags flags OR PTEFlags_A OR PTEFlags_D)
      OR (drop_bit 2 (pa_as_usize paddr) AND RV64_PHYS_ADDR_MASK)"

definition rv64_new_table :: "PhysAddr \<Rightarrow> u64" where
  "rv64_new_table paddr =
    PTEFlags_V OR (drop_bit 2 (pa_as_usize paddr) AND RV64_PHYS_ADDR_MASK)"

definition rv64_paddr :: "u64 \<Rightarrow> PhysAddr" where
  "rv64_paddr e = PhysAddr (push_bit 2 (e AND RV64_PHYS_ADDR_MASK))"

definition rv64_flags :: "u64 \<Rightarrow> MappingFlags" where
  "rv64_flags e = MappingFlags_from_PTEFlags (from_bits_truncate PTEFlags_all e)"

definition rv64_set_paddr :: "u64 \<Rightarrow> PhysAddr \<Rightarrow> u64" where
  "rv64_set_paddr e paddr =
    (e AND NOT RV64_PHYS_ADDR_MASK)
      OR (drop_bit 2 (pa_as_usize paddr) AND RV64_PHYS_ADDR_MASK)"

definition rv64_set_flags :: "u64 \<Rightarrow> MappingFlags \<Rightarrow> bool \<Rightarrow> u64" where
  "rv64_set_flags e flags huge =
    (e AND RV64_PHYS_ADDR_MASK)
      OR (PTEFlags_from_MappingFlags flags OR PTEFlags_A OR PTEFlags_D)"

definition Rv64PTE :: GenericPTE where
  "Rv64PTE = \<lparr>
    new_page = rv64_new_page, new_table = rv64_new_table, pte_paddr = rv64_paddr,
    pte_flags = rv64_flags, set_paddr = rv64_set_paddr, set_flags = rv64_set_flags,
    is_unused = (\<lambda>e. e = 0),
    is_present = (\<lambda>e. contains (from_bits_truncate PTEFlags_all e) PTEFlags_V),
    is_huge = (\<lambda>e. intersects (from_bits_truncate PTEFlags_all e) (PTEFlags_R OR PTEFlags_X)),
    clear = (\<lambda>e. 0) \<rparr>"

section \<open>AArch64\<close>

definition DA_VALID :: u64 where "DA_VALID = push_bit 0 1"
definition DA_NON_BLOCK :: u64 where "DA_NON_BLOCK = push_bit 1 1"
definition DA_ATTR_INDX :: u64 where "DA_ATTR_INDX = push_bit 2 7"
definition DA_NS :: u64 where "DA_NS = push_bit 5 1"
definition DA_AP_EL0 :: u64 where "DA_AP_EL0 = push_bit 6 1"
definition DA_AP_RO :: u64 where "DA_AP_RO = push_bit 7 1"
definition DA_INNER :: u64 where "DA_INNER = push_bit 8 1"
definition DA_SHAREABLE :: u64 where "DA_SHAREABLE = push_bit 9 1"
definition DA_AF :: u64 where "DA_AF = push_bit 10 1"
definition DA_NG :: u64 where "DA_NG = push_bit 11 1"
definition DA_CONTIGUOUS :: u64 where "DA_CONTIGUOUS = push_bit 52 1"
definition DA_PXN :: u64 where "DA_PXN = push_bit 53 1"
definition DA_UXN :: u64 where "DA_UXN = push_bit 54 1"
definition DA_PXN_TABLE :: u64 where "DA_PXN_TABLE = push_bit 59 1"
definition DA_XN_TABLE :: u64 where "DA_XN_TABLE = push_bit 60 1"
definition DA_AP_NO_EL0_TABLE :: u64 where "DA_AP_NO_EL0_TABLE = push_bit 61 1"
definition DA_AP_NO_WRITE_TABLE :: u64 where "DA_AP_NO_WRITE_TABLE = push_bit 62 1"
definition DA_NS_TABLE :: u64 where "DA_NS_TABLE = push_bit 63 1"

definition DA_all :: u64 where
  "DA_all = DA_VALID OR DA_NON_BLOCK OR DA_ATTR_INDX OR DA_NS OR DA_AP_EL0 OR DA_AP_RO
    OR DA_INNER OR DA_SHAREABLE OR DA_AF OR DA_NG OR DA_CONTIGUOUS OR DA_PXN OR DA_UXN
    OR DA_PXN_TABLE OR DA_XN_TABLE OR DA_AP_NO_EL0_TABLE OR DA_AP_NO_WRITE_TABLE OR DA_NS_TABLE"

datatype MemAttr = Device | Normal | NormalNonCacheable

definition mem_attr_index :: "MemAttr \<Rightarrow> u64" where
  "mem_attr_index idx = (case idx of Device \<Rightarrow> 0 | Normal \<Rightarrow> 1 | NormalNonCacheable \<Rightarrow> 2)"

definition ATTR_INDEX_MASK :: u64 where
  "ATTR_INDEX_MASK = 0x1C"

definition from_mem_attr :: "MemAttr \<Rightarrow> u64" where
  "from_mem_attr idx =
    (let bits = push_bit 2 (mem_attr_index idx)
     in if idx = Normal \<or> idx = NormalNonCacheable
        then bits OR (DA_INNER OR DA_SHAREABLE) else bits)"

definition mem_attr :: "u64 \<Rightarrow> MemAttr option" where
  "mem_attr a =
    (let idx = drop_bit 2 (a AND ATTR_INDEX_MASK)
     in if idx = 0 then Some Device
        else if idx = 1 then Some Normal
        else if idx = 2 then Some NormalNonCacheable
        else None)"

definition MappingFlags_from_DescriptorAttr :: "u64 \<Rightarrow> MappingFlags" where
  "MappingFlags_from_DescriptorAttr attr =
    (let
       flags = 0;
       flags = (if contains attr DA_VALID then flags OR MF_READ else flags);
       flags = (if \<not> contains attr DA_AP_RO then flags OR MF_WRITE else flags);
       flags = (if contains attr DA_AP_EL0
                then let flags = flags OR MF_USER
                     in if \<not> contains attr DA_UXN then flags OR MF_EXECUTE else flags
                else if \<not> intersects attr DA_PXN then flags OR MF_EXECUTE else flags)
     in case mem_attr attr of
          Some Device \<Rightarrow> flags OR MF_DEVICE
        | Some NormalNonCacheable \<Rightarrow> flags OR MF_UNCACHED
        | _ \<Rightarrow> flags)"

definition DescriptorAttr_from_MappingFlags :: "MappingFlags \<Rightarrow> u64" where
  "DescriptorAttr_from_MappingFlags flags =
    (let
       attr = (if contains flags MF_DEVICE then from_mem_attr Device
               else if contains flags MF_UNCACHED then from_mem_attr NormalNonCacheable
               else from_mem_attr Normal);
       attr = (if contains flags MF_READ then attr OR DA_VALID else attr);
       attr = (if \<not> contains flags MF_WRITE then attr OR DA_AP_RO else attr)
     in if contains flags MF_USER
        then let attr = attr OR (DA_AP_EL0 OR DA_PXN)
             in if \<not> contains flags MF_EXECUTE then attr OR DA_UXN else attr
        else let attr = attr OR DA_UXN
             in if \<not> contains flags MF_EXECUTE then attr OR DA_PXN else attr)"

definition A64_PHYS_ADDR_MASK :: u64 where
  "A64_PHYS_ADDR_MASK = 0x0000FFFFFFFFF000"

definition a64_new_page :: "PhysAddr \<Rightarrow> MappingFlags \<Rightarrow> bool \<Rightarrow> u64" where
  "a64_new_page paddr flags huge =
    (let attr = DescriptorAttr_from_MappingFlags flags OR DA_AF;
         attr = (if \<not> huge then attr OR DA_NON_BLOCK else attr)
     in attr OR (pa_as_usize paddr AND A64_PHYS_ADDR_MASK))"

definition a64_new_table :: "PhysAddr \<Rightarrow> u64" where
  "a64_new_table paddr =
    (DA_NON_BLOCK OR DA_VALID) OR (pa_as_usize paddr AND A64_PHYS_ADDR_MASK)"

definition a64_paddr :: "u64 \<Rightarrow> PhysAddr" where
  "a64_paddr e = PhysAddr (e AND A64_PHYS_ADDR_MASK)"

definition a64_flags :: "u64 \<Rightarrow> MappingFlags" where
  "a64_flags e = MappingFlags_from_DescriptorAttr (from_bits_truncate DA_all e)"

definition a64_set_paddr :: "u64 \<Rightarrow> PhysAddr \<Rightarrow> u64" where
  "a64_set_paddr e paddr =
    (e AND NOT A64_PHYS_ADDR_MASK) OR (pa_as_usize paddr AND A64_PHYS_ADDR_MASK)"

definition a64_set_flags :: "u64 \<Rightarrow> MappingFlags \<Rightarrow> bool \<Rightarrow> u64" where
  "a64_set_flags e flags huge =
    (let attr = DescriptorAttr_from_MappingFlags flags OR DA_AF;
         attr = (if \<not> huge then attr OR DA_NON_BLOCK else attr)
     in (e AND A64_PHYS_ADDR_MASK) OR attr)"

definition A64PTE :: GenericPTE where
  "A64PTE = \<lparr>
    new_page = a64_new_page, new_table = a64_new_table, pte_paddr = a64_paddr,
    pte_flags = a64_flags, set_paddr = a64_set_paddr, set_flags = a64_set_flags,
    is_unused = (\<lambda>e. e = 0),
    is_present = (\<lambda>e. contains (from_bits_truncate DA_all e) DA_VALID),
    is_huge = (\<lambda>e. \<not> contains (from_bits_truncate DA_all e) DA_NON_BLOCK),
    clear = (\<lambda>e. 0) \<rparr>"

section \<open>The contract of the trait\<close>

text \<open>
  A physical address an entry can hold: the start of a 4K frame below the physical limit.
\<close>

definition frame_paddr :: "nat \<Rightarrow> PhysAddr \<Rightarrow> bool" where
  "frame_paddr n p \<longleftrightarrow> pa_is_aligned_4k p \<and> pa_as_usize p < 2 ^ n"

text \<open>
  The laws a page table relies on. \<open>stored\<close> is what an encoding keeps of the generic flags:
  the flags read back from an entry are \<open>stored\<close> of the flags written.
\<close>

locale generic_pte =
  fixes pte :: GenericPTE and pa_bits :: nat and stored :: "MappingFlags \<Rightarrow> MappingFlags"
  assumes unused_iff: "is_unused pte e \<longleftrightarrow> e = 0"
    and clear_zero: "clear pte e = 0"
    and zero_not_present: "\<not> is_present pte 0"
    and table_paddr: "frame_paddr pa_bits p \<Longrightarrow> pte_paddr pte (new_table pte p) = p"
    and table_present: "is_present pte (new_table pte p)"
    and table_not_huge: "\<not> is_huge pte (new_table pte p)"
    and page_paddr: "frame_paddr pa_bits p \<Longrightarrow> pte_paddr pte (new_page pte p f h) = p"
    and page_present: "contains f MF_READ \<Longrightarrow> is_present pte (new_page pte p f h)"
    and page_huge: "contains f MF_READ \<Longrightarrow> is_huge pte (new_page pte p f True)"
    and page_flags: "contains f MF_READ \<Longrightarrow> pte_flags pte (new_page pte p f h) = stored f"
    and set_paddr_paddr: "frame_paddr pa_bits p \<Longrightarrow> pte_paddr pte (set_paddr pte e p) = p"
    and set_paddr_flags: "pte_flags pte (set_paddr pte e p) = pte_flags pte e"
    and set_paddr_present: "is_present pte (set_paddr pte e p) = is_present pte e"
    and set_paddr_huge: "is_huge pte (set_paddr pte e p) = is_huge pte e"
    and set_flags_paddr: "pte_paddr pte (set_flags pte e f h) = pte_paddr pte e"
    and set_flags_flags: "contains f MF_READ \<Longrightarrow> pte_flags pte (set_flags pte e f h) = stored f"
    and set_flags_present: "contains f MF_READ \<Longrightarrow> is_present pte (set_flags pte e f h)"
    and set_flags_huge: "contains f MF_READ \<Longrightarrow> is_huge pte (set_flags pte e f True)"
    and stored_idem: "stored (stored f) = stored f"
    and stored_read: "contains f MF_READ \<Longrightarrow> contains (stored f) MF_READ"
begin

lemma present_nonzero: "is_present pte e \<Longrightarrow> e \<noteq> 0"
  using zero_not_present by blast

lemma table_nonzero [simp]: "new_table pte p \<noteq> 0"
  using present_nonzero [OF table_present] .

lemma page_nonzero: "contains f MF_READ \<Longrightarrow> new_page pte p f h \<noteq> 0"
  using present_nonzero [OF page_present] .

end

text \<open>What each encoding keeps of the generic flags.\<close>

definition flag_if :: "bool \<Rightarrow> MappingFlags \<Rightarrow> MappingFlags" where
  "flag_if b m = (if b then m else 0)"

definition access_flags :: "MappingFlags \<Rightarrow> MappingFlags" where
  "access_flags f = flag_if (contains f MF_READ) MF_READ OR flag_if (contains f MF_WRITE) MF_WRITE
    OR flag_if (contains f MF_EXECUTE) MF_EXECUTE OR flag_if (contains f MF_USER) MF_USER"

definition x64_stored :: "MappingFlags \<Rightarrow> MappingFlags" where
  "x64_stored f = access_flags f
    OR flag_if (contains f MF_DEVICE \<or> contains f MF_UNCACHED) MF_UNCACHED"

definition rv64_stored :: "MappingFlags \<Rightarrow> MappingFlags" where
  "rv64_stored f = access_flags f"

definition a64_stored :: "MappingFlags \<Rightarrow> MappingFlags" where
  "a64_stored f = access_flags f
    OR (if contains f MF_DEVICE then MF_DEVICE else flag_if (contains f MF_UNCACHED) MF_UNCACHED)"

section \<open>The encodings satisfy the contract\<close>

lemma or_and_disjoint:
  fixes x y m :: u64
  shows "x AND m = 0 \<Longrightarrow> (x OR (y AND m)) AND m = y AND m"
    and "x AND m = 0 \<Longrightarrow> ((y AND m) OR x) AND m = y AND m"
    and "m AND c = 0 \<Longrightarrow> (x OR (y AND m)) AND c = x AND c"
    and "m AND c = 0 \<Longrightarrow> ((y AND m) OR x) AND c = x AND c"
    and "m AND c = 0 \<Longrightarrow> ((y AND NOT m) OR (x AND m)) AND c = y AND c"
    and "((y AND NOT m) OR (x AND m)) AND m = x AND m"
    and "m AND c = 0 \<Longrightarrow> (y AND NOT m) AND c = y AND c"
  by (auto simp: bit_eq_iff bit_simps)

lemma frame_paddr_and_mask:
  assumes "frame_paddr n p" and "n < 64"
  shows "pa_as_usize p AND (mask n AND NOT (mask 12)) = pa_as_usize p"
proof -
  have low: "pa_as_usize p AND NOT (mask 12) = pa_as_usize p"
    using assms(1) unfolding frame_paddr_def pa_is_aligned_4k_def pa_is_aligned_def
      PAGE_SIZE_4K_exp
    by (intro is_aligned_and_not_mask) (rule conjunct1)
  have "pa_as_usize p AND mask n = pa_as_usize p"
    using assms by (simp add: frame_paddr_def less_mask_eq)
  then show ?thesis
    using low by (metis and.assoc)
qed


lemma X64_PHYS_ADDR_MASK_eq: "X64_PHYS_ADDR_MASK = mask 52 AND NOT (mask 12)"
  by (simp add: X64_PHYS_ADDR_MASK_def mask_eq_exp_minus_1)

lemma A64_PHYS_ADDR_MASK_eq: "A64_PHYS_ADDR_MASK = mask 48 AND NOT (mask 12)"
  by (simp add: A64_PHYS_ADDR_MASK_def mask_eq_exp_minus_1)

lemma RV64_PHYS_ADDR_MASK_eq: "RV64_PHYS_ADDR_MASK = drop_bit 2 (mask 56 AND NOT (mask 12))"
  by (simp add: RV64_PHYS_ADDR_MASK_def mask_eq_exp_minus_1)

lemma x64_frame: "frame_paddr 52 p \<Longrightarrow> pa_as_usize p AND X64_PHYS_ADDR_MASK = pa_as_usize p"
  unfolding X64_PHYS_ADDR_MASK_eq by (rule frame_paddr_and_mask) simp_all

lemma a64_frame: "frame_paddr 48 p \<Longrightarrow> pa_as_usize p AND A64_PHYS_ADDR_MASK = pa_as_usize p"
  unfolding A64_PHYS_ADDR_MASK_eq by (rule frame_paddr_and_mask) simp_all

lemma rv64_frame:
  assumes "frame_paddr 56 p"
  shows "push_bit 2 (drop_bit 2 (pa_as_usize p) AND RV64_PHYS_ADDR_MASK) = pa_as_usize p"
proof -
  have [simp]: "2 \<le> n \<Longrightarrow> Suc (Suc (n - 2)) = n" for n
    by arith
  have "push_bit 2 (drop_bit 2 (pa_as_usize p) AND RV64_PHYS_ADDR_MASK)
      = pa_as_usize p AND (mask 56 AND NOT (mask 12))"
    unfolding RV64_PHYS_ADDR_MASK_eq by (auto simp: bit_eq_iff bit_simps)
  then show ?thesis
    using frame_paddr_and_mask [OF assms] by simp
qed


text \<open>
  The three encodings have one shape: flag bits outside an address field, the address in
  that field. An encoding of this shape whose flags translate back satisfies the contract.
\<close>

locale masked_pte =
  fixes pte :: GenericPTE and pa_bits :: nat and stored :: "MappingFlags \<Rightarrow> MappingFlags"
    and M A T :: u64 and attr :: "MappingFlags \<Rightarrow> bool \<Rightarrow> u64"
    and enc dec :: "u64 \<Rightarrow> u64" and flags_of :: "u64 \<Rightarrow> MappingFlags"
    and present huge :: "u64 \<Rightarrow> bool"
  assumes ops: "new_page pte p f h = attr f h OR (enc (pa_as_usize p) AND M)"
      "new_table pte p = T OR (enc (pa_as_usize p) AND M)"
      "pte_paddr pte e = PhysAddr (dec (e AND M))"
      "pte_flags pte e = flags_of (e AND A)"
      "set_paddr pte e p = (e AND NOT M) OR (enc (pa_as_usize p) AND M)"
      "set_flags pte e f h = (e AND M) OR attr f h"
      "is_unused pte e = (e = 0)" "is_present pte e = present (e AND A)"
      "is_huge pte e = huge (e AND A)" "clear pte e = 0"
    and fields: "M AND A = 0" "attr f h AND M = 0" "attr f h AND A = attr f h"
      "T AND M = 0" "T AND A = T"
    and address: "frame_paddr pa_bits p \<Longrightarrow> dec (enc (pa_as_usize p) AND M) = pa_as_usize p"
    and tests: "\<not> present 0" "present T" "\<not> huge T"
      "contains f MF_READ \<Longrightarrow> present (attr f h)" "contains f MF_READ \<Longrightarrow> huge (attr f True)"
    and kept: "contains f MF_READ \<Longrightarrow> flags_of (attr f h) = stored f"
      "stored (stored f) = stored f"
      "contains f MF_READ \<Longrightarrow> contains (stored f) MF_READ"
begin

lemma entry_parts:
  "(attr f h OR (x AND M)) AND M = x AND M" "(attr f h OR (x AND M)) AND A = attr f h"
  "((x AND M) OR attr f h) AND M = x AND M" "((x AND M) OR attr f h) AND A = attr f h"
  "(T OR (x AND M)) AND M = x AND M" "(T OR (x AND M)) AND A = T"
  "((y AND NOT M) OR (x AND M)) AND M = x AND M" "((y AND NOT M) OR (x AND M)) AND A = y AND A"
  by (simp_all only: or_and_disjoint fields)

end

sublocale masked_pte \<subseteq> generic_pte
  by unfold_locales (simp_all add: ops entry_parts address tests kept)

context masked_pte
begin

lemma masked_is_generic: "generic_pte pte pa_bits stored"
  by (rule generic_pte_axioms)

end

lemma stored_flags_laws:
  "contains f MF_READ \<Longrightarrow> contains (x64_stored f) MF_READ"
  "contains f MF_READ \<Longrightarrow> contains (rv64_stored f) MF_READ"
  "contains f MF_READ \<Longrightarrow> contains (a64_stored f) MF_READ"
  "x64_stored (x64_stored f) = x64_stored f"
  "rv64_stored (rv64_stored f) = rv64_stored f"
  "a64_stored (a64_stored f) = a64_stored f"
  by (auto simp: x64_stored_def rv64_stored_def a64_stored_def access_flags_def flag_if_def
      contains_def mapping_flag_defs)

text \<open>x86-64, for the documented flag bits.\<close>

definition x64_attr :: "PTF \<Rightarrow> MappingFlags \<Rightarrow> bool \<Rightarrow> u64" where
  "x64_attr P f h =
    (if h then PTF_from_MappingFlags P f OR PTF_HUGE_PAGE P else PTF_from_MappingFlags P f)"

lemma x64_attr_bits:
  assumes "ptf_documented P"
  shows "x64_attr P f h AND X64_PHYS_ADDR_MASK = 0"
    and "x64_attr P f h AND PTF_all P = x64_attr P f h"
    and "contains f MF_READ \<Longrightarrow> contains (x64_attr P f h) (PTF_PRESENT P)"
    and "contains f MF_READ \<Longrightarrow> contains (x64_attr P f True) (PTF_HUGE_PAGE P)"
    and "contains f MF_READ \<Longrightarrow> MappingFlags_from_PTF P (x64_attr P f h) = x64_stored f"
  using assms
  by (auto simp: x64_attr_def ptf_documented_def X64_PHYS_ADDR_MASK_def PTF_from_MappingFlags_def
      MappingFlags_from_PTF_def x64_stored_def access_flags_def flag_if_def contains_def
      mapping_flag_defs)

lemma masked_pte_x64:
  assumes P: "ptf_documented P"
  shows "masked_pte (X64PTE P) 52 x64_stored X64_PHYS_ADDR_MASK (PTF_all P)
    (PTF_PRESENT P OR PTF_WRITABLE P OR PTF_USER_ACCESSIBLE P) (x64_attr P)
    (\<lambda>x. x) (\<lambda>x. x) (MappingFlags_from_PTF P)
    (\<lambda>e. contains e (PTF_PRESENT P)) (\<lambda>e. contains e (PTF_HUGE_PAGE P))"
proof
  show "X64_PHYS_ADDR_MASK AND PTF_all P = 0"
    "(PTF_PRESENT P OR PTF_WRITABLE P OR PTF_USER_ACCESSIBLE P) AND X64_PHYS_ADDR_MASK = 0"
    "(PTF_PRESENT P OR PTF_WRITABLE P OR PTF_USER_ACCESSIBLE P) AND PTF_all P
      = PTF_PRESENT P OR PTF_WRITABLE P OR PTF_USER_ACCESSIBLE P"
    "\<not> contains 0 (PTF_PRESENT P)"
    "contains (PTF_PRESENT P OR PTF_WRITABLE P OR PTF_USER_ACCESSIBLE P) (PTF_PRESENT P)"
    "\<not> contains (PTF_PRESENT P OR PTF_WRITABLE P OR PTF_USER_ACCESSIBLE P) (PTF_HUGE_PAGE P)"
    using P by (simp_all add: ptf_documented_def X64_PHYS_ADDR_MASK_def contains_def)
qed (simp_all add: X64PTE_def x64_new_page_def x64_new_table_def x64_paddr_def x64_flags_def
    x64_set_paddr_def x64_set_flags_def Let_def from_bits_truncate_def x64_attr_bits [OF P]
    x64_frame stored_flags_laws x64_attr_def [symmetric])

text \<open>RISC-V.\<close>

definition rv64_attr :: "MappingFlags \<Rightarrow> bool \<Rightarrow> u64" where
  "rv64_attr f h = PTEFlags_from_MappingFlags f OR PTEFlags_A OR PTEFlags_D"

lemmas PTEFlags_defs =
  PTEFlags_V_def PTEFlags_R_def PTEFlags_W_def PTEFlags_X_def PTEFlags_U_def PTEFlags_G_def
  PTEFlags_A_def PTEFlags_D_def PTEFlags_all_def

lemma rv64_attr_bits:
  shows "rv64_attr f h AND RV64_PHYS_ADDR_MASK = 0"
    and "rv64_attr f h AND PTEFlags_all = rv64_attr f h"
    and "contains f MF_READ \<Longrightarrow> contains (rv64_attr f h) PTEFlags_V"
    and "contains f MF_READ \<Longrightarrow> intersects (rv64_attr f True) (PTEFlags_R OR PTEFlags_X)"
    and "contains f MF_READ \<Longrightarrow> MappingFlags_from_PTEFlags (rv64_attr f h) = rv64_stored f"
  by (auto simp: rv64_attr_def PTEFlags_defs RV64_PHYS_ADDR_MASK_def PTEFlags_from_MappingFlags_def
      MappingFlags_from_PTEFlags_def rv64_stored_def access_flags_def flag_if_def contains_def
      intersects_def mapping_flag_defs)

interpretation rv64: masked_pte Rv64PTE 56 rv64_stored RV64_PHYS_ADDR_MASK PTEFlags_all
  PTEFlags_V rv64_attr "drop_bit 2" "push_bit 2" MappingFlags_from_PTEFlags
  "\<lambda>e. contains e PTEFlags_V" "\<lambda>e. intersects e (PTEFlags_R OR PTEFlags_X)"
proof
  show "RV64_PHYS_ADDR_MASK AND PTEFlags_all = 0" "PTEFlags_V AND RV64_PHYS_ADDR_MASK = 0"
    "PTEFlags_V AND PTEFlags_all = PTEFlags_V" "\<not> contains 0 PTEFlags_V"
    "contains PTEFlags_V PTEFlags_V" "\<not> intersects PTEFlags_V (PTEFlags_R OR PTEFlags_X)"
    by (simp_all add: PTEFlags_defs RV64_PHYS_ADDR_MASK_def contains_def intersects_def)
  show "new_page Rv64PTE p f h
      = rv64_attr f h OR (drop_bit 2 (pa_as_usize p) AND RV64_PHYS_ADDR_MASK)"
    "set_flags Rv64PTE e f h = (e AND RV64_PHYS_ADDR_MASK) OR rv64_attr f h" for p e f h
    by (simp_all add: Rv64PTE_def rv64_new_page_def rv64_set_flags_def rv64_attr_def)
qed (simp_all add: Rv64PTE_def rv64_new_table_def rv64_paddr_def rv64_flags_def
    rv64_set_paddr_def from_bits_truncate_def rv64_attr_bits rv64_frame stored_flags_laws
    del: push_bit_and)

text \<open>AArch64.\<close>

definition a64_attr :: "MappingFlags \<Rightarrow> bool \<Rightarrow> u64" where
  "a64_attr f h =
    (if \<not> h then (DescriptorAttr_from_MappingFlags f OR DA_AF) OR DA_NON_BLOCK
     else DescriptorAttr_from_MappingFlags f OR DA_AF)"

lemmas DescriptorAttr_defs =
  DA_VALID_def DA_NON_BLOCK_def DA_ATTR_INDX_def DA_NS_def DA_AP_EL0_def DA_AP_RO_def DA_INNER_def
  DA_SHAREABLE_def DA_AF_def DA_NG_def DA_CONTIGUOUS_def DA_PXN_def DA_UXN_def DA_PXN_TABLE_def
  DA_XN_TABLE_def DA_AP_NO_EL0_TABLE_def DA_AP_NO_WRITE_TABLE_def DA_NS_TABLE_def DA_all_def

lemma a64_attr_bits:
  shows "a64_attr f h AND A64_PHYS_ADDR_MASK = 0"
    and "a64_attr f h AND DA_all = a64_attr f h"
    and "contains f MF_READ \<Longrightarrow> contains (a64_attr f h) DA_VALID"
    and "\<not> contains (a64_attr f True) DA_NON_BLOCK"
    and "contains f MF_READ \<Longrightarrow> MappingFlags_from_DescriptorAttr (a64_attr f h) = a64_stored f"
  by (auto simp: a64_attr_def DescriptorAttr_defs A64_PHYS_ADDR_MASK_def
      DescriptorAttr_from_MappingFlags_def from_mem_attr_def mem_attr_index_def mem_attr_def
      ATTR_INDEX_MASK_def MappingFlags_from_DescriptorAttr_def a64_stored_def access_flags_def
      flag_if_def contains_def intersects_def mapping_flag_defs)

interpretation a64: masked_pte A64PTE 48 a64_stored A64_PHYS_ADDR_MASK DA_all
  "DA_NON_BLOCK OR DA_VALID" a64_attr "\<lambda>x. x" "\<lambda>x. x" MappingFlags_from_DescriptorAttr
  "\<lambda>e. contains e DA_VALID" "\<lambda>e. \<not> contains e DA_NON_BLOCK"
proof
  show "A64_PHYS_ADDR_MASK AND DA_all = 0" "(DA_NON_BLOCK OR DA_VALID) AND A64_PHYS_ADDR_MASK = 0"
    "(DA_NON_BLOCK OR DA_VALID) AND DA_all = DA_NON_BLOCK OR DA_VALID" "\<not> contains 0 DA_VALID"
    "contains (DA_NON_BLOCK OR DA_VALID) DA_VALID"
    "\<not> \<not> contains (DA_NON_BLOCK OR DA_VALID) DA_NON_BLOCK"
    by (simp_all add: DescriptorAttr_defs A64_PHYS_ADDR_MASK_def contains_def)
qed (simp_all add: A64PTE_def a64_new_page_def a64_new_table_def a64_paddr_def a64_flags_def
    a64_set_paddr_def a64_set_flags_def Let_def from_bits_truncate_def a64_attr_bits
    a64_frame stored_flags_laws a64_attr_def [symmetric])

end
