(* ===== verification/Page_Table.thy ===== *)
theory Page_Table
  imports Page_Table_Entry
begin

text \<open>
  The generic multi-level page table of the crate \<open>page_table\<close> (\<open>lib.rs\<close>, \<open>bits64.rs\<close> and
  the metadata of \<open>arch/\<close>).

  A table is 512 entries of 64 bits in a frame of physical memory, which the code reaches
  through \<open>phys_to_virt\<close>. Memory is a function from (virtual) word addresses to 64-bit
  words, so tables that overlap alias as they do in the machine, and a reference \<open>&mut PTE\<close>
  is the address of the entry. The trait \<open>PagingIf\<close> is a record of functions on the state
  of a frame allocator.
\<close>

section \<open>Errors, page sizes, metadata\<close>

datatype PagingError = NoMemory | NotAligned | NotMapped | AlreadyMapped | MappedToHugePage

datatype PageSize = Size4K | Size2M | Size1G

definition page_size_usize :: "PageSize \<Rightarrow> usize" where
  "page_size_usize s = (case s of Size4K \<Rightarrow> 0x1000 | Size2M \<Rightarrow> 0x200000 | Size1G \<Rightarrow> 0x40000000)"

definition page_size_is_huge :: "PageSize \<Rightarrow> bool" where
  "page_size_is_huge s = (s = Size1G \<or> s = Size2M)"

record PagingMetaData =
  LEVELS :: nat
  PA_MAX_BITS :: nat
  VA_MAX_BITS :: nat
  vaddr_is_valid :: "usize \<Rightarrow> bool"

definition PA_MAX_ADDR :: "PagingMetaData \<Rightarrow> usize" where
  "PA_MAX_ADDR md = push_bit (PA_MAX_BITS md) 1 - 1"

definition paddr_is_valid :: "PagingMetaData \<Rightarrow> usize \<Rightarrow> bool" where
  "paddr_is_valid md paddr \<longleftrightarrow> paddr \<le> PA_MAX_ADDR md"

definition default_vaddr_is_valid :: "nat \<Rightarrow> usize \<Rightarrow> bool" where
  "default_vaddr_is_valid va_bits vaddr =
    (let top_mask = push_bit (va_bits - 1) (- 1)
     in vaddr AND top_mask = 0 \<or> vaddr AND top_mask = top_mask)"

definition X64PagingMetaData :: PagingMetaData where
  "X64PagingMetaData = \<lparr> LEVELS = 4, PA_MAX_BITS = 52, VA_MAX_BITS = 48,
    vaddr_is_valid = default_vaddr_is_valid 48 \<rparr>"

definition Sv39MetaData :: PagingMetaData where
  "Sv39MetaData = \<lparr> LEVELS = 3, PA_MAX_BITS = 56, VA_MAX_BITS = 39,
    vaddr_is_valid = default_vaddr_is_valid 39 \<rparr>"

definition Sv48MetaData :: PagingMetaData where
  "Sv48MetaData = \<lparr> LEVELS = 4, PA_MAX_BITS = 56, VA_MAX_BITS = 48,
    vaddr_is_valid = default_vaddr_is_valid 48 \<rparr>"

definition a64_vaddr_is_valid :: "usize \<Rightarrow> bool" where
  "a64_vaddr_is_valid vaddr =
    (let top_bits = drop_bit 48 vaddr in top_bits = 0 \<or> top_bits = 0xFFFF)"

definition A64PagingMetaData :: PagingMetaData where
  "A64PagingMetaData = \<lparr> LEVELS = 4, PA_MAX_BITS = 48, VA_MAX_BITS = 48,
    vaddr_is_valid = a64_vaddr_is_valid \<rparr>"

section \<open>State\<close>

record 's PagingIf =
  alloc_frame :: "'s \<Rightarrow> PhysAddr option \<times> 's"
  dealloc_frame :: "PhysAddr \<Rightarrow> 's \<Rightarrow> 's"
  phys_to_virt :: "PhysAddr \<Rightarrow> VirtAddr"

record 's machine =
  mem :: "usize \<Rightarrow> u64"
  frames :: 's

record PageTable64 =
  root_paddr :: PhysAddr
  intrm_tables :: "PhysAddr list"

type_synonym ('a, 's) paging = "('a, PagingError) outcome \<times> PageTable64 \<times> 's machine"

section \<open>Indices and entries\<close>

definition ENTRY_COUNT :: usize where
  "ENTRY_COUNT = 512"

definition p4_index :: "VirtAddr \<Rightarrow> usize" where
  "p4_index vaddr = drop_bit (12 + 27) (va_as_usize vaddr) AND (ENTRY_COUNT - 1)"

definition p3_index :: "VirtAddr \<Rightarrow> usize" where
  "p3_index vaddr = drop_bit (12 + 18) (va_as_usize vaddr) AND (ENTRY_COUNT - 1)"

definition p2_index :: "VirtAddr \<Rightarrow> usize" where
  "p2_index vaddr = drop_bit (12 + 9) (va_as_usize vaddr) AND (ENTRY_COUNT - 1)"

definition p1_index :: "VirtAddr \<Rightarrow> usize" where
  "p1_index vaddr = drop_bit 12 (va_as_usize vaddr) AND (ENTRY_COUNT - 1)"

text \<open>\<open>&mut table_of_mut(paddr)[i]\<close>: the address of an entry.\<close>

definition entry_of :: "'s PagingIf \<Rightarrow> PhysAddr \<Rightarrow> usize \<Rightarrow> usize" where
  "entry_of pif paddr i = va_as_usize (phys_to_virt pif paddr) + 8 * i"

definition write_zero_page :: "usize \<Rightarrow> (usize \<Rightarrow> u64) \<Rightarrow> usize \<Rightarrow> u64" where
  "write_zero_page base m = (\<lambda>a. if a - base < PAGE_SIZE_4K then 0 else m a)"

definition alloc_table :: "'s PagingIf \<Rightarrow> 's machine \<Rightarrow> (PhysAddr, PagingError) outcome \<times> 's machine" where
  "alloc_table pif w =
    (case alloc_frame pif (frames w) of
       (Some paddr, s) \<Rightarrow>
         (Ok paddr, w\<lparr> mem := write_zero_page (va_as_usize (phys_to_virt pif paddr)) (mem w),
                      frames := s \<rparr>)
     | (None, s) \<Rightarrow> (Err NoMemory, w\<lparr> frames := s \<rparr>))"

definition next_table_mut :: "GenericPTE \<Rightarrow> u64 \<Rightarrow> (PhysAddr, PagingError) outcome" where
  "next_table_mut pte entry =
    (if \<not> is_present pte entry then Err NotMapped
     else if is_huge pte entry then Err MappedToHugePage
     else Ok (pte_paddr pte entry))"

definition next_table_mut_or_create ::
  "GenericPTE \<Rightarrow> 's PagingIf \<Rightarrow> usize \<Rightarrow> PageTable64 \<Rightarrow> 's machine \<Rightarrow> (PhysAddr, 's) paging" where
  "next_table_mut_or_create pte pif entry pt w =
    (if is_unused pte (mem w entry) then
       (case alloc_table pif w of
          (Ok paddr, w') \<Rightarrow>
            (Ok paddr, pt\<lparr> intrm_tables := intrm_tables pt @ [paddr] \<rparr>,
             w'\<lparr> mem := (mem w')(entry := new_table pte paddr) \<rparr>)
        | (Err e, w') \<Rightarrow> (Err e, pt, w')
        | (Panic, w') \<Rightarrow> (Panic, pt, w'))
     else (next_table_mut pte (mem w entry), pt, w))"

definition get_entry_mut ::
  "GenericPTE \<Rightarrow> PagingMetaData \<Rightarrow> 's PagingIf \<Rightarrow> PageTable64 \<Rightarrow> 's machine \<Rightarrow> VirtAddr
    \<Rightarrow> (usize \<times> PageSize, PagingError) outcome" where
  "get_entry_mut pte md pif pt w vaddr =
    bind_outcome
      (if LEVELS md = 3 then Ok (root_paddr pt)
       else if LEVELS md = 4
       then next_table_mut pte (mem w (entry_of pif (root_paddr pt) (p4_index vaddr)))
       else Panic)
      (\<lambda>p3. let p3e = entry_of pif p3 (p3_index vaddr) in
        if is_huge pte (mem w p3e) then Ok (p3e, Size1G)
        else bind_outcome (next_table_mut pte (mem w p3e))
          (\<lambda>p2. let p2e = entry_of pif p2 (p2_index vaddr) in
            if is_huge pte (mem w p2e) then Ok (p2e, Size2M)
            else bind_outcome (next_table_mut pte (mem w p2e))
              (\<lambda>p1. Ok (entry_of pif p1 (p1_index vaddr), Size4K))))"

text \<open>Sequencing of calls that change the page table and the machine.\<close>

definition bind_paging ::
  "('a, 's) paging \<Rightarrow> ('a \<Rightarrow> PageTable64 \<Rightarrow> 's machine \<Rightarrow> ('b, 's) paging) \<Rightarrow> ('b, 's) paging" where
  "bind_paging r f =
    (case r of (Ok a, pt, w) \<Rightarrow> f a pt w | (Err e, pt, w) \<Rightarrow> (Err e, pt, w)
     | (Panic, pt, w) \<Rightarrow> (Panic, pt, w))"

definition get_entry_mut_or_create ::
  "GenericPTE \<Rightarrow> PagingMetaData \<Rightarrow> 's PagingIf \<Rightarrow> VirtAddr \<Rightarrow> PageSize
    \<Rightarrow> PageTable64 \<Rightarrow> 's machine \<Rightarrow> (usize, 's) paging" where
  "get_entry_mut_or_create pte md pif vaddr page_size pt w =
    bind_paging
      (if LEVELS md = 3 then (Ok (root_paddr pt), pt, w)
       else if LEVELS md = 4
       then next_table_mut_or_create pte pif (entry_of pif (root_paddr pt) (p4_index vaddr)) pt w
       else (Panic, pt, w))
      (\<lambda>p3 pt w. let p3e = entry_of pif p3 (p3_index vaddr) in
        if page_size = Size1G then (Ok p3e, pt, w)
        else bind_paging (next_table_mut_or_create pte pif p3e pt w)
          (\<lambda>p2 pt w. let p2e = entry_of pif p2 (p2_index vaddr) in
            if page_size = Size2M then (Ok p2e, pt, w)
            else bind_paging (next_table_mut_or_create pte pif p2e pt w)
              (\<lambda>p1 pt w. (Ok (entry_of pif p1 (p1_index vaddr)), pt, w))))"

section \<open>Operations of \<open>PageTable64\<close>\<close>

definition try_new ::
  "'s PagingIf \<Rightarrow> 's machine \<Rightarrow> (PageTable64, PagingError) outcome \<times> 's machine" where
  "try_new pif w =
    (case alloc_table pif w of
       (Ok root, w') \<Rightarrow> (Ok \<lparr> root_paddr = root, intrm_tables = [root] \<rparr>, w')
     | (Err e, w') \<Rightarrow> (Err e, w')
     | (Panic, w') \<Rightarrow> (Panic, w'))"

definition pt_map ::
  "GenericPTE \<Rightarrow> PagingMetaData \<Rightarrow> 's PagingIf \<Rightarrow> VirtAddr \<Rightarrow> PhysAddr \<Rightarrow> PageSize \<Rightarrow> MappingFlags
    \<Rightarrow> PageTable64 \<Rightarrow> 's machine \<Rightarrow> (unit, 's) paging" where
  "pt_map pte md pif vaddr target page_size flags pt w =
    bind_paging (get_entry_mut_or_create pte md pif vaddr page_size pt w)
      (\<lambda>entry pt w.
        if \<not> is_unused pte (mem w entry) then (Err AlreadyMapped, pt, w)
        else (Ok (), pt, w\<lparr> mem := (mem w)(entry :=
               new_page pte (pa_align_down target (page_size_usize page_size)) flags
                 (page_size_is_huge page_size)) \<rparr>))"

definition pt_unmap ::
  "GenericPTE \<Rightarrow> PagingMetaData \<Rightarrow> 's PagingIf \<Rightarrow> VirtAddr \<Rightarrow> PageTable64 \<Rightarrow> 's machine
    \<Rightarrow> (PhysAddr \<times> PageSize, 's) paging" where
  "pt_unmap pte md pif vaddr pt w =
    bind_paging (get_entry_mut pte md pif pt w vaddr, pt, w)
      (\<lambda>(entry, sz) pt w.
        if is_unused pte (mem w entry) then (Err NotMapped, pt, w)
        else let paddr = pte_paddr pte (mem w entry)
             in (Ok (paddr, sz), pt,
                 w\<lparr> mem := (mem w)(entry := clear pte (mem w entry)) \<rparr>))"

definition pt_query ::
  "GenericPTE \<Rightarrow> PagingMetaData \<Rightarrow> 's PagingIf \<Rightarrow> VirtAddr \<Rightarrow> PageTable64 \<Rightarrow> 's machine
    \<Rightarrow> (PhysAddr \<times> MappingFlags \<times> PageSize, PagingError) outcome" where
  "pt_query pte md pif vaddr pt w =
    bind_outcome (get_entry_mut pte md pif pt w vaddr)
      (\<lambda>(entry, sz).
        if is_unused pte (mem w entry) then Err NotMapped
        else let off = va_align_offset vaddr (page_size_usize sz)
             in Ok (pa_add (pte_paddr pte (mem w entry)) off, pte_flags pte (mem w entry), sz))"

definition pt_update ::
  "GenericPTE \<Rightarrow> PagingMetaData \<Rightarrow> 's PagingIf \<Rightarrow> VirtAddr \<Rightarrow> PhysAddr option
    \<Rightarrow> MappingFlags option \<Rightarrow> PageTable64 \<Rightarrow> 's machine \<Rightarrow> (PageSize, 's) paging" where
  "pt_update pte md pif vaddr paddr flags pt w =
    bind_paging (get_entry_mut pte md pif pt w vaddr, pt, w)
      (\<lambda>(entry, sz) pt w.
        let e = mem w entry;
            e = (case paddr of Some p \<Rightarrow> set_paddr pte e p | None \<Rightarrow> e);
            e = (case flags of Some f \<Rightarrow> set_flags pte e f (page_size_is_huge sz) | None \<Rightarrow> e)
        in (Ok sz, pt, w\<lparr> mem := (mem w)(entry := e) \<rparr>))"

text \<open>The size of the next page of a region.\<close>

definition region_page_size :: "bool \<Rightarrow> VirtAddr \<Rightarrow> PhysAddr \<Rightarrow> usize \<Rightarrow> PageSize" where
  "region_page_size allow_huge vaddr paddr sz =
    (if allow_huge then
       (if va_is_aligned vaddr (page_size_usize Size1G) \<and> pa_is_aligned paddr (page_size_usize Size1G)
            \<and> page_size_usize Size1G \<le> sz then Size1G
        else if va_is_aligned vaddr (page_size_usize Size2M)
            \<and> pa_is_aligned paddr (page_size_usize Size2M) \<and> page_size_usize Size2M \<le> sz
        then Size2M
        else Size4K)
     else Size4K)"

text \<open>
  The loop of \<open>map_region\<close>. It runs for ever when \<open>size\<close> is not a multiple of 4096 and no
  call of \<open>map\<close> fails, so it is a partial function; \<open>map_region\<close> enters it only with aligned
  arguments.
\<close>

partial_function (option) map_region_loop ::
  "GenericPTE \<Rightarrow> PagingMetaData \<Rightarrow> 's PagingIf \<Rightarrow> MappingFlags \<Rightarrow> bool
    \<Rightarrow> VirtAddr \<Rightarrow> PhysAddr \<Rightarrow> usize \<Rightarrow> PageTable64 \<Rightarrow> 's machine \<Rightarrow> (unit, 's) paging option" where
  "map_region_loop pte md pif flags allow_huge vaddr paddr sz pt w =
    (if sz = 0 then Some (Ok (), pt, w)
     else let page_size = region_page_size allow_huge vaddr paddr sz in
       (case pt_map pte md pif vaddr paddr page_size flags pt w of
          (Ok _, pt', w') \<Rightarrow>
            map_region_loop pte md pif flags allow_huge
              (va_add vaddr (page_size_usize page_size)) (pa_add paddr (page_size_usize page_size))
              (sz - page_size_usize page_size) pt' w'
        | (Err e, pt', w') \<Rightarrow> Some (Err e, pt', w')
        | (Panic, pt', w') \<Rightarrow> Some (Panic, pt', w')))"

definition map_region ::
  "GenericPTE \<Rightarrow> PagingMetaData \<Rightarrow> 's PagingIf \<Rightarrow> VirtAddr \<Rightarrow> PhysAddr \<Rightarrow> usize \<Rightarrow> MappingFlags
    \<Rightarrow> bool \<Rightarrow> PageTable64 \<Rightarrow> 's machine \<Rightarrow> (unit, 's) paging option" where
  "map_region pte md pif vaddr paddr sz flags allow_huge pt w =
    (if \<not> va_is_aligned vaddr (page_size_usize Size4K)
        \<or> \<not> pa_is_aligned paddr (page_size_usize Size4K)
        \<or> \<not> is_aligned sz (page_size_usize Size4K)
     then Some (Err NotAligned, pt, w)
     else map_region_loop pte md pif flags allow_huge vaddr paddr sz pt w)"

function unmap_region ::
  "GenericPTE \<Rightarrow> PagingMetaData \<Rightarrow> 's PagingIf \<Rightarrow> VirtAddr \<Rightarrow> usize
    \<Rightarrow> PageTable64 \<Rightarrow> 's machine \<Rightarrow> (unit, 's) paging" where
  "unmap_region pte md pif vaddr sz pt w =
    (if sz = 0 then (Ok (), pt, w)
     else case pt_unmap pte md pif vaddr pt w of
         (Ok (_, page_size), pt', w') \<Rightarrow>
           if \<not> va_is_aligned vaddr (page_size_usize page_size) then (Panic, pt', w')
           else if \<not> page_size_usize page_size \<le> sz then (Panic, pt', w')
           else unmap_region pte md pif (va_add vaddr (page_size_usize page_size))
                  (sz - page_size_usize page_size) pt' w'
       | (Err e, pt', w') \<Rightarrow> (Err e, pt', w')
       | (Panic, pt', w') \<Rightarrow> (Panic, pt', w'))"
  by pat_completeness auto

lemma page_size_usize_pos: "0 < page_size_usize s"
  by (cases s) (simp_all add: page_size_usize_def)

lemma word_sub_less: "0 < (p :: usize) \<Longrightarrow> p \<le> n \<Longrightarrow> unat (n - p) < unat n"
  by (simp add: unat_sub word_less_nat_alt word_le_nat_alt)

termination unmap_region
  by (relation "measure (\<lambda>(_, _, _, _, sz, _, _). unat sz)")
    (auto simp: word_sub_less page_size_usize_pos not_less)

text \<open>
  The recursive walk. The callback is called on every present entry it meets; the model
  returns the sequence of these calls, as the arguments of the callback.
\<close>

type_synonym walk_call = "nat \<times> nat \<times> VirtAddr \<times> u64"

function walk_entries ::
  "GenericPTE \<Rightarrow> PagingMetaData \<Rightarrow> 's PagingIf \<Rightarrow> 's machine \<Rightarrow> nat \<Rightarrow> nat \<Rightarrow> VirtAddr \<Rightarrow> PhysAddr
    \<Rightarrow> nat list \<Rightarrow> nat \<Rightarrow> (unit, PagingError) outcome \<times> walk_call list" where
  "walk_entries pte md pif w limit level start table [] n = (Ok (), [])"
| "walk_entries pte md pif w limit level start table (i # rest) n =
    (let vaddr = va_add start (push_bit (12 + (LEVELS md - 1 - level) * 9) (of_nat i));
         entry = mem w (entry_of pif table (of_nat i))
     in if is_present pte entry then
          (case
             (if level < LEVELS md - 1 \<and> \<not> is_huge pte entry then
                (case next_table_mut pte entry of
                   Ok table' \<Rightarrow>
                     walk_entries pte md pif w limit (level + 1) vaddr table' [0..<512] 0
                 | Err e \<Rightarrow> (Err e, []) | Panic \<Rightarrow> (Panic, []))
              else (Ok (), [])) of
             (Ok _, calls) \<Rightarrow>
               if limit \<le> n + 1 then (Ok (), (level, i, vaddr, entry) # calls)
               else (case walk_entries pte md pif w limit level start table rest (n + 1) of
                       (r, calls') \<Rightarrow> (r, (level, i, vaddr, entry) # calls @ calls'))
           | (r, calls) \<Rightarrow> (r, (level, i, vaddr, entry) # calls))
        else walk_entries pte md pif w limit level start table rest n)"
  by pat_completeness auto

termination walk_entries
  by (relation "inv_image (less_than <*lex*> less_than)
      (\<lambda>(_, md, _, _, _, level, _, _, is, _). (LEVELS md - level, length is))") auto

definition walk ::
  "GenericPTE \<Rightarrow> PagingMetaData \<Rightarrow> 's PagingIf \<Rightarrow> nat \<Rightarrow> PageTable64 \<Rightarrow> 's machine
    \<Rightarrow> (unit, PagingError) outcome \<times> walk_call list" where
  "walk pte md pif limit pt w =
    walk_entries pte md pif w limit 0 (VirtAddr 0) (root_paddr pt) [0..<512] 0"

definition pt_drop :: "'s PagingIf \<Rightarrow> PageTable64 \<Rightarrow> 's machine \<Rightarrow> 's machine" where
  "pt_drop pif pt w = w\<lparr> frames := fold (dealloc_frame pif) (intrm_tables pt) (frames w) \<rparr>"

section \<open>The architectures\<close>

datatype arch = X86_64 PTF | Sv39 | Sv48 | AArch64

definition arch_pte :: "arch \<Rightarrow> GenericPTE" where
  "arch_pte a = (case a of X86_64 P \<Rightarrow> X64PTE P | Sv39 \<Rightarrow> Rv64PTE | Sv48 \<Rightarrow> Rv64PTE | AArch64 \<Rightarrow> A64PTE)"

definition arch_md :: "arch \<Rightarrow> PagingMetaData" where
  "arch_md a = (case a of X86_64 _ \<Rightarrow> X64PagingMetaData | Sv39 \<Rightarrow> Sv39MetaData
    | Sv48 \<Rightarrow> Sv48MetaData | AArch64 \<Rightarrow> A64PagingMetaData)"

definition arch_stored :: "arch \<Rightarrow> MappingFlags \<Rightarrow> MappingFlags" where
  "arch_stored a = (case a of X86_64 _ \<Rightarrow> x64_stored | Sv39 \<Rightarrow> rv64_stored | Sv48 \<Rightarrow> rv64_stored
    | AArch64 \<Rightarrow> a64_stored)"

definition arch_ok :: "arch \<Rightarrow> bool" where
  "arch_ok a = (case a of X86_64 P \<Rightarrow> ptf_documented P | _ \<Rightarrow> True)"

section \<open>Frames and memory\<close>

text \<open>
  What a page table needs of the frame allocator: \<open>live\<close> is the set of frames handed out
  and not given back. A new frame is not live, is aligned and lies below the physical
  limit; \<open>phys_to_virt\<close> is a fixed offset.
\<close>

locale frame_allocator =
  fixes pif :: "'s PagingIf" and pa_limit :: nat
    and falloc_ok :: "'s \<Rightarrow> bool" and live :: "'s \<Rightarrow> PhysAddr set"
  assumes alloc_some: "falloc_ok s \<Longrightarrow> alloc_frame pif s = (Some p, s') \<Longrightarrow>
      falloc_ok s' \<and> p \<notin> live s \<and> live s' = insert p (live s)"
    and alloc_none: "falloc_ok s \<Longrightarrow> alloc_frame pif s = (None, s') \<Longrightarrow>
      falloc_ok s' \<and> live s' = live s"
    and dealloc_live: "falloc_ok s \<Longrightarrow> p \<in> live s \<Longrightarrow>
      falloc_ok (dealloc_frame pif p s) \<and> live (dealloc_frame pif p s) = live s - {p}"
    and live_frame: "falloc_ok s \<Longrightarrow> p \<in> live s \<Longrightarrow> frame_paddr pa_limit p"
    and linear_map: "\<exists>off. \<forall>p. va_as_usize (phys_to_virt pif p) = pa_as_usize p + off"

end
