(* ===== verification/Page_Table_Proofs.thy ===== *)
theory Page_Table_Proofs
  imports Page_Table
begin

text \<open>
  Correctness of the page table: the tables reachable from the root form a tree whose nodes
  are frames the page table owns, every operation keeps this, and \<open>map\<close>, \<open>unmap\<close>, \<open>update\<close>
  and the region operations change the translation of exactly the addresses they name.
\<close>

section \<open>Memory as tables\<close>

definition table_view :: "'s PagingIf \<Rightarrow> (usize \<Rightarrow> u64) \<Rightarrow> PhysAddr \<Rightarrow> usize \<Rightarrow> u64" where
  "table_view pif m t i = m (entry_of pif t i)"

lemma index_scaled:
  fixes i j :: usize
  assumes "i < 512"
  shows "8 * i AND mask 12 = 8 * i" and "j < 512 \<Longrightarrow> 8 * i = 8 * j \<longleftrightarrow> i = j"
proof -
  have *: "k < 512 \<Longrightarrow> unat (8 * k) = 8 * unat k" for k :: usize
    by (simp add: unat_word_ariths word_less_nat_alt)
  have "8 * i < 2 ^ 12"
    using * [OF assms] assms by (simp add: word_less_nat_alt)
  then show "8 * i AND mask 12 = 8 * i"
    by (intro less_mask_eq) simp_all
  assume "j < 512"
  then show "8 * i = 8 * j \<longleftrightarrow> i = j"
    using * [OF assms] * [of j] by (metis mult_cancel_left zero_neq_numeral word_unat_eq_iff)
qed

lemma frame_paddr_low_bits: "frame_paddr n p \<Longrightarrow> pa_as_usize p AND mask 12 = 0"
  unfolding frame_paddr_def pa_is_aligned_4k_def pa_is_aligned_def PAGE_SIZE_4K_exp
    is_aligned_def align_offset_def pow2_minus_1_mask
  by (rule conjunct1)

lemma frame_entry_parts:
  assumes "frame_paddr n p" and "i < 512"
  shows "(pa_as_usize p + 8 * i) AND NOT (mask 12) = pa_as_usize p"
    and "(pa_as_usize p + 8 * i) AND mask 12 = 8 * i"
  using page_add_parts [OF frame_paddr_low_bits [OF assms(1)] index_scaled(1) [OF assms(2)]] .

context frame_allocator
begin

lemma entry_of_inject:
  assumes "frame_paddr n p" "frame_paddr n q" "i < 512" "j < 512"
  shows "entry_of pif p i = entry_of pif q j \<longleftrightarrow> p = q \<and> i = j"
proof -
  obtain off where off: "\<And>p. va_as_usize (phys_to_virt pif p) = pa_as_usize p + off"
    using linear_map by blast
  have "entry_of pif p i = entry_of pif q j \<longleftrightarrow> pa_as_usize p + 8 * i = pa_as_usize q + 8 * j"
    by (simp add: entry_of_def off)
  also have "\<dots> \<longleftrightarrow> pa_as_usize p = pa_as_usize q \<and> 8 * i = 8 * j"
    by (metis frame_entry_parts assms)
  also have "\<dots> \<longleftrightarrow> p = q \<and> i = j"
    using index_scaled(2) [OF assms(3,4)] by (auto intro: PhysAddr.expand)
  finally show ?thesis .
qed

lemma table_view_write:
  assumes "frame_paddr n p" "frame_paddr n q" "i < 512" "j < 512"
  shows "table_view pif (m(entry_of pif p i := v)) q j
    = (if q = p \<and> j = i then v else table_view pif m q j)"
  using entry_of_inject [OF assms] by (auto simp: table_view_def)

lemma table_view_zero:
  assumes "frame_paddr n p" "frame_paddr n q" "j < 512"
  shows "table_view pif (write_zero_page (va_as_usize (phys_to_virt pif p)) m) q j
    = (if q = p then 0 else table_view pif m q j)"
proof -
  obtain off where off: "\<And>p. va_as_usize (phys_to_virt pif p) = pa_as_usize p + off"
    using linear_map by blast
  define d where "d = entry_of pif q j - va_as_usize (phys_to_virt pif p)"
  have d: "pa_as_usize p + d = pa_as_usize q + 8 * j"
    by (simp add: d_def entry_of_def off)
  have "d < PAGE_SIZE_4K \<longleftrightarrow> q = p"
  proof
    assume "d < PAGE_SIZE_4K"
    then have "d AND mask 12 = d"
      by (intro less_mask_eq) (simp_all add: PAGE_SIZE_4K_def)
    then have "(pa_as_usize p + d) AND NOT (mask 12) = pa_as_usize p"
      using page_add_parts(1) frame_paddr_low_bits [OF assms(1)] by blast
    then have "pa_as_usize q = pa_as_usize p"
      using frame_entry_parts(1) [OF assms(2,3)] d by simp
    then show "q = p" by (rule PhysAddr.expand)
  next
    assume "q = p"
    then have "d = 8 * j" using d by simp
    then show "d < PAGE_SIZE_4K"
      using index_scaled(1) [OF assms(3)] and_mask_less' [of 12 "8 * j"]
      by (simp add: PAGE_SIZE_4K_def)
  qed
  then show ?thesis
    by (simp add: table_view_def write_zero_page_def d_def)
qed

end

section \<open>Paths from the root\<close>

definition is_table_entry :: "GenericPTE \<Rightarrow> u64 \<Rightarrow> bool" where
  "is_table_entry pte e \<longleftrightarrow> is_present pte e \<and> \<not> is_huge pte e"

fun path_table :: "GenericPTE \<Rightarrow> (PhysAddr \<Rightarrow> usize \<Rightarrow> u64) \<Rightarrow> PhysAddr \<Rightarrow> usize list \<Rightarrow> PhysAddr option" where
  "path_table pte T t [] = Some t"
| "path_table pte T t (i # is) =
    (if is_table_entry pte (T t i) then path_table pte T (pte_paddr pte (T t i)) is else None)"

text \<open>The entry a translation ends at, for the indices of an address from the root down.\<close>

fun leaf_slot :: "GenericPTE \<Rightarrow> (PhysAddr \<Rightarrow> usize \<Rightarrow> u64) \<Rightarrow> PhysAddr \<Rightarrow> usize list
    \<Rightarrow> (PhysAddr \<times> usize \<times> PageSize, PagingError) outcome" where
  "leaf_slot pte T t [] = Panic"
| "leaf_slot pte T t [i] = Ok (t, i, Size4K)"
| "leaf_slot pte T t (i # j # is) =
    (if length is < 2 \<and> is_huge pte (T t i) then Ok (t, i, if is = [] then Size2M else Size1G)
     else bind_outcome (next_table_mut pte (T t i)) (\<lambda>t'. leaf_slot pte T t' (j # is)))"

definition leaf_entry :: "GenericPTE \<Rightarrow> (PhysAddr \<Rightarrow> usize \<Rightarrow> u64) \<Rightarrow> PhysAddr \<Rightarrow> usize list
    \<Rightarrow> (u64 \<times> PageSize, PagingError) outcome" where
  "leaf_entry pte T t is = bind_outcome (leaf_slot pte T t is)
    (\<lambda>(t, i, sz). if T t i = 0 then Err NotMapped else Ok (T t i, sz))"

definition va_indices :: "PagingMetaData \<Rightarrow> VirtAddr \<Rightarrow> usize list" where
  "va_indices md va = (if LEVELS md = 3 then [p3_index va, p2_index va, p1_index va]
    else [p4_index va, p3_index va, p2_index va, p1_index va])"

lemma get_entry_mut_slot:
  assumes "LEVELS md = 3 \<or> LEVELS md = 4"
  shows "get_entry_mut pte md pif pt w va =
    bind_outcome (leaf_slot pte (table_view pif (mem w)) (root_paddr pt) (va_indices md va))
      (\<lambda>(t, i, sz). Ok (entry_of pif t i, sz))"
  using assms
  by (auto simp: get_entry_mut_def va_indices_def table_view_def next_table_mut_def Let_def
      split: outcome.splits)

lemma path_table_append:
  "path_table pte T t (is @ js) =
    (case path_table pte T t is of None \<Rightarrow> None | Some u \<Rightarrow> path_table pte T u js)"
  by (induction "is" arbitrary: t) simp_all

lemma leaf_slot_append:
  "path_table pte T t is = Some u \<Longrightarrow> js \<noteq> [] \<Longrightarrow> leaf_slot pte T t (is @ js) = leaf_slot pte T u js"
proof (induction "is" arbitrary: t)
  case (Cons i "is")
  then obtain k ks where ks: "is @ js = k # ks" by (cases "is @ js") auto
  then show ?case
    using Cons by (auto simp: is_table_entry_def next_table_mut_def split: if_splits)
qed simp

text \<open>A translation depends only on the entries it passes.\<close>

lemma path_table_cong:
  assumes "\<And>a j b u. is = a @ j # b \<Longrightarrow> path_table pte T t a = Some u \<Longrightarrow> T' u j = T u j"
  shows "path_table pte T' t is = path_table pte T t is"
  using assms
proof (induction "is" arbitrary: t)
  case (Cons i "is")
  have i: "T' t i = T t i" using Cons.prems [of "[]"] by simp
  show ?case
  proof (cases "is_table_entry pte (T t i)")
    case True
    then have "path_table pte T' (pte_paddr pte (T t i)) is = path_table pte T (pte_paddr pte (T t i)) is"
      using Cons.prems [of "i # _"] by (intro Cons.IH) simp
    then show ?thesis using i by simp
  qed (simp add: i)
qed simp

lemma leaf_entry_cong:
  assumes "\<And>a j b u. is = a @ j # b \<Longrightarrow> path_table pte T t a = Some u \<Longrightarrow> T' u j = T u j"
  shows "leaf_entry pte T' t is = leaf_entry pte T t is"
  using assms
proof (induction pte T t "is" rule: leaf_slot.induct)
  case (2 pte T t i)
  then show ?case using 2 [of "[]" i "[]" t] by (simp add: leaf_entry_def)
next
  case (3 pte T t i j "is")
  have i: "T' t i = T t i" using "3.prems" [of "[]"] by simp
  show ?case
  proof (cases "length is < 2 \<and> is_huge pte (T t i) \<or> \<not> is_table_entry pte (T t i)")
    case True
    then show ?thesis
      by (auto simp: leaf_entry_def i is_table_entry_def next_table_mut_def)
  next
    case False
    then have e: "is_present pte (T t i)" "\<not> is_huge pte (T t i)"
      by (auto simp: is_table_entry_def)
    have "leaf_entry pte T' (pte_paddr pte (T t i)) (j # is)
        = leaf_entry pte T (pte_paddr pte (T t i)) (j # is)"
      using e "3.prems" [of "i # _"] by (intro "3.IH") (auto simp: is_table_entry_def)
    then show ?thesis
      using e by (simp add: leaf_entry_def i next_table_mut_def)
  qed
qed (simp add: leaf_entry_def)

section \<open>The invariant\<close>

definition index_path :: "PagingMetaData \<Rightarrow> usize list \<Rightarrow> bool" where
  "index_path md ps \<longleftrightarrow> length ps < LEVELS md \<and> (\<forall>i\<in>set ps. i < 512)"

text \<open>
  The tables reachable from the root are owned frames, no two paths lead to the same table,
  and an entry is zero or present; the entries of a fourth-level table never map a page.
\<close>

definition tables_ok ::
  "GenericPTE \<Rightarrow> PagingMetaData \<Rightarrow> (PhysAddr \<Rightarrow> usize \<Rightarrow> u64) \<Rightarrow> PhysAddr \<Rightarrow> PhysAddr set \<Rightarrow> bool" where
  "tables_ok pte md T root owned \<longleftrightarrow>
    (\<forall>ps t. index_path md ps \<longrightarrow> path_table pte T root ps = Some t \<longrightarrow> t \<in> owned) \<and>
    (\<forall>ps qs t. index_path md ps \<longrightarrow> index_path md qs \<longrightarrow> path_table pte T root ps = Some t
       \<longrightarrow> path_table pte T root qs = Some t \<longrightarrow> ps = qs) \<and>
    (\<forall>ps i t. index_path md ps \<longrightarrow> i < 512 \<longrightarrow> path_table pte T root ps = Some t \<longrightarrow>
       T t i = 0 \<or> is_present pte (T t i) \<and> (LEVELS md = length ps + 4 \<longrightarrow> \<not> is_huge pte (T t i)))"

definition pt_inv ::
  "GenericPTE \<Rightarrow> PagingMetaData \<Rightarrow> 's PagingIf \<Rightarrow> ('s \<Rightarrow> bool) \<Rightarrow> ('s \<Rightarrow> PhysAddr set)
    \<Rightarrow> PageTable64 \<Rightarrow> 's machine \<Rightarrow> bool" where
  "pt_inv pte md pif falloc_ok live pt w \<longleftrightarrow>
    falloc_ok (frames w) \<and> set (intrm_tables pt) \<subseteq> live (frames w) \<and> distinct (intrm_tables pt)
    \<and> tables_ok pte md (table_view pif (mem w)) (root_paddr pt) (set (intrm_tables pt))"

lemma index_path_prefix: "index_path md (ps @ qs) \<Longrightarrow> index_path md ps"
  by (simp add: index_path_def)

lemma tables_ok_unique:
  "tables_ok pte md T root owned \<Longrightarrow> index_path md ps \<Longrightarrow> index_path md qs \<Longrightarrow>
    path_table pte T root ps = Some t \<Longrightarrow> path_table pte T root qs = Some t \<Longrightarrow> ps = qs"
  unfolding tables_ok_def by blast

lemma tables_ok_owned:
  "tables_ok pte md T root owned \<Longrightarrow> index_path md ps \<Longrightarrow> path_table pte T root ps = Some t \<Longrightarrow> t \<in> owned"
  unfolding tables_ok_def by blast

lemma tables_ok_entry:
  "tables_ok pte md T root owned \<Longrightarrow> index_path md ps \<Longrightarrow> i < 512 \<Longrightarrow> path_table pte T root ps = Some t \<Longrightarrow>
    T t i = 0 \<or> is_present pte (T t i) \<and> (LEVELS md = length ps + 4 \<longrightarrow> \<not> is_huge pte (T t i))"
  unfolding tables_ok_def by blast

lemma tables_okI:
  assumes "\<And>ps t. index_path md ps \<Longrightarrow> path_table pte T root ps = Some t \<Longrightarrow> t \<in> owned"
    and "\<And>ps qs t. index_path md ps \<Longrightarrow> index_path md qs \<Longrightarrow> path_table pte T root ps = Some t
       \<Longrightarrow> path_table pte T root qs = Some t \<Longrightarrow> ps = qs"
    and "\<And>ps i t. index_path md ps \<Longrightarrow> i < 512 \<Longrightarrow> path_table pte T root ps = Some t \<Longrightarrow>
       T t i = 0 \<or> is_present pte (T t i) \<and> (LEVELS md = length ps + 4 \<longrightarrow> \<not> is_huge pte (T t i))"
  shows "tables_ok pte md T root owned"
  using assms unfolding tables_ok_def by blast

text \<open>
  \<open>T'\<close> differs from \<open>T\<close> on the owned tables in the entry \<open>i\<close> of the table at the end of the
  path \<open>ps\<close> only. A walk that does not go through that entry is the same in both.
\<close>

definition entry_change ::
  "GenericPTE \<Rightarrow> PagingMetaData \<Rightarrow> (PhysAddr \<Rightarrow> usize \<Rightarrow> u64) \<Rightarrow> (PhysAddr \<Rightarrow> usize \<Rightarrow> u64) \<Rightarrow> PhysAddr
    \<Rightarrow> PhysAddr set \<Rightarrow> usize list \<Rightarrow> usize \<Rightarrow> PhysAddr \<Rightarrow> bool" where
  "entry_change pte md T T' root owned ps i t \<longleftrightarrow>
    tables_ok pte md T root owned \<and> index_path md ps \<and> i < 512
    \<and> path_table pte T root ps = Some t
    \<and> (\<forall>u j. u \<in> owned \<longrightarrow> j < 512 \<longrightarrow> (u, j) \<noteq> (t, i) \<longrightarrow> T' u j = T u j)"

lemma avoid_entry:
  assumes ch: "entry_change pte md T T' root owned ps i t"
    and "length is \<le> LEVELS md" "\<forall>x\<in>set is. x < 512" "take (Suc (length ps)) is \<noteq> ps @ [i]"
    and split: "is = a @ j # b" "path_table pte T root a = Some u"
  shows "T' u j = T u j"
proof -
  have ok: "tables_ok pte md T root owned" and ps: "index_path md ps" "path_table pte T root ps = Some t"
    using ch by (simp_all add: entry_change_def)
  have a: "index_path md a"
    using assms by (auto simp: index_path_def)
  have "(u, j) \<noteq> (t, i)"
    using tables_ok_unique [OF ok a ps(1) split(2)] ps(2) assms(4) split(1) by auto
  moreover have "u \<in> owned" "j < 512"
    using tables_ok_owned [OF ok a split(2)] assms(3) split(1) by simp_all
  ultimately show ?thesis
    using ch unfolding entry_change_def by blast
qed

lemma path_other:
  assumes "entry_change pte md T T' root owned ps i t"
    and "index_path md qs" "take (Suc (length ps)) qs \<noteq> ps @ [i]"
  shows "path_table pte T' root qs = path_table pte T root qs"
  using assms by (intro path_table_cong avoid_entry [OF assms(1)]) (auto simp: index_path_def)

lemma path_same:
  assumes "entry_change pte md T T' root owned ps i t"
  shows "path_table pte T' root ps = Some t"
  using path_other [OF assms, of ps] assms by (simp add: entry_change_def)

lemma leaf_other:
  assumes "entry_change pte md T T' root owned ps i t"
    and "length is = LEVELS md" "\<forall>x\<in>set is. x < 512" "take (Suc (length ps)) is \<noteq> ps @ [i]"
  shows "leaf_entry pte T' root is = leaf_entry pte T root is"
  using assms by (intro leaf_entry_cong avoid_entry [OF assms(1)]) auto

lemma path_split:
  assumes "take (Suc (length ps)) qs = ps @ [i]"
  obtains rest where "qs = ps @ i # rest"
proof -
  have "qs = ps @ i # drop (Suc (length ps)) qs"
    using assms append_take_drop_id [of "Suc (length ps)" qs] by simp
  then show thesis by (rule that)
qed

lemma path_through:
  "entry_change pte md T T' root owned ps i t \<Longrightarrow>
    path_table pte T' root (ps @ i # rest) = path_table pte T' t (i # rest)"
  by (simp add: path_table_append path_same)

lemma leaf_through:
  "path_table pte T root ps = Some t \<Longrightarrow>
    leaf_entry pte T root (ps @ i # rest) = leaf_entry pte T t (i # rest)"
  by (simp add: leaf_entry_def leaf_slot_append)

text \<open>The size of the page an entry maps, by the number of levels below it.\<close>

definition level_size :: "nat \<Rightarrow> PageSize" where
  "level_size n = (if n = 0 then Size4K else if n = 1 then Size2M else Size1G)"

context generic_pte
begin

lemma leaf_entry_zero: "T t i = 0 \<Longrightarrow> leaf_entry pte T t (i # rest) = Err NotMapped"
  by (cases rest) (auto simp: leaf_entry_def next_table_mut_def zero_not_present)

lemma leaf_entry_page:
  "v \<noteq> 0 \<Longrightarrow> T t i = v \<Longrightarrow> rest = [] \<or> is_huge pte v \<and> length rest \<le> 2 \<Longrightarrow>
    leaf_entry pte T t (i # rest) = Ok (v, level_size (length rest))"
  by (cases rest) (auto simp: leaf_entry_def level_size_def)

text \<open>
  A write to an entry that is no table before and after: the invariant holds afterwards, and
  the translations through the entry are those the new value gives.
\<close>

lemma leaf_write_ok:
  assumes ch: "entry_change pte md T T' root owned ps i t"
    and v: "T' t i = 0 \<or> is_present pte (T' t i)"
      "length ps + 1 < LEVELS md \<Longrightarrow> \<not> is_table_entry pte (T t i) \<and>
        (T' t i = 0 \<or> is_huge pte (T' t i) \<and> LEVELS md \<noteq> length ps + 4)"
  shows "tables_ok pte md T' root owned"
proof -
  have ok: "tables_ok pte md T root owned" and ps: "index_path md ps" "i < 512"
    and t: "path_table pte T root ps = Some t"
    using ch by (simp_all add: entry_change_def)
  have paths: "path_table pte T' root qs = path_table pte T root qs" if qs: "index_path md qs" for qs
  proof (cases "take (Suc (length ps)) qs = ps @ [i]")
    case True
    then obtain rest where rest: "qs = ps @ i # rest" by (rule path_split)
    then have "length ps + 1 < LEVELS md" using qs by (simp add: index_path_def)
    then have "\<not> is_table_entry pte (T t i)" "\<not> is_table_entry pte (T' t i)"
      using v by (auto simp: is_table_entry_def zero_not_present)
    then show ?thesis
      using rest path_through [OF ch] t by (simp add: path_table_append)
  qed (use path_other [OF ch qs] in simp)
  have entries: "T' u j = 0 \<or> is_present pte (T' u j) \<and> (LEVELS md = length qs + 4 \<longrightarrow> \<not> is_huge pte (T' u j))"
    if qj: "index_path md qs" "j < 512" and u: "path_table pte T root qs = Some u" for qs j u
  proof (cases "(u, j) = (t, i)")
    case True
    have "qs = ps" using tables_ok_unique [OF ok qj(1) ps(1) u] t True by simp
    then show ?thesis using v True by auto
  next
    case False
    have "u \<in> owned" using tables_ok_owned [OF ok qj(1) u] .
    then have "T' u j = T u j" using ch False qj(2) unfolding entry_change_def by blast
    then show ?thesis using tables_ok_entry [OF ok qj u] by simp
  qed
  show ?thesis
  proof (rule tables_okI)
    fix qs u assume "index_path md qs" "path_table pte T' root qs = Some u"
    then show "u \<in> owned" using paths tables_ok_owned [OF ok] by simp
  next
    fix qs rs u assume "index_path md qs" "index_path md rs"
      "path_table pte T' root qs = Some u" "path_table pte T' root rs = Some u"
    then show "qs = rs" using paths tables_ok_unique [OF ok] by simp
  next
    fix qs u and j :: usize assume "index_path md qs" "j < 512" "path_table pte T' root qs = Some u"
    then show "T' u j = 0 \<or> is_present pte (T' u j) \<and> (LEVELS md = length qs + 4 \<longrightarrow> \<not> is_huge pte (T' u j))"
      using entries paths by simp
  qed
qed

text \<open>Installing an empty table in an unused entry changes no translation.\<close>

lemma table_install:
  assumes ch: "entry_change pte md T T' root owned ps i t"
    and lev: "length ps + 1 < LEVELS md" and unused: "T t i = 0" and p: "p \<notin> owned"
    and new: "T' t i = new_table pte p" "pte_paddr pte (T' t i) = p"
    and empty: "\<And>j. j < 512 \<Longrightarrow> T' p j = 0"
  shows "tables_ok pte md T' root (insert p owned)"
    and "path_table pte T' root (ps @ [i]) = Some p"
    and "length is = LEVELS md \<Longrightarrow> \<forall>x\<in>set is. x < 512 \<Longrightarrow>
      leaf_entry pte T' root is = leaf_entry pte T root is"
proof -
  have ok: "tables_ok pte md T root owned" and ps: "index_path md ps" "i < 512"
    and t: "path_table pte T root ps = Some t"
    using ch by (simp_all add: entry_change_def)
  have tab: "is_table_entry pte (T' t i)"
    using new(1) table_present table_not_huge by (simp add: is_table_entry_def)
  have nontab: "\<not> is_table_entry pte 0"
    using zero_not_present by (simp add: is_table_entry_def)
  show at_p: "path_table pte T' root (ps @ [i]) = Some p"
    using path_through [OF ch, of "[]"] tab new(2) by simp
  have through: "path_table pte T' root qs = (if qs = ps @ [i] then Some p else None)
      \<and> path_table pte T root qs = None"
    if qs: "index_path md qs" and pre: "take (Suc (length ps)) qs = ps @ [i]" for qs
  proof -
    obtain rest where rest: "qs = ps @ i # rest" using pre by (rule path_split)
    have "path_table pte T' p rest = (if rest = [] then Some p else None)"
      using qs rest empty nontab by (cases rest) (auto simp: index_path_def)
    then show ?thesis
      using rest path_through [OF ch, of rest] tab new(2) t unused nontab
      by (simp add: path_table_append)
  qed
  have path_cases: "qs = ps @ [i] \<and> u = p \<or> u \<in> owned \<and> path_table pte T root qs = Some u"
    if "index_path md qs" "path_table pte T' root qs = Some u" for qs u
    using that through [of qs] path_other [OF ch that(1)] tables_ok_owned [OF ok that(1)]
    by (cases "take (Suc (length ps)) qs = ps @ [i]") (auto split: if_splits)
  show "tables_ok pte md T' root (insert p owned)"
  proof (rule tables_okI)
    fix qs u assume "index_path md qs" "path_table pte T' root qs = Some u"
    then show "u \<in> insert p owned" using path_cases by blast
  next
    fix qs rs u assume "index_path md qs" "index_path md rs"
      "path_table pte T' root qs = Some u" "path_table pte T' root rs = Some u"
    then show "qs = rs" using path_cases [of qs u] path_cases [of rs u] p tables_ok_unique [OF ok] by blast
  next
    fix qs u and j :: usize assume qj: "index_path md qs" and j: "j < 512" and u: "path_table pte T' root qs = Some u"
    consider "u = p" | "(u, j) = (t, i)"
      | "(u, j) \<noteq> (t, i)" "u \<in> owned" "path_table pte T root qs = Some u"
      using path_cases [OF qj u] by blast
    then show "T' u j = 0 \<or> is_present pte (T' u j) \<and> (LEVELS md = length qs + 4 \<longrightarrow> \<not> is_huge pte (T' u j))"
    proof cases
      case 1
      then show ?thesis using empty j by simp
    next
      case 2
      then show ?thesis using tab by (simp add: is_table_entry_def)
    next
      case 3
      then have "T' u j = T u j" using ch j unfolding entry_change_def by blast
      then show ?thesis using tables_ok_entry [OF ok qj j 3(3)] by simp
    qed
  qed
  show "leaf_entry pte T' root is = leaf_entry pte T root is"
    if len: "length is = LEVELS md" and idx: "\<forall>x\<in>set is. x < 512"
  proof (cases "take (Suc (length ps)) is = ps @ [i]")
    case True
    then obtain rest where rest: "is = ps @ i # rest" by (rule path_split)
    then obtain k ks where ks: "rest = k # ks" using lev len by (cases rest) auto
    then have "k < 512" using idx rest by simp
    have "leaf_entry pte T' root is = leaf_entry pte T' p rest"
      using leaf_through [OF at_p, of k ks] rest ks by simp
    also have "\<dots> = Err NotMapped" using ks empty [OF \<open>k < 512\<close>] by (simp add: leaf_entry_zero)
    finally show ?thesis using leaf_through [OF t, of i rest] rest unused by (simp add: leaf_entry_zero)
  qed (use leaf_other [OF ch len idx] in simp)
qed

end

section \<open>Operations keep the invariant\<close>

definition page_level :: "PageSize \<Rightarrow> nat" where
  "page_level sz = (case sz of Size4K \<Rightarrow> 0 | Size2M \<Rightarrow> 1 | Size1G \<Rightarrow> 2)"

lemma level_size_page_level [simp]: "level_size (page_level sz) = sz"
  by (cases sz) (simp_all add: level_size_def page_level_def)

lemma page_level_le: "page_level sz \<le> 2"
  by (cases sz) (simp_all add: page_level_def)

text \<open>The addresses of one page, as the tables of \<open>md\<close> distinguish them.\<close>

definition same_page :: "PagingMetaData \<Rightarrow> PageSize \<Rightarrow> VirtAddr \<Rightarrow> VirtAddr \<Rightarrow> bool" where
  "same_page md sz va va' \<longleftrightarrow>
    drop_bit (12 + 9 * page_level sz) (take_bit (VA_MAX_BITS md) (va_as_usize va))
    = drop_bit (12 + 9 * page_level sz) (take_bit (VA_MAX_BITS md) (va_as_usize va'))"

lemma index_take_bit:
  "p4_index va = take_bit 9 (drop_bit 39 (va_as_usize va))"
  "p3_index va = take_bit 9 (drop_bit 30 (va_as_usize va))"
  "p2_index va = take_bit 9 (drop_bit 21 (va_as_usize va))"
  "p1_index va = take_bit 9 (drop_bit 12 (va_as_usize va))"
  by (simp_all add: p4_index_def p3_index_def p2_index_def p1_index_def ENTRY_COUNT_def
      take_bit_eq_mask mask_eq_exp_minus_1)

lemma same_page_indices:
  assumes "LEVELS md = 3 \<or> LEVELS md = 4" and "VA_MAX_BITS md = 12 + 9 * LEVELS md"
  shows "take (LEVELS md - page_level sz) (va_indices md va)
      = take (LEVELS md - page_level sz) (va_indices md va') \<longleftrightarrow> same_page md sz va va'"
proof -
  have split9: "take_bit (9 * Suc (Suc n)) x = take_bit (9 * Suc (Suc n)) y \<longleftrightarrow>
      take_bit 9 x = take_bit 9 y \<and> take_bit (9 * Suc n) (drop_bit 9 x) = take_bit (9 * Suc n) (drop_bit 9 y)"
    for n and x y :: usize
    using take_bit_split [of 9 "9 * Suc n"] by (simp add: add.commute)
  note s = split9 [of 0, simplified] split9 [of 1, simplified] split9 [of 2, simplified]
  from assms(1) show ?thesis
    unfolding same_page_def va_indices_def assms(2) drop_bit_take_bit
    by (cases sz) (auto simp: page_level_def index_take_bit s)
qed

text \<open>The index lists of addresses, and the translation of all of them.\<close>

definition full_path :: "PagingMetaData \<Rightarrow> usize list \<Rightarrow> bool" where
  "full_path md is \<longleftrightarrow> length is = LEVELS md \<and> (\<forall>x\<in>set is. x < 512)"

lemma index_lt: "x AND (ENTRY_COUNT - 1) < 512"
proof -
  have "x AND mask 9 < 2 ^ 9"
    by (rule and_mask_less') simp
  then show ?thesis
    by (simp add: ENTRY_COUNT_def mask_eq_exp_minus_1)
qed

lemma va_indices_full:
  "LEVELS md = 3 \<or> LEVELS md = 4 \<Longrightarrow> full_path md (va_indices md va)"
  by (auto simp: full_path_def va_indices_def p4_index_def p3_index_def p2_index_def p1_index_def
      index_lt)

lemma full_path_prefix:
  "full_path md is \<Longrightarrow> is = ps @ i # rest \<Longrightarrow> index_path md ps \<and> i < 512"
  by (auto simp: full_path_def index_path_def)

lemma take_page_prefix:
  assumes "full_path md (qs @ i # rest)" "length rest = page_level sz"
  shows "take (LEVELS md - page_level sz) (qs @ i # rest) = qs @ [i]"
proof -
  have "LEVELS md - page_level sz = Suc (length qs)"
    using assms by (auto simp: full_path_def)
  then show ?thesis by simp
qed

locale page_table =
  generic_pte pte "PA_MAX_BITS md" stored + frame_allocator pif "PA_MAX_BITS md" falloc_ok live
  for pte :: GenericPTE and md :: PagingMetaData and stored :: "MappingFlags \<Rightarrow> MappingFlags"
    and pif :: "'s PagingIf" and falloc_ok :: "'s \<Rightarrow> bool" and live :: "'s \<Rightarrow> PhysAddr set" +
  assumes levels: "LEVELS md = 3 \<or> LEVELS md = 4"
    and va_bits: "VA_MAX_BITS md = 12 + 9 * LEVELS md"
    and pa_bits: "PA_MAX_BITS md < 64"
begin

abbreviation (input) pt_ok :: "PageTable64 \<Rightarrow> 's machine \<Rightarrow> bool" where
  "pt_ok \<equiv> pt_inv pte md pif falloc_ok live"

abbreviation (input) view :: "'s machine \<Rightarrow> PhysAddr \<Rightarrow> usize \<Rightarrow> u64" where
  "view w \<equiv> table_view pif (mem w)"

abbreviation (input) leaf :: "PageTable64 \<Rightarrow> 's machine \<Rightarrow> usize list \<Rightarrow> (u64 \<times> PageSize, PagingError) outcome" where
  "leaf pt w \<equiv> leaf_entry pte (view w) (root_paddr pt)"

lemma query_leaf:
  "pt_query pte md pif va pt w =
    bind_outcome (leaf pt w (va_indices md va))
      (\<lambda>(e, sz). Ok (pa_add (pte_paddr pte e) (va_align_offset va (page_size_usize sz)), pte_flags pte e, sz))"
  by (cases "leaf_slot pte (view w) (root_paddr pt) (va_indices md va)")
    (auto simp: pt_query_def get_entry_mut_slot [OF levels] leaf_entry_def unused_iff table_view_def
      Let_def)

lemma owned_frame: "pt_ok pt w \<Longrightarrow> u \<in> set (intrm_tables pt) \<Longrightarrow> frame_paddr (PA_MAX_BITS md) u"
  using live_frame by (auto simp: pt_inv_def)

lemma path_owned:
  "pt_ok pt w \<Longrightarrow> index_path md ps \<Longrightarrow> path_table pte (view w) (root_paddr pt) ps = Some t \<Longrightarrow>
    t \<in> set (intrm_tables pt)"
  using tables_ok_owned by (auto simp: pt_inv_def)

text \<open>A write to an entry of a reachable table.\<close>

lemma write_change:
  assumes "pt_ok pt w" "index_path md ps" "i < 512"
    and t: "path_table pte (view w) (root_paddr pt) ps = Some t"
  shows "entry_change pte md (view w) (table_view pif ((mem w)(entry_of pif t i := v)))
      (root_paddr pt) (set (intrm_tables pt)) ps i t"
    and "table_view pif ((mem w)(entry_of pif t i := v)) t i = v"
proof -
  have f: "frame_paddr (PA_MAX_BITS md) t"
    using owned_frame path_owned assms by blast
  show "table_view pif ((mem w)(entry_of pif t i := v)) t i = v"
    by (simp add: table_view_write [OF f f assms(3,3)])
  show "entry_change pte md (view w) (table_view pif ((mem w)(entry_of pif t i := v)))
      (root_paddr pt) (set (intrm_tables pt)) ps i t"
    unfolding entry_change_def
    using assms table_view_write [OF f owned_frame [OF assms(1)] assms(3)]
    by (auto simp: pt_inv_def)
qed

text \<open>One level of \<open>get_entry_mut_or_create\<close>.\<close>

lemma create_step:
  assumes inv: "pt_ok pt w" and path: "index_path md (ps @ [i])"
    and t: "path_table pte (view w) (root_paddr pt) ps = Some t"
    and step: "next_table_mut_or_create pte pif (entry_of pif t i) pt w = (r, pt', w')"
  shows "pt_ok pt' w'" and "root_paddr pt' = root_paddr pt"
    and "full_path md is \<Longrightarrow> leaf pt' w' is = leaf pt w is"
    and "r = Ok u \<Longrightarrow> path_table pte (view w') (root_paddr pt') (ps @ [i]) = Some u"
    and "r \<noteq> Panic"
    and "r = Err e \<Longrightarrow> e = NoMemory \<or> e = MappedToHugePage \<and> is_huge pte (view w t i)
      \<and> is_present pte (view w t i) \<and> pt' = pt \<and> w' = w"
proof -
  have ps: "index_path md ps" and i: "i < 512" and lev: "length ps + 1 < LEVELS md"
    using path by (auto simp: index_path_def)
  have ft: "frame_paddr (PA_MAX_BITS md) t"
    using owned_frame [OF inv path_owned [OF inv ps t]] .
  have goal: "pt_ok pt' w' \<and> root_paddr pt' = root_paddr pt
    \<and> (\<forall>is. full_path md is \<longrightarrow> leaf pt' w' is = leaf pt w is)
    \<and> (\<forall>u. r = Ok u \<longrightarrow> path_table pte (view w') (root_paddr pt') (ps @ [i]) = Some u)
    \<and> r \<noteq> Panic \<and> (\<forall>e. r = Err e \<longrightarrow> e = NoMemory \<or> e = MappedToHugePage
      \<and> is_huge pte (view w t i) \<and> is_present pte (view w t i) \<and> pt' = pt \<and> w' = w)"
  proof (cases "view w t i = 0")
    case False
    then have e: "is_present pte (view w t i)"
      using tables_ok_entry [OF _ ps i t] inv by (auto simp: pt_inv_def)
    have "r = next_table_mut pte (view w t i)" "pt' = pt" "w' = w"
      using step False by (auto simp: next_table_mut_or_create_def unused_iff table_view_def)
    then show ?thesis
      using inv e t by (auto simp: next_table_mut_def path_table_append is_table_entry_def)
  next
    case unused: True
    show ?thesis
    proof (cases "alloc_frame pif (frames w)")
      case (Pair q s)
      show ?thesis
      proof (cases q)
        case None
        then have "r = Err NoMemory" "pt' = pt" "w' = w\<lparr>frames := s\<rparr>"
          using step unused Pair
          by (simp_all add: next_table_mut_or_create_def unused_iff table_view_def alloc_table_def)
        then show ?thesis
          using inv alloc_none [of "frames w" s] Pair None by (auto simp: pt_inv_def)
      next
        case (Some p)
        define m where "m = write_zero_page (va_as_usize (phys_to_virt pif p)) (mem w)"
        define T' where "T' = table_view pif (m(entry_of pif t i := new_table pte p))"
        have res: "r = Ok p" "pt' = pt\<lparr>intrm_tables := intrm_tables pt @ [p]\<rparr>" "frames w' = s"
          "view w' = T'"
          using step unused Pair Some
          by (auto simp: next_table_mut_or_create_def unused_iff table_view_def alloc_table_def
              m_def T'_def fun_eq_iff)
        have fa: "falloc_ok s" "p \<notin> live (frames w)" "live s = insert p (live (frames w))"
          using alloc_some [of "frames w" p s] Pair Some inv by (auto simp: pt_inv_def)
        have fp: "frame_paddr (PA_MAX_BITS md) p" using live_frame fa by blast
        have fresh: "p \<notin> set (intrm_tables pt)" "p \<noteq> t"
          using fa inv path_owned [OF inv ps t] by (auto simp: pt_inv_def)
        have T': "T' u j = (if u = t \<and> j = i then new_table pte p else if u = p then 0 else view w u j)"
          if "frame_paddr (PA_MAX_BITS md) u" "j < 512" for u j
          by (simp only: T'_def m_def table_view_write [OF ft that(1) i that(2)]
              table_view_zero [OF fp that])
        have ch: "entry_change pte md (view w) T' (root_paddr pt) (set (intrm_tables pt)) ps i t"
          unfolding entry_change_def
          using inv ps i t T' [OF owned_frame [OF inv]] fresh by (auto simp: pt_inv_def)
        have new: "T' t i = new_table pte p" "pte_paddr pte (T' t i) = p" "\<And>j. j < 512 \<Longrightarrow> T' p j = 0"
          using T' [OF ft i] T' [OF fp] fresh table_paddr [OF fp] by auto
        note inst = table_install [OF ch lev unused fresh(1) new]
        show ?thesis
          using res inst inv fa fresh by (auto simp: pt_inv_def full_path_def)
      qed
    qed
  qed
  then show "pt_ok pt' w'" "root_paddr pt' = root_paddr pt"
    "full_path md is \<Longrightarrow> leaf pt' w' is = leaf pt w is"
    "r = Ok u \<Longrightarrow> path_table pte (view w') (root_paddr pt') (ps @ [i]) = Some u" "r \<noteq> Panic"
    "r = Err e \<Longrightarrow> e = NoMemory \<or> e = MappedToHugePage \<and> is_huge pte (view w t i)
      \<and> is_present pte (view w t i) \<and> pt' = pt \<and> w' = w"
    by blast+
qed

end

text \<open>The descent of \<open>get_entry_mut_or_create\<close> as a recursion over the indices.\<close>

fun create_path :: "GenericPTE \<Rightarrow> 's PagingIf \<Rightarrow> nat \<Rightarrow> PhysAddr \<Rightarrow> usize list
    \<Rightarrow> PageTable64 \<Rightarrow> 's machine \<Rightarrow> (usize, 's) paging" where
  "create_path pte pif k t [] pt w = (Panic, pt, w)"
| "create_path pte pif k t (i # is) pt w =
    (if length is = k then (Ok (entry_of pif t i), pt, w)
     else bind_paging (next_table_mut_or_create pte pif (entry_of pif t i) pt w)
       (\<lambda>t' pt w. create_path pte pif k t' is pt w))"

text \<open>What a mapping of a page of \<open>k\<close> levels finds in the tables that exist: a missing table on the way, a
  larger page, or its own entry.\<close>

datatype map_slot = Missing_table | Larger_page | Slot u64

fun find_slot :: "GenericPTE \<Rightarrow> (PhysAddr \<Rightarrow> usize \<Rightarrow> u64) \<Rightarrow> nat \<Rightarrow> PhysAddr \<Rightarrow> usize list \<Rightarrow> map_slot" where
  "find_slot pte T k t [] = Missing_table"
| "find_slot pte T k t (i # is) =
    (if length is = k then Slot (T t i)
     else if T t i = 0 then Missing_table
     else if is_huge pte (T t i) then Larger_page
     else find_slot pte T k (pte_paddr pte (T t i)) is)"

lemma create_path_eq:
  assumes "LEVELS md = 3 \<or> LEVELS md = 4"
  shows "get_entry_mut_or_create pte md pif va sz pt w
    = create_path pte pif (page_level sz) (root_paddr pt) (va_indices md va) pt w"
  using assms
  by (cases sz) (auto simp: get_entry_mut_or_create_def va_indices_def page_level_def bind_paging_def
      Let_def split: outcome.splits prod.splits)

lemma page_level_level_size: "n \<le> 2 \<Longrightarrow> page_level (level_size n) = n"
  by (auto simp: level_size_def page_level_def)

context page_table
begin

lemma create_path_spec:
  assumes "pt_ok pt w" "full_path md (ps @ is)" "k < length is"
    and "path_table pte (view w) (root_paddr pt) ps = Some t"
    and "create_path pte pif k t is pt w = (r, pt', w')"
  shows "pt_ok pt' w' \<and> root_paddr pt' = root_paddr pt
    \<and> (\<forall>js. full_path md js \<longrightarrow> leaf pt' w' js = leaf pt w js) \<and> r \<noteq> Panic
    \<and> (\<forall>a. r = Ok a \<longrightarrow> (\<exists>qs i rest u. is = qs @ i # rest \<and> length rest = k \<and> a = entry_of pif u i
        \<and> path_table pte (view w') (root_paddr pt') (ps @ qs) = Some u))
    \<and> (\<forall>e. r = Err e \<longrightarrow> e = NoMemory \<or>
        e = MappedToHugePage \<and> (\<exists>x s. leaf pt w (ps @ is) = Ok (x, s) \<and> k < page_level s))"
  using assms
proof (induction "is" arbitrary: ps t pt w)
  case (Cons i "is")
  show ?case
  proof (cases "length is = k")
    case True
    then have "r = Ok (entry_of pif t i)" "pt' = pt" "w' = w" using Cons.prems(5) by auto
    then show ?thesis using Cons.prems True by (auto intro!: exI [of _ "[]"])
  next
    case False
    then have k: "k < length is" using Cons.prems(3) by simp
    have full: "full_path md ((ps @ [i]) @ is)" using Cons.prems(2) by simp
    have path: "index_path md (ps @ [i])" using full k by (auto simp: full_path_def index_path_def)
    obtain r1 pt1 w1 where step: "next_table_mut_or_create pte pif (entry_of pif t i) pt w = (r1, pt1, w1)"
      by (metis prod_cases3)
    note st = create_step [OF Cons.prems(1) path Cons.prems(4) step]
    show ?thesis
    proof (cases r1)
      case (Ok u)
      then have rec: "create_path pte pif k u is pt1 w1 = (r, pt', w')"
        using Cons.prems(5) False step by (simp add: bind_paging_def)
      note IH = Cons.IH [OF st(1) full k st(4) [OF Ok] rec]
      have "is = qs @ j # rest \<Longrightarrow> i # is = (i # qs) @ j # rest" for qs j rest by simp
      then show ?thesis using IH st(2,3) full by (auto simp: append_assoc) (metis append.assoc append_Cons append_Nil)
    next
      case (Err e)
      have r: "r = Err e" "pt' = pt1" "w' = w1"
        using Cons.prems(5) False step Err by (simp_all add: bind_paging_def)
      have huge: "leaf pt w (ps @ i # is) = Ok (view w t i, level_size (length is)) \<and> length is \<le> 2"
        if "e = MappedToHugePage"
      proof -
        have h: "is_huge pte (view w t i)" "is_present pte (view w t i)" using st(6) [OF Err] that by auto
        then have nz: "view w t i \<noteq> 0" using present_nonzero by blast
        have "LEVELS md \<noteq> length ps + 4"
          using tables_ok_entry [OF _ index_path_prefix [OF path] _ Cons.prems(4), of "set (intrm_tables pt)" i]
            path Cons.prems(1) h nz
          by (auto simp: pt_inv_def index_path_def)
        then have "length is \<le> 2" using levels Cons.prems(2) by (cases ps) (auto simp: full_path_def)
        then show ?thesis
          using leaf_through [OF Cons.prems(4)] leaf_entry_page [OF nz, of "view w" t i "is"] h by simp
      qed
      have "e = NoMemory \<or> e = MappedToHugePage" using st(6) [OF Err] by blast
      then show ?thesis using r st(1,2,3) huge k by (auto simp: page_level_level_size)
    next
      case Panic
      then show ?thesis using st(5) by blast
    qed
  qed
qed simp

text \<open>The entry a lookup ends at.\<close>

lemma slot_path:
  assumes "leaf_slot pte T t is = Ok (u, i, sz)" "length is \<le> 4"
  shows "\<exists>ps rest. is = ps @ i # rest \<and> path_table pte T t ps = Some u \<and> length rest = page_level sz
    \<and> (rest \<noteq> [] \<longrightarrow> is_huge pte (T u i))"
  using assms
proof (induction "is" arbitrary: t rule: induct_list012)
  case (2 x)
  then show ?case by (auto simp: page_level_def intro!: exI [of _ "[]"])
next
  case (3 x y zs)
  show ?case
  proof (cases "length zs < 2 \<and> is_huge pte (T t x)")
    case True
    then have "u = t" "i = x" "sz = (if zs = [] then Size2M else Size1G)" using 3 by auto
    then show ?thesis using True
      by (intro exI [of _ "[]"] exI [of _ "y # zs"]) (cases zs, simp_all add: page_level_def)
  next
    case False
    then have e: "is_table_entry pte (T t x)"
      and rec: "leaf_slot pte T (pte_paddr pte (T t x)) (y # zs) = Ok (u, i, sz)"
      using 3(3) by (auto simp: is_table_entry_def next_table_mut_def split: if_splits)
    from 3(2) [OF rec] 3(4) obtain ps rest where
      "y # zs = ps @ i # rest" "path_table pte T (pte_paddr pte (T t x)) ps = Some u"
      "length rest = page_level sz" "rest \<noteq> [] \<longrightarrow> is_huge pte (T u i)"
      by auto
    then show ?thesis using e by (intro exI [of _ "x # ps"] exI [of _ rest]) simp
  qed
qed simp

text \<open>
  Writing an entry at the end of a lookup: \<open>upd\<close> says which translations change, by the
  indices of the addresses.
\<close>

lemma write_entry:
  assumes inv: "pt_ok pt w" and full: "full_path md (ps @ i # rest)"
    and t: "path_table pte (view w) (root_paddr pt) ps = Some t"
    and size: "length rest = page_level sz"
    and old: "rest \<noteq> [] \<Longrightarrow> view w t i = 0 \<or> is_huge pte (view w t i)"
    and new: "v = 0 \<or> is_present pte v \<and> (rest = [] \<or> is_huge pte v)"
    and w': "w' = w\<lparr>mem := (mem w)(entry_of pif t i := v)\<rparr>"
  shows "pt_ok pt w'"
    and "full_path md js \<Longrightarrow> leaf pt w' js =
      (if take (LEVELS md - page_level sz) js = ps @ [i]
       then if v = 0 then Err NotMapped else Ok (v, sz) else leaf pt w js)"
proof -
  have ps: "index_path md ps" "i < 512" using full_path_prefix [OF full] by auto
  have len: "LEVELS md = Suc (length ps) + page_level sz"
    using full size by (simp add: full_path_def)
  note ch = write_change(1) [OF inv ps t, of v] and at = write_change(2) [OF inv ps t, of v]
  have v: "view w' = table_view pif ((mem w)(entry_of pif t i := v))" by (simp add: w' fun_eq_iff)
  have rest: "rest = [] \<longleftrightarrow> length ps + 1 \<ge> LEVELS md" using len size by auto
  have "tables_ok pte md (view w') (root_paddr pt) (set (intrm_tables pt))"
    unfolding v using old new len rest page_level_le [of sz] zero_not_present
    by (intro leaf_write_ok [OF ch]) (auto simp: at is_table_entry_def)
  then show "pt_ok pt w'"
    using inv by (simp add: pt_inv_def w')
  assume js: "full_path md js"
  show "leaf pt w' js = (if take (LEVELS md - page_level sz) js = ps @ [i]
       then if v = 0 then Err NotMapped else Ok (v, sz) else leaf pt w js)"
  proof (cases "take (Suc (length ps)) js = ps @ [i]")
    case True
    then obtain rest' where js': "js = ps @ i # rest'" by (rule path_split)
    then have r: "length rest' = page_level sz" using js len by (simp add: full_path_def)
    have "leaf pt w' js = leaf_entry pte (view w') t (i # rest')"
      unfolding js' v using leaf_through [OF path_same [OF ch]] .
    also have "\<dots> = (if v = 0 then Err NotMapped else Ok (v, sz))"
    proof (cases "v = 0")
      case True
      then show ?thesis using leaf_entry_zero at unfolding v by simp
    next
      case False
      moreover have "rest' = [] \<or> is_huge pte v \<and> length rest' \<le> 2"
        using new False r size page_level_le [of sz] by auto
      ultimately have "leaf_entry pte (view w') t (i # rest') = Ok (v, level_size (length rest'))"
        unfolding v by (intro leaf_entry_page at) simp_all
      then show ?thesis using False r by simp
    qed
    finally show ?thesis using True len by simp
  next
    case False
    then show ?thesis
      using leaf_other [OF ch _ _ False] js v len by (simp add: full_path_def)
  qed
qed

lemma map_ok:
  assumes inv: "pt_ok pt w"
    and m: "pt_map pte md pif va target sz flags pt w = (Ok (), pt', w')"
    and read: "contains flags MF_READ"
    and frame: "frame_paddr (PA_MAX_BITS md) (pa_align_down target (page_size_usize sz))"
  defines "v \<equiv> new_page pte (pa_align_down target (page_size_usize sz)) flags (page_size_is_huge sz)"
  shows "pt_ok pt' w'" and "root_paddr pt' = root_paddr pt"
    and "full_path md js \<Longrightarrow> leaf pt' w' js =
      (if take (LEVELS md - page_level sz) js = take (LEVELS md - page_level sz) (va_indices md va)
       then Ok (v, sz) else leaf pt w js)"
    and "full_path md js \<Longrightarrow>
      take (LEVELS md - page_level sz) js = take (LEVELS md - page_level sz) (va_indices md va) \<Longrightarrow>
      leaf pt w js = Err NotMapped"
proof -
  obtain r pt1 w1 where get: "create_path pte pif (page_level sz) (root_paddr pt) (va_indices md va) pt w = (r, pt1, w1)"
    by (metis prod_cases3)
  have full: "full_path md ([] @ va_indices md va)" using va_indices_full [OF levels] by simp
  have lt: "page_level sz < length (va_indices md va)"
    using page_level_le [of sz] levels by (auto simp: va_indices_def)
  note spec = create_path_spec [OF inv full lt _ get, simplified]
  obtain a where a: "r = Ok a" "mem w1 a = 0" "pt' = pt1" "w' = w1\<lparr>mem := (mem w1)(a := v)\<rparr>"
    using m by (cases r)
      (auto simp: pt_map_def create_path_eq [OF levels] get bind_paging_def unused_iff v_def split: if_splits)
  then obtain qs i rest u where e: "va_indices md va = qs @ i # rest" "length rest = page_level sz"
    "a = entry_of pif u i" "path_table pte (view w1) (root_paddr pt1) qs = Some u"
    using spec by auto
  have inv1: "pt_ok pt1 w1" and root1: "root_paddr pt1 = root_paddr pt"
    and same: "\<And>js. full_path md js \<Longrightarrow> leaf pt1 w1 js = leaf pt w js"
    using spec by auto
  have full': "full_path md (qs @ i # rest)" using full e(1) by simp
  have zero: "view w1 u i = 0" using a e(3) by (simp add: table_view_def)
  have huge: "rest \<noteq> [] \<Longrightarrow> page_size_is_huge sz"
    using e(2) by (cases sz) (simp_all add: page_level_def page_size_is_huge_def)
  have new: "v = 0 \<or> is_present pte v \<and> (rest = [] \<or> is_huge pte v)"
    using huge page_present [OF read] page_huge [OF read] by (cases "rest = []") (simp_all add: v_def)
  note wr = write_entry [OF inv1 full' e(4,2) _ new a(4) [unfolded e(3)], OF disjI1, OF zero]
  show "pt_ok pt' w'" "root_paddr pt' = root_paddr pt" using wr(1) a(3) root1 by auto
  have pre: "take (LEVELS md - page_level sz) (va_indices md va) = qs @ [i]"
    unfolding e(1) using full' e(2) by (rule take_page_prefix)
  have "v \<noteq> 0" using page_nonzero [OF read] by (simp add: v_def)
  then show "full_path md js \<Longrightarrow> leaf pt' w' js =
      (if take (LEVELS md - page_level sz) js = take (LEVELS md - page_level sz) (va_indices md va)
       then Ok (v, sz) else leaf pt w js)"
    using wr(2) same a(3) pre by auto
  assume js: "full_path md js"
    and eq: "take (LEVELS md - page_level sz) js = take (LEVELS md - page_level sz) (va_indices md va)"
  have "LEVELS md - page_level sz = Suc (length qs)" using full' e(2) by (auto simp: full_path_def)
  then obtain rest' where "js = qs @ i # rest'" using eq pre path_split [of qs js i] by auto
  then have "leaf pt w js = leaf_entry pte (view w1) u (i # rest')"
    using same [OF js] leaf_through [OF e(4), of i rest'] by simp
  then show "leaf pt w js = Err NotMapped"
    using leaf_entry_zero [of "view w1" u i rest'] zero by simp
qed

lemma map_err:
  assumes inv: "pt_ok pt w"
    and m: "pt_map pte md pif va target sz flags pt w = (Err e, pt', w')"
  shows "pt_ok pt' w'" and "root_paddr pt' = root_paddr pt"
    and "full_path md js \<Longrightarrow> leaf pt' w' js = leaf pt w js"
    and "e = NoMemory \<or> e = AlreadyMapped \<or>
      e = MappedToHugePage \<and> (\<exists>x s. leaf pt w (va_indices md va) = Ok (x, s) \<and> page_level sz < page_level s)"
    and "e = AlreadyMapped \<Longrightarrow> sz = Size4K \<Longrightarrow> \<exists>x. leaf pt w (va_indices md va) = Ok (x, Size4K)"
proof -
  obtain r pt1 w1 where get: "create_path pte pif (page_level sz) (root_paddr pt) (va_indices md va) pt w = (r, pt1, w1)"
    by (metis prod_cases3)
  have full: "full_path md ([] @ va_indices md va)" using va_indices_full [OF levels] by simp
  have lt: "page_level sz < length (va_indices md va)"
    using page_level_le [of sz] levels by (auto simp: va_indices_def)
  note spec = create_path_spec [OF inv full lt _ get, simplified]
  have eq: "pt' = pt1" "w' = w1" "r = Err e \<or> e = AlreadyMapped \<and> (\<exists>a. r = Ok a \<and> mem w1 a \<noteq> 0)"
    using m by (cases r; auto simp: pt_map_def create_path_eq [OF levels] get bind_paging_def unused_iff split: if_splits)+
  show "pt_ok pt' w'" "root_paddr pt' = root_paddr pt" "full_path md js \<Longrightarrow> leaf pt' w' js = leaf pt w js"
    "e = NoMemory \<or> e = AlreadyMapped \<or>
      e = MappedToHugePage \<and> (\<exists>x s. leaf pt w (va_indices md va) = Ok (x, s) \<and> page_level sz < page_level s)"
    using spec eq by auto
  assume "e = AlreadyMapped" "sz = Size4K"
  then obtain a where a: "r = Ok a" "mem w1 a \<noteq> 0" using eq(3) spec by auto
  then obtain qs i rest u where e: "va_indices md va = qs @ i # rest" "length rest = page_level sz"
    "a = entry_of pif u i" "path_table pte (view w1) (root_paddr pt1) qs = Some u"
    using spec by auto
  have "rest = []" using e(2) \<open>sz = Size4K\<close> by (simp add: page_level_def)
  have same: "leaf pt1 w1 (va_indices md va) = leaf pt w (va_indices md va)"
    using spec va_indices_full [OF levels] by blast
  have "leaf pt w (va_indices md va) = leaf_entry pte (view w1) u (i # rest)"
    using same leaf_through [OF e(4), of i rest] e(1) by simp
  also have "\<dots> = Ok (mem w1 a, Size4K)"
    using leaf_entry_page [OF a(2), of "view w1" u i rest] \<open>rest = []\<close> e(3)
    by (simp add: table_view_def level_size_def)
  finally show "\<exists>x. leaf pt w (va_indices md va) = Ok (x, Size4K)" by blast
qed

text \<open>A lookup, and the write of \<open>unmap\<close> and \<open>update\<close> through it.\<close>

lemma lookup_slot:
  assumes inv: "pt_ok pt w"
    and lookup: "leaf_slot pte (view w) (root_paddr pt) (va_indices md va) = Ok (t, i, sz)"
  obtains ps rest where "va_indices md va = ps @ i # rest" "full_path md (ps @ i # rest)"
    "path_table pte (view w) (root_paddr pt) ps = Some t" "length rest = page_level sz"
    "rest \<noteq> [] \<longrightarrow> is_huge pte (view w t i)"
    "view w t i = 0 \<or> is_present pte (view w t i)"
    "take (LEVELS md - page_level sz) (va_indices md va) = ps @ [i]"
proof -
  have len: "length (va_indices md va) \<le> 4" by (simp add: va_indices_def)
  obtain ps rest where p: "va_indices md va = ps @ i # rest"
    "path_table pte (view w) (root_paddr pt) ps = Some t" "length rest = page_level sz"
    "rest \<noteq> [] \<longrightarrow> is_huge pte (view w t i)"
    using slot_path [OF lookup len] by blast
  have full: "full_path md (ps @ i # rest)" using va_indices_full [OF levels, of va] p(1) by simp
  have "view w t i = 0 \<or> is_present pte (view w t i)"
    using tables_ok_entry [OF _ _ _ p(2)] full_path_prefix [OF full refl] inv by (auto simp: pt_inv_def)
  then show thesis using that p full take_page_prefix [OF full p(3)] by simp
qed

lemma unmap_spec:
  assumes inv: "pt_ok pt w"
    and u: "pt_unmap pte md pif va pt w = (r, pt', w')"
  shows "pt' = pt" and "pt_ok pt w'"
    and "r = bind_outcome (leaf pt w (va_indices md va)) (\<lambda>(e, sz). Ok (pte_paddr pte e, sz))"
    and "\<nexists>x. r = Ok x \<Longrightarrow> w' = w"
    and "full_path md js \<Longrightarrow> r = Ok (p, sz) \<Longrightarrow> leaf pt w' js =
      (if take (LEVELS md - page_level sz) js = take (LEVELS md - page_level sz) (va_indices md va)
       then Err NotMapped else leaf pt w js)"
proof -
  let ?slot = "leaf_slot pte (view w) (root_paddr pt) (va_indices md va)"
  have "pt' = pt \<and> pt_ok pt w'
    \<and> r = bind_outcome (leaf pt w (va_indices md va)) (\<lambda>(e, sz). Ok (pte_paddr pte e, sz))
    \<and> ((\<nexists>x. r = Ok x) \<longrightarrow> w' = w)
    \<and> (\<forall>js p sz. full_path md js \<longrightarrow> r = Ok (p, sz) \<longrightarrow> leaf pt w' js =
      (if take (LEVELS md - page_level sz) js = take (LEVELS md - page_level sz) (va_indices md va)
       then Err NotMapped else leaf pt w js))"
  proof (cases "\<exists>t i sz. ?slot = Ok (t, i, sz) \<and> view w t i \<noteq> 0")
    case False
    then have "r = bind_outcome ?slot (\<lambda>_. Err NotMapped) \<and> pt' = pt \<and> w' = w
        \<and> leaf pt w (va_indices md va) = bind_outcome ?slot (\<lambda>_. Err NotMapped)"
      using u by (cases ?slot) (auto simp: pt_unmap_def get_entry_mut_slot [OF levels] bind_paging_def
          unused_iff table_view_def leaf_entry_def)
    then show ?thesis using inv by (cases ?slot) auto
  next
    case True
    then obtain t i sz where slot: "?slot = Ok (t, i, sz)" and nz: "view w t i \<noteq> 0" by blast
    obtain ps rest where p: "va_indices md va = ps @ i # rest" "full_path md (ps @ i # rest)"
      "path_table pte (view w) (root_paddr pt) ps = Some t" "length rest = page_level sz"
      "rest \<noteq> [] \<longrightarrow> is_huge pte (view w t i)"
      "take (LEVELS md - page_level sz) (va_indices md va) = ps @ [i]"
      using lookup_slot [OF inv slot] by metis
    have eq: "r = Ok (pte_paddr pte (view w t i), sz)" "pt' = pt"
      "w' = w\<lparr>mem := (mem w)(entry_of pif t i := 0)\<rparr>"
      using u nz by (auto simp: pt_unmap_def get_entry_mut_slot [OF levels] slot bind_paging_def
          unused_iff table_view_def clear_zero)
    note wr = write_entry [OF inv p(2,3,4) _ _ eq(3)]
    show ?thesis using wr p(5,6) eq nz slot by (auto simp: leaf_entry_def)
  qed
  then show "pt' = pt" "pt_ok pt w'"
    "r = bind_outcome (leaf pt w (va_indices md va)) (\<lambda>(e, sz). Ok (pte_paddr pte e, sz))"
    "\<nexists>x. r = Ok x \<Longrightarrow> w' = w"
    "full_path md js \<Longrightarrow> r = Ok (p, sz) \<Longrightarrow> leaf pt w' js =
      (if take (LEVELS md - page_level sz) js = take (LEVELS md - page_level sz) (va_indices md va)
       then Err NotMapped else leaf pt w js)"
    by blast+
qed

text \<open>The operations in terms of \<open>query\<close>.\<close>

lemma map_query:
  assumes "pt_ok pt w"
    and "pt_map pte md pif va target sz flags pt w = (Ok (), pt', w')"
    and "contains flags MF_READ"
    and frame: "frame_paddr (PA_MAX_BITS md) (pa_align_down target (page_size_usize sz))"
  shows "pt_ok pt' w'"
    and "pt_query pte md pif va' pt' w' =
      (if same_page md sz va va'
       then Ok (pa_add (pa_align_down target (page_size_usize sz))
                  (va_align_offset va' (page_size_usize sz)), stored flags, sz)
       else pt_query pte md pif va' pt w)"
    and "same_page md sz va va' \<Longrightarrow> pt_query pte md pif va' pt w = Err NotMapped"
proof -
  note m = map_ok [OF assms]
  have full: "full_path md (va_indices md va')" by (rule va_indices_full [OF levels])
  have pre: "take (LEVELS md - page_level sz) (va_indices md va')
      = take (LEVELS md - page_level sz) (va_indices md va) \<longleftrightarrow> same_page md sz va va'"
    using same_page_indices [OF levels va_bits, of sz va' va] by (auto simp: same_page_def)
  show "pt_ok pt' w'" by (rule m(1))
  show "pt_query pte md pif va' pt' w' =
      (if same_page md sz va va'
       then Ok (pa_add (pa_align_down target (page_size_usize sz))
                  (va_align_offset va' (page_size_usize sz)), stored flags, sz)
       else pt_query pte md pif va' pt w)"
    by (simp add: query_leaf m(3) [OF full] pre page_paddr [OF frame] page_flags [OF assms(3)])
  show "same_page md sz va va' \<Longrightarrow> pt_query pte md pif va' pt w = Err NotMapped"
    by (simp add: query_leaf m(4) [OF full] pre)
qed

lemma map_err_query:
  assumes "pt_ok pt w" and "pt_map pte md pif va target sz flags pt w = (Err e, pt', w')"
  shows "pt_ok pt' w'" and "pt_query pte md pif va' pt' w' = pt_query pte md pif va' pt w"
    and "e = NoMemory \<or> e = AlreadyMapped \<or> e = MappedToHugePage \<and>
      (\<exists>p f s. pt_query pte md pif va pt w = Ok (p, f, s) \<and> page_level sz < page_level s)"
    and "e = AlreadyMapped \<Longrightarrow> sz = Size4K \<Longrightarrow>
      \<exists>p f. pt_query pte md pif va pt w = Ok (p, f, Size4K)"
proof -
  note m = map_err [OF assms]
  show "pt_ok pt' w'" by (rule m(1))
  show "pt_query pte md pif va' pt' w' = pt_query pte md pif va' pt w"
    by (simp add: query_leaf m(3) [OF va_indices_full [OF levels]])
  show "e = NoMemory \<or> e = AlreadyMapped \<or> e = MappedToHugePage \<and>
      (\<exists>p f s. pt_query pte md pif va pt w = Ok (p, f, s) \<and> page_level sz < page_level s)"
    using m(4) by (auto simp: query_leaf)
  show "e = AlreadyMapped \<Longrightarrow> sz = Size4K \<Longrightarrow>
      \<exists>p f. pt_query pte md pif va pt w = Ok (p, f, Size4K)"
    using m(5) by (auto simp: query_leaf)
qed

text \<open>Why a mapping fails.\<close>

lemma create_step_used:
  "view w t i \<noteq> 0 \<Longrightarrow> next_table_mut_or_create pte pif (entry_of pif t i) pt w = (next_table_mut pte (view w t i), pt, w)"
  by (simp add: next_table_mut_or_create_def unused_iff table_view_def)

lemma create_step_unused:
  assumes inv: "pt_ok pt w" and path: "index_path md (ps @ [i])"
    and t: "path_table pte (view w) (root_paddr pt) ps = Some t" and z: "view w t i = 0"
    and step: "next_table_mut_or_create pte pif (entry_of pif t i) pt w = (r, pt', w')"
  shows "r = Err NoMemory \<and> falloc_ok (frames w) \<and> alloc_frame pif (frames w) = (None, frames w') \<or>
    (\<exists>p. r = Ok p \<and> (\<forall>j<512. view w' p j = 0))"
proof (cases "alloc_frame pif (frames w)")
  case (Pair q s)
  have ps: "index_path md ps" and i: "i < 512" using path by (auto simp: index_path_def)
  have own: "t \<in> set (intrm_tables pt)" by (rule path_owned [OF inv ps t])
  have ft: "frame_paddr (PA_MAX_BITS md) t" by (rule owned_frame [OF inv own])
  have u: "is_unused pte (mem w (entry_of pif t i))" using z by (simp add: unused_iff table_view_def)
  show ?thesis
  proof (cases q)
    case None
    then show ?thesis using step Pair u inv by (auto simp: next_table_mut_or_create_def alloc_table_def pt_inv_def)
  next
    case (Some p)
    have fa: "falloc_ok s" "p \<notin> live (frames w)" "live s = insert p (live (frames w))"
      using alloc_some [of "frames w" p s] Pair Some inv by (auto simp: pt_inv_def)
    have fp: "frame_paddr (PA_MAX_BITS md) p" using live_frame fa by blast
    have ne: "p \<noteq> t" using fa own inv by (auto simp: pt_inv_def)
    have r: "r = Ok p" "mem w' = (write_zero_page (va_as_usize (phys_to_virt pif p)) (mem w))(entry_of pif t i := new_table pte p)"
      using step Pair Some u by (auto simp: next_table_mut_or_create_def alloc_table_def)
    have "view w' p j = 0" if "j < 512" for j
      using table_view_write [OF ft fp i that] table_view_zero [OF fp fp that] ne by (simp add: r(2))
    then show ?thesis using r(1) by blast
  qed
qed

text \<open>Below a missing table everything is created anew, or the allocator runs out of frames.\<close>

lemma create_path_fresh:
  assumes "pt_ok pt w" "full_path md (ps @ is)" "k < length is"
    and "path_table pte (view w) (root_paddr pt) ps = Some t" "\<forall>j<512. view w t j = 0"
    and "create_path pte pif k t is pt w = (r, pt', w')"
  shows "r = Err NoMemory \<and> (\<exists>s. falloc_ok s \<and> alloc_frame pif s = (None, frames w')) \<or> (\<exists>a. r = Ok a \<and> mem w' a = 0)"
  using assms
proof (induction "is" arbitrary: ps t pt w)
  case (Cons i "is")
  have i: "i < 512" using Cons.prems(2) by (simp add: full_path_def)
  show ?case
  proof (cases "length is = k")
    case True
    then show ?thesis using Cons.prems(5,6) i by (auto simp: table_view_def)
  next
    case False
    then have k: "k < length is" using Cons.prems(3) by simp
    have full: "full_path md ((ps @ [i]) @ is)" using Cons.prems(2) by simp
    have path: "index_path md (ps @ [i])" using full k by (auto simp: full_path_def index_path_def)
    obtain r1 pt1 w1 where step: "next_table_mut_or_create pte pif (entry_of pif t i) pt w = (r1, pt1, w1)"
      by (metis prod_cases3)
    note st = create_step [OF Cons.prems(1) path Cons.prems(4) step]
    from create_step_unused [OF Cons.prems(1) path Cons.prems(4) _ step] Cons.prems(5) i
    consider "r1 = Err NoMemory" "falloc_ok (frames w)" "alloc_frame pif (frames w) = (None, frames w1)"
      | p where "r1 = Ok p" "\<forall>j<512. view w1 p j = 0" by blast
    then show ?thesis
    proof cases
      case 1
      then show ?thesis using Cons.prems(6) False step by (auto simp: bind_paging_def)
    next
      case 2
      then have "create_path pte pif k p is pt1 w1 = (r, pt', w')"
        using Cons.prems(6) False step by (simp add: bind_paging_def)
      from Cons.IH [OF st(1) full k st(4) [OF 2(1)] 2(2) this] show ?thesis .
    qed
  qed
qed simp

lemma create_path_cause:
  assumes "pt_ok pt w" "full_path md (ps @ is)" "k < length is"
    and "path_table pte (view w) (root_paddr pt) ps = Some t"
    and "create_path pte pif k t is pt w = (r, pt', w')"
  shows "case find_slot pte (view w) k t is of
      Missing_table \<Rightarrow> r = Err NoMemory \<and> (\<exists>s. falloc_ok s \<and> alloc_frame pif s = (None, frames w')) \<or> (\<exists>a. r = Ok a \<and> mem w' a = 0)
    | Larger_page \<Rightarrow> r = Err MappedToHugePage
    | Slot v \<Rightarrow> pt' = pt \<and> w' = w \<and> (\<exists>a. r = Ok a \<and> mem w a = v)"
  using assms
proof (induction "is" arbitrary: ps t)
  case (Cons i "is")
  have full: "full_path md ((ps @ [i]) @ is)" using Cons.prems(2) by simp
  show ?case
  proof (cases "length is = k")
    case True
    then show ?thesis using Cons.prems(5) by (auto simp: table_view_def)
  next
    case False
    then have k: "k < length is" using Cons.prems(3) by simp
    have path: "index_path md (ps @ [i])" using full k by (auto simp: full_path_def index_path_def)
    show ?thesis
    proof (cases "view w t i = 0")
      case True
      obtain r1 pt1 w1 where step: "next_table_mut_or_create pte pif (entry_of pif t i) pt w = (r1, pt1, w1)"
        by (metis prod_cases3)
      note st = create_step [OF Cons.prems(1) path Cons.prems(4) step]
      from create_step_unused [OF Cons.prems(1) path Cons.prems(4) True step]
      consider "r1 = Err NoMemory" "falloc_ok (frames w)" "alloc_frame pif (frames w) = (None, frames w1)"
        | p where "r1 = Ok p" "\<forall>j<512. view w1 p j = 0" by blast
      then show ?thesis
      proof cases
        case 1
        then show ?thesis using Cons.prems(5) False True step by (auto simp: bind_paging_def)
      next
        case 2
        then have "create_path pte pif k p is pt1 w1 = (r, pt', w')"
          using Cons.prems(5) False step by (simp add: bind_paging_def)
        from create_path_fresh [OF st(1) full k st(4) [OF 2(1)] 2(2) this] show ?thesis using False True by simp
      qed
    next
      case used: False
      have pr: "is_present pte (view w t i)"
        using tables_ok_entry [OF _ index_path_prefix [OF path] _ Cons.prems(4), of "set (intrm_tables pt)" i]
          Cons.prems(1) path used by (auto simp: pt_inv_def index_path_def)
      have rec: "bind_paging (next_table_mut pte (view w t i), pt, w) (\<lambda>t' pt w. create_path pte pif k t' is pt w) = (r, pt', w')"
        using Cons.prems(5) False create_step_used [OF used] by simp
      show ?thesis
      proof (cases "is_huge pte (view w t i)")
        case True
        then show ?thesis using rec pr False used by (auto simp: next_table_mut_def bind_paging_def)
      next
        case nh: False
        then have c: "create_path pte pif k (pte_paddr pte (view w t i)) is pt w = (r, pt', w')"
          using rec pr by (simp add: next_table_mut_def bind_paging_def)
        have "path_table pte (view w) (root_paddr pt) (ps @ [i]) = Some (pte_paddr pte (view w t i))"
          using Cons.prems(4) pr nh by (simp add: path_table_append is_table_entry_def)
        from Cons.IH [OF Cons.prems(1) full k this c] show ?thesis using False used nh by simp
      qed
    qed
  qed
qed simp

text \<open>What a lookup of the address gives in each case.\<close>

lemma find_slot_leaf:
  assumes "pt_ok pt w" "full_path md (ps @ is)" "k < length is" "k \<le> 2"
    and "path_table pte (view w) (root_paddr pt) ps = Some t"
  shows "case find_slot pte (view w) k t is of
      Missing_table \<Rightarrow> leaf_entry pte (view w) t is = Err NotMapped
    | Larger_page \<Rightarrow> True
    | Slot v \<Rightarrow> v = 0 \<or> leaf_entry pte (view w) t is = Ok (v, level_size k) \<or> k \<noteq> 0 \<and> is_table_entry pte v"
  using assms
proof (induction "is" arbitrary: ps t)
  case (Cons i "is")
  have full: "full_path md ((ps @ [i]) @ is)" using Cons.prems(2) by simp
  have ip: "index_path md ps" "i < 512" using Cons.prems(2) by (auto simp: full_path_def index_path_def)
  have pr: "view w t i = 0 \<or> is_present pte (view w t i)"
    using tables_ok_entry [OF _ ip Cons.prems(5)] Cons.prems(1) by (auto simp: pt_inv_def)
  show ?case
  proof (cases "length is = k")
    case True
    then show ?thesis
      using pr leaf_entry_page [of "view w t i" "view w" t i "is"] Cons.prems(4)
      by (auto simp: is_table_entry_def)
  next
    case False
    then have k: "k < length is" using Cons.prems(3) by simp
    show ?thesis
    proof (cases "view w t i = 0 \<or> is_huge pte (view w t i)")
      case True
      then show ?thesis using False leaf_entry_zero [of "view w" t i "is"] by auto
    next
      case nz: False
      then have tab: "is_table_entry pte (view w t i)" using pr by (simp add: is_table_entry_def)
      then have "path_table pte (view w) (root_paddr pt) (ps @ [i]) = Some (pte_paddr pte (view w t i))"
        using Cons.prems(5) by (simp add: path_table_append)
      note IH = Cons.IH [OF Cons.prems(1) full k Cons.prems(4) this]
      have lf: "leaf_entry pte (view w) t (i # is) = leaf_entry pte (view w) (pte_paddr pte (view w t i)) is"
        using leaf_through [of pte "view w" t "[i]" "pte_paddr pte (view w t i)"] tab k by (cases "is") auto
      show ?thesis unfolding lf using IH False nz by simp
    qed
  qed
qed simp

lemma map_err_cause:
  assumes inv: "pt_ok pt w" and m: "pt_map pte md pif va target sz flags pt w = (Err e, pt', w')"
  shows "case find_slot pte (view w) (page_level sz) (root_paddr pt) (va_indices md va) of
      Missing_table \<Rightarrow> e = NoMemory \<and> pt_query pte md pif va pt w = Err NotMapped \<and>
        (\<exists>s. falloc_ok s \<and> alloc_frame pif s = (None, frames w'))
    | Larger_page \<Rightarrow> e = MappedToHugePage \<and> (\<exists>p f s. pt_query pte md pif va pt w = Ok (p, f, s) \<and> page_level sz < page_level s)
    | Slot v \<Rightarrow> e = AlreadyMapped \<and> pt' = pt \<and> w' = w \<and>
        ((\<exists>p f. pt_query pte md pif va pt w = Ok (p, f, sz)) \<or> sz \<noteq> Size4K \<and> is_table_entry pte v)"
proof -
  obtain r pt1 w1 where get: "create_path pte pif (page_level sz) (root_paddr pt) (va_indices md va) pt w = (r, pt1, w1)"
    by (metis prod_cases3)
  have full: "full_path md ([] @ va_indices md va)" using va_indices_full [OF levels] by simp
  have lt: "page_level sz < length (va_indices md va)" "page_level sz \<le> 2"
    using page_level_le [of sz] levels by (auto simp: va_indices_def)
  have root: "path_table pte (view w) (root_paddr pt) [] = Some (root_paddr pt)" by simp
  note cause = create_path_cause [OF inv full lt(1) root get]
  note leaf = find_slot_leaf [OF inv full lt root]
  have eq: "pt' = pt1" "w' = w1" "r = Err e \<or> e = AlreadyMapped \<and> (\<exists>a. r = Ok a \<and> mem w1 a \<noteq> 0)"
    using m by (cases r; auto simp: pt_map_def create_path_eq [OF levels] get bind_paging_def unused_iff split: if_splits)+
  have sz: "level_size (page_level sz) = sz" "page_level sz = 0 \<longleftrightarrow> sz = Size4K"
    by (cases sz; simp add: level_size_def page_level_def)+
  show ?thesis
  proof (cases "find_slot pte (view w) (page_level sz) (root_paddr pt) (va_indices md va)")
    case Missing_table
    then show ?thesis using cause leaf eq by (auto simp: query_leaf)
  next
    case Larger_page
    then have "e = MappedToHugePage" using cause eq by auto
    then show ?thesis using map_err_query(3) [OF inv m] Larger_page by auto
  next
    case (Slot v)
    then show ?thesis using cause leaf eq by (auto simp: query_leaf sz)
  qed
qed

lemma map_no_panic: "pt_ok pt w \<Longrightarrow> pt_map pte md pif va target sz flags pt w \<noteq> (Panic, pt', w')"
proof
  assume inv: "pt_ok pt w" and m: "pt_map pte md pif va target sz flags pt w = (Panic, pt', w')"
  obtain r pt1 w1 where get: "create_path pte pif (page_level sz) (root_paddr pt) (va_indices md va) pt w = (r, pt1, w1)"
    by (metis prod_cases3)
  have "r = Panic"
    using m by (cases r) (auto simp: pt_map_def create_path_eq [OF levels] get bind_paging_def split: if_splits)
  moreover have "page_level sz < length (va_indices md va)"
    using page_level_le [of sz] levels by (auto simp: va_indices_def)
  ultimately show False
    using create_path_spec [OF inv _ _ _ get, of "[]"] va_indices_full [OF levels, of va] by simp
qed

lemma unmap_query:
  assumes inv: "pt_ok pt w" and u: "pt_unmap pte md pif va pt w = (r, pt', w')"
  shows "pt' = pt" and "pt_ok pt' w'"
    and "r = bind_outcome (pt_query pte md pif va pt w)
      (\<lambda>(p, f, sz). Ok (pa_sub p (va_align_offset va (page_size_usize sz)), sz))"
    and "pt_query pte md pif va' pt' w' =
      (case r of Ok (p, sz) \<Rightarrow> if same_page md sz va va' then Err NotMapped else pt_query pte md pif va' pt w
       | _ \<Rightarrow> pt_query pte md pif va' pt w)"
proof -
  note un = unmap_spec [OF inv u]
  show "pt' = pt" "pt_ok pt' w'" using un(1,2) by auto
  show "r = bind_outcome (pt_query pte md pif va pt w)
      (\<lambda>(p, f, sz). Ok (pa_sub p (va_align_offset va (page_size_usize sz)), sz))"
    unfolding un(3) query_leaf
    by (cases "leaf pt w (va_indices md va)") (auto simp: pa_add_def pa_sub_def)
  show "pt_query pte md pif va' pt' w' =
      (case r of Ok (p, sz) \<Rightarrow> if same_page md sz va va' then Err NotMapped else pt_query pte md pif va' pt w
       | _ \<Rightarrow> pt_query pte md pif va' pt w)"
  proof (cases "\<exists>x. r = Ok x")
    case True
    then obtain p sz where "r = Ok (p, sz)" by auto
    then show ?thesis
      using un(1) un(5) [OF va_indices_full [OF levels, of va']] same_page_indices [OF levels va_bits, of sz va' va]
      by (auto simp: query_leaf same_page_def)
  next
    case False
    then show ?thesis using un(1,4) by (auto split: outcome.splits)
  qed
qed

lemma update_query:
  assumes inv: "pt_ok pt w" and mapped: "pt_query pte md pif va pt w = Ok (p, f, sz)"
    and pa: "\<And>q. paddr = Some q \<Longrightarrow> frame_paddr (PA_MAX_BITS md) q"
    and fl: "\<And>g. flags = Some g \<Longrightarrow> contains g MF_READ"
    and u: "pt_update pte md pif va paddr flags pt w = (r, pt', w')"
  shows "r = Ok sz" and "pt' = pt" and "pt_ok pt' w'"
    and "pt_query pte md pif va' pt' w' =
      (if same_page md sz va va' then
         Ok (pa_add (case paddr of Some q \<Rightarrow> q | None \<Rightarrow> pa_sub p (va_align_offset va (page_size_usize sz)))
               (va_align_offset va' (page_size_usize sz)),
             case flags of Some g \<Rightarrow> stored g | None \<Rightarrow> f, sz)
       else pt_query pte md pif va' pt w)"
proof -
  let ?slot = "leaf_slot pte (view w) (root_paddr pt) (va_indices md va)"
  obtain t i where slot: "?slot = Ok (t, i, sz)" and e: "view w t i \<noteq> 0"
    "p = pa_add (pte_paddr pte (view w t i)) (va_align_offset va (page_size_usize sz))"
    "f = pte_flags pte (view w t i)"
    using mapped by (cases ?slot) (auto simp: query_leaf leaf_entry_def split: if_splits)
  obtain ps rest where s: "va_indices md va = ps @ i # rest" "full_path md (ps @ i # rest)"
    "path_table pte (view w) (root_paddr pt) ps = Some t" "length rest = page_level sz"
    "rest \<noteq> [] \<longrightarrow> is_huge pte (view w t i)" "is_present pte (view w t i)"
    "take (LEVELS md - page_level sz) (va_indices md va) = ps @ [i]"
    using lookup_slot [OF inv slot] e(1) by metis
  define e1 where "e1 = (case paddr of Some q \<Rightarrow> set_paddr pte (view w t i) q | None \<Rightarrow> view w t i)"
  define v where "v = (case flags of Some g \<Rightarrow> set_flags pte e1 g (page_size_is_huge sz) | None \<Rightarrow> e1)"
  have huge: "page_size_is_huge sz \<longleftrightarrow> rest \<noteq> []"
    using s(4) by (cases sz) (auto simp: page_size_is_huge_def page_level_def)
  have e1: "is_present pte e1" "rest \<noteq> [] \<longrightarrow> is_huge pte e1" "pte_flags pte e1 = f"
    "pte_paddr pte e1 = (case paddr of Some q \<Rightarrow> q | None \<Rightarrow> pte_paddr pte (view w t i))"
    using s(5,6) e(3) pa set_paddr_paddr
    by (auto simp: e1_def set_paddr_present set_paddr_huge set_paddr_flags split: option.splits)
  have v: "is_present pte v" "rest \<noteq> [] \<longrightarrow> is_huge pte v" "pte_paddr pte v = pte_paddr pte e1"
    "pte_flags pte v = (case flags of Some g \<Rightarrow> stored g | None \<Rightarrow> f)"
    using e1 fl set_flags_present set_flags_flags set_flags_huge huge
    by (auto simp: v_def set_flags_paddr split: option.splits)
  have nz: "v \<noteq> 0" using v(1) present_nonzero by blast
  have eq: "r = Ok sz" "pt' = pt" "w' = w\<lparr>mem := (mem w)(entry_of pif t i := v)\<rparr>"
    using u unfolding v_def e1_def table_view_def
    by (auto simp: pt_update_def get_entry_mut_slot [OF levels] slot bind_paging_def Let_def)
  note wr = write_entry [OF inv s(2,3,4) _ _ eq(3)]
  show "r = Ok sz" "pt' = pt" by (rule eq)+
  show "pt_ok pt' w'" using wr(1) s(5) v(1,2) eq(2) by auto
  have full: "full_path md (va_indices md va')" by (rule va_indices_full [OF levels])
  have pre: "take (LEVELS md - page_level sz) (va_indices md va')
      = take (LEVELS md - page_level sz) (va_indices md va) \<longleftrightarrow> same_page md sz va va'"
    using same_page_indices [OF levels va_bits, of sz va' va] by (auto simp: same_page_def)
  have lf: "leaf pt w' (va_indices md va') = (if same_page md sz va va' then Ok (v, sz)
      else leaf pt w (va_indices md va'))"
    using wr(2) [OF _ _ full] s(5) v(1,2) nz by (auto simp: pre simp flip: s(7))
  have "pa_sub p (va_align_offset va (page_size_usize sz)) = pte_paddr pte (view w t i)"
    using e(2) by (simp add: pa_sub_def pa_add_def)
  then show "pt_query pte md pif va' pt' w' =
      (if same_page md sz va va' then
         Ok (pa_add (case paddr of Some q \<Rightarrow> q | None \<Rightarrow> pa_sub p (va_align_offset va (page_size_usize sz)))
               (va_align_offset va' (page_size_usize sz)),
             case flags of Some g \<Rightarrow> stored g | None \<Rightarrow> f, sz)
       else pt_query pte md pif va' pt w)"
    by (simp add: query_leaf eq(2) lf v(3,4) e1(4) cong: option.case_cong)
qed

end

end
