(* ===== verification/Page_Table_Regions.thy ===== *)
theory Page_Table_Regions
  imports Page_Table_Proofs
begin

text \<open>
  Correctness of \<open>map_region\<close> and \<open>unmap_region\<close>: the loops end, a region that was mapped
  translates at every offset to the target plus that offset, nothing outside the region
  changes, and unmapping a mapped region restores the translations from before.
\<close>

section \<open>Regions\<close>

definition page_bits :: "PageSize \<Rightarrow> nat" where
  "page_bits sz = 12 + 9 * page_level sz"

lemma page_size_exp: "page_size_usize sz = 2 ^ page_bits sz"
  by (cases sz) (simp_all add: page_size_usize_def page_bits_def page_level_def)

lemma page_bits_bounds: "12 \<le> page_bits sz" "page_bits sz \<le> 30"
  by (cases sz; simp add: page_bits_def page_level_def)+

lemma is_aligned_weaken: "is_aligned a (2 ^ n) \<Longrightarrow> m \<le> n \<Longrightarrow> is_aligned a (2 ^ m)"
  using dvd_trans [of "2 ^ m" "2 ^ n" "unat a"] le_imp_power_dvd [of m n 2]
  by (simp add: is_aligned_iff_dvd)

lemma unat_page_size: "unat (2 ^ page_bits sz :: usize) = 2 ^ page_bits sz"
  using page_bits_bounds [of sz] by (simp add: unat_exp_word)

lemma is_aligned_add:
  assumes "is_aligned a (2 ^ n)" "is_aligned b (2 ^ n)" "n < 64"
  shows "is_aligned (a + b) (2 ^ n)"
proof -
  have "(2 :: nat) ^ n dvd 2 ^ LENGTH(64)"
    using assms(3) by (intro le_imp_power_dvd) simp
  then show ?thesis
    using assms(1,2) unfolding is_aligned_iff_dvd unat_word_ariths
    by (intro dvd_mod dvd_add)
qed

lemma is_aligned_diff:
  "is_aligned a (2 ^ n) \<Longrightarrow> is_aligned b (2 ^ n) \<Longrightarrow> b \<le> a \<Longrightarrow> is_aligned (a - b) (2 ^ n)"
  by (simp add: is_aligned_iff_dvd unat_sub)

lemma aligned_low_bits: "is_aligned a (2 ^ n) \<longleftrightarrow> a AND mask n = 0"
  by (simp add: is_aligned_def align_offset_def pow2_minus_1_mask)

text \<open>Offsets in an aligned page.\<close>

lemma page_offset:
  assumes "is_aligned a (2 ^ n)" "off < 2 ^ n" "n < 64"
  shows "align_offset (a + off) (2 ^ n) = off" "align_down (a + off) (2 ^ n) = a"
proof -
  have "off AND mask n = off" using assms(2,3) by (intro less_mask_eq) simp_all
  then show "align_offset (a + off) (2 ^ n) = off" "align_down (a + off) (2 ^ n) = a"
    using page_add_parts [of a n off] assms(1)
    by (simp_all add: align_offset_def align_down_def pow2_minus_1_mask aligned_low_bits)
qed

lemma unat_drop_bit_word: "unat (drop_bit k (x :: 'a::len word)) = unat x div 2 ^ k"
  unfolding unsigned_drop_bit_eq by (simp add: drop_bit_eq_div take_bit_nat_eq_self)

lemma drop_bit_and_not_mask: "drop_bit k (x AND NOT (mask k)) = drop_bit k (x :: 'a::len word)"
  by (rule bit_word_eqI) (auto simp: bit_simps dest: bit_imp_le_length)

lemma same_page_offset:
  assumes "is_aligned (va_as_usize va) (2 ^ page_bits sz)" "off < 2 ^ page_bits sz"
  shows "same_page md sz va (va_add va off)"
proof -
  have "align_down (va_as_usize va + off) (2 ^ page_bits sz) = va_as_usize va"
    using page_offset(2) assms page_bits_bounds [of sz] by simp
  then have "drop_bit (page_bits sz) (va_as_usize va + off) = drop_bit (page_bits sz) (va_as_usize va)"
    using drop_bit_and_not_mask [of "page_bits sz" "va_as_usize va + off"]
    by (simp add: align_down_def pow2_minus_1_mask)
  then show ?thesis
    by (simp add: same_page_def drop_bit_take_bit va_add_def page_bits_def)
qed

lemma same_page_weaken: "same_page md Size4K va va' \<Longrightarrow> same_page md sz va va'"
proof -
  assume "same_page md Size4K va va'"
  then have "drop_bit (9 * page_level sz) (drop_bit 12 (take_bit (VA_MAX_BITS md) (va_as_usize va)))
      = drop_bit (9 * page_level sz) (drop_bit 12 (take_bit (VA_MAX_BITS md) (va_as_usize va')))"
    by (simp add: same_page_def page_level_def)
  then show ?thesis by (simp add: same_page_def drop_bit_drop_bit add.commute)
qed

lemma same_page_cover:
  assumes "same_page md sz va va'" "is_aligned (va_as_usize va) (2 ^ page_bits sz)"
    "page_bits sz \<le> VA_MAX_BITS md"
  shows "\<exists>off < 2 ^ page_bits sz. same_page md Size4K (va_add va off) va'"
proof -
  define k where "k = page_bits sz"
  define off where "off = align_offset (va_as_usize va') (2 ^ k)"
  have k: "k < 64" using page_bits_bounds [of sz] by (simp add: k_def)
  have off: "off < 2 ^ k" "off = take_bit k (va_as_usize va')"
    using and_mask_less' [of k "va_as_usize va'"] k
    by (simp_all add: off_def align_offset_def pow2_minus_1_mask take_bit_eq_mask)
  define x where "x = va_as_usize va + off"
  have low: "take_bit k x = take_bit k (va_as_usize va')"
    using page_offset(1) [of "va_as_usize va" k off] assms(2) off k
    by (simp add: x_def k_def align_offset_def pow2_minus_1_mask take_bit_eq_mask)
  obtain n where n: "VA_MAX_BITS md = k + n"
    using assms(3) by (auto simp: k_def le_iff_add)
  have "take_bit n (drop_bit k x) = take_bit n (drop_bit k (va_as_usize va))"
    using same_page_offset [OF assms(2), of off md] off n
    by (simp add: same_page_def k_def page_bits_def drop_bit_take_bit va_add_def x_def)
  also have "\<dots> = take_bit n (drop_bit k (va_as_usize va'))"
    using assms(1) n by (simp add: same_page_def k_def page_bits_def drop_bit_take_bit)
  finally have "take_bit (VA_MAX_BITS md) x = take_bit (VA_MAX_BITS md) (va_as_usize va')"
    unfolding n take_bit_split using low by simp
  then show ?thesis
    using off(1) by (auto simp: same_page_def va_add_def x_def k_def)
qed

lemma region_page:
  fixes sz :: usize and allow_huge :: bool
  assumes "sz \<noteq> 0" "is_aligned sz (2 ^ 12)"
    and "is_aligned (va_as_usize va) (2 ^ 12)" "is_aligned (pa_as_usize pa) (2 ^ 12)"
  defines "s \<equiv> region_page_size allow_huge va pa sz"
  shows "page_size_usize s \<le> sz" "is_aligned (va_as_usize va) (2 ^ page_bits s)"
    "is_aligned (pa_as_usize pa) (2 ^ page_bits s)"
proof -
  have "2 ^ 12 dvd unat sz" using assms(2) unfolding is_aligned_iff_dvd .
  moreover have "0 < unat sz" using assms(1) by (simp add: unat_gt_0)
  ultimately have "(2 :: nat) ^ 12 \<le> unat sz" by (intro dvd_imp_le)
  then have "page_size_usize Size4K \<le> sz"
    by (simp add: word_le_nat_alt page_size_usize_def)
  then show "page_size_usize s \<le> sz"
    by (auto simp: s_def region_page_size_def)
  show "is_aligned (va_as_usize va) (2 ^ page_bits s)" "is_aligned (pa_as_usize pa) (2 ^ page_bits s)"
    using assms(3,4)
    by (auto simp: s_def region_page_size_def page_size_exp va_is_aligned_def pa_is_aligned_def
        page_bits_def page_level_def)
qed

text \<open>Consecutive pages that fill a region, as a lookup function sees them.\<close>

fun tiling :: "(VirtAddr \<Rightarrow> (PhysAddr \<times> MappingFlags \<times> PageSize, PagingError) outcome)
    \<Rightarrow> VirtAddr \<Rightarrow> usize \<Rightarrow> PageSize list \<Rightarrow> bool" where
  "tiling q va sz [] \<longleftrightarrow> sz = 0"
| "tiling q va sz (s # ss) \<longleftrightarrow> is_aligned (va_as_usize va) (page_size_usize s)
    \<and> page_size_usize s \<le> sz \<and> (\<exists>p f. q va = Ok (p, f, s))
    \<and> tiling q (va_add va (page_size_usize s)) (sz - page_size_usize s) ss"

lemma region_offsets:
  fixes n sz :: usize
  assumes "n \<le> sz" "off < sz - n"
  shows "n + off < sz"
  using assms by (simp add: word_less_nat_alt word_le_nat_alt unat_sub unat_word_ariths)

lemma tiling_cong:
  "tiling q va sz ss \<Longrightarrow> (\<And>off. off < sz \<Longrightarrow> q' (va_add va off) = q (va_add va off)) \<Longrightarrow> tiling q' va sz ss"
proof (induction ss arbitrary: va sz)
  case (Cons s ss)
  let ?n = "page_size_usize s"
  have n: "?n \<le> sz" "0 < ?n" using Cons.prems(1) page_size_usize_pos by auto
  then have "(0 :: usize) < sz" by (rule order_less_le_trans [rotated])
  then have "q' va = q va" using Cons.prems(2) [of 0] by (simp add: va_add_def)
  moreover have "tiling q' (va_add va ?n) (sz - ?n) ss"
  proof (rule Cons.IH)
    show "tiling q (va_add va ?n) (sz - ?n) ss" using Cons.prems(1) by simp
    fix off assume "off < sz - ?n"
    then show "q' (va_add (va_add va ?n) off) = q (va_add (va_add va ?n) off)"
      using Cons.prems(2) [of "?n + off"] region_offsets [OF n(1)] by (simp add: va_add_def add.assoc)
  qed
  ultimately show ?case using Cons.prems(1) by simp
qed simp

lemma tiling_append:
  "tiling q va n ss \<Longrightarrow> tiling q (va_add va n) (sz - n) ss' \<Longrightarrow> n \<le> sz \<Longrightarrow> tiling q va sz (ss @ ss')"
proof (induction ss arbitrary: va n sz)
  case (Cons s ss)
  let ?p = "page_size_usize s"
  have p: "?p \<le> n" using Cons.prems(1) by simp
  have "tiling q (va_add va ?p) (sz - ?p) (ss @ ss')"
  proof (rule Cons.IH)
    show "tiling q (va_add va ?p) (n - ?p) ss" using Cons.prems(1) by simp
    show "tiling q (va_add (va_add va ?p) (n - ?p)) (sz - ?p - (n - ?p)) ss'"
      using Cons.prems(2) by (simp add: va_add_def)
    show "n - ?p \<le> sz - ?p" using p Cons.prems(3) by (simp add: word_le_nat_alt unat_sub)
  qed
  then show ?case using Cons.prems(1,3) p by auto
qed (simp add: va_add_def)

context page_table
begin

abbreviation (input) query :: "VirtAddr \<Rightarrow> PageTable64 \<Rightarrow> 's machine
    \<Rightarrow> (PhysAddr \<times> MappingFlags \<times> PageSize, PagingError) outcome" where
  "query \<equiv> pt_query pte md pif"

text \<open>A query finds a page or reports that there is none.\<close>

lemma leaf_slot_cases:
  assumes "tables_ok pte md T root owned" "path_table pte T root ps = Some t"
    "full_path md (ps @ i # is)"
  shows "(\<exists>x. leaf_slot pte T t (i # is) = Ok x) \<or> leaf_slot pte T t (i # is) = Err NotMapped"
  using assms(2,3)
proof (induction "is" arbitrary: ps t i)
  case (Cons j "is")
  have path: "index_path md ps" "i < 512" using full_path_prefix [OF Cons.prems(2) refl] by auto
  have entry: "T t i = 0 \<or> is_present pte (T t i) \<and> (LEVELS md = length ps + 4 \<longrightarrow> \<not> is_huge pte (T t i))"
    using tables_ok_entry [OF assms(1) path Cons.prems(1)] .
  have short: "length is < 2 \<or> LEVELS md = length ps + 4"
    using levels Cons.prems(2) by (auto simp: full_path_def)
  show ?case
  proof (cases "is_table_entry pte (T t i)")
    case True
    then have "path_table pte T root (ps @ [i]) = Some (pte_paddr pte (T t i))"
      using Cons.prems(1) by (simp add: path_table_append)
    then have "(\<exists>x. leaf_slot pte T (pte_paddr pte (T t i)) (j # is) = Ok x)
        \<or> leaf_slot pte T (pte_paddr pte (T t i)) (j # is) = Err NotMapped"
      using Cons.IH [of "ps @ [i]"] Cons.prems(2) by simp
    then show ?thesis using True by (auto simp: is_table_entry_def next_table_mut_def)
  next
    case False
    then show ?thesis
      using entry short zero_not_present by (auto simp: is_table_entry_def next_table_mut_def)
  qed
qed simp

lemma query_cases:
  assumes "pt_ok pt w"
  shows "(\<exists>x. query va pt w = Ok x) \<or> query va pt w = Err NotMapped"
proof -
  obtain i "is" where "is": "va_indices md va = i # is"
    by (cases "va_indices md va") (auto simp: va_indices_def split: if_splits)
  then have "full_path md (i # is)" using va_indices_full [OF levels] by metis
  then have "(\<exists>x. leaf_slot pte (view w) (root_paddr pt) (va_indices md va) = Ok x)
      \<or> leaf_slot pte (view w) (root_paddr pt) (va_indices md va) = Err NotMapped"
    using leaf_slot_cases [of "view w" "root_paddr pt" "set (intrm_tables pt)" "[]"] assms "is"
    by (simp add: pt_inv_def)
  then show ?thesis
    by (auto simp: query_leaf leaf_entry_def)
qed

text \<open>What the loop of \<open>map_region\<close> leaves, in terms of the state it starts from.\<close>

definition region_result :: "VirtAddr \<Rightarrow> PhysAddr \<Rightarrow> usize \<Rightarrow> MappingFlags \<Rightarrow> PageTable64 \<Rightarrow> 's machine
    \<Rightarrow> (unit, 's) paging \<Rightarrow> bool" where
  "region_result va pa sz flags pt w res \<longleftrightarrow>
    (case res of (r, pt', w') \<Rightarrow> pt_ok pt' w' \<and> r \<noteq> Panic
      \<and> (\<forall>va'. (\<forall>off < sz. \<not> same_page md Size4K (va_add va off) va') \<longrightarrow> query va' pt' w' = query va' pt w)
      \<and> (\<forall>va' x. query va' pt w = Ok x \<longrightarrow> query va' pt' w' = Ok x)
      \<and> (r = Ok () \<longrightarrow> (\<forall>off < sz. query (va_add va off) pt w = Err NotMapped
          \<and> (\<exists>s. query (va_add va off) pt' w' = Ok (pa_add pa off, stored flags, s)))
        \<and> (\<exists>ss. tiling (\<lambda>va. query va pt' w') va sz ss)))"

lemma page_bits_va: "page_bits s \<le> VA_MAX_BITS md"
  using page_bits_bounds [of s] levels va_bits by auto

lemma region_first_page:
  assumes "pt_ok pt w" "pt_map pte md pif va pa s flags pt w = (Ok (), pt1, w1)"
    "contains flags MF_READ" "is_aligned (va_as_usize va) (2 ^ page_bits s)"
    "is_aligned (pa_as_usize pa) (2 ^ page_bits s)" "pa_as_usize pa < 2 ^ PA_MAX_BITS md"
  shows "region_result va pa (page_size_usize s) flags pt w (Ok (), pt1, w1)"
proof -
  have k: "page_bits s < 64" "12 \<le> page_bits s" using page_bits_bounds [of s] by simp_all
  have pa: "pa_align_down pa (page_size_usize s) = pa"
    using align_down_aligned [OF assms(5)] by (simp add: pa_align_down_def page_size_exp)
  have frame: "frame_paddr (PA_MAX_BITS md) pa"
    using is_aligned_weaken [OF assms(5) k(2)] assms(6)
    by (simp add: frame_paddr_def pa_is_aligned_4k_def pa_is_aligned_def PAGE_SIZE_4K_def)
  note m = map_query [OF assms(1,2,3), unfolded pa, OF frame]
  have off: "same_page md s va (va_add va off)"
    "va_align_offset (va_add va off) (page_size_usize s) = off" if "off < page_size_usize s" for off
    using same_page_offset [OF assms(4)] page_offset(1) [OF assms(4)] that k(1)
    by (simp_all add: page_size_exp va_align_offset_def va_add_def)
  have out: "\<not> same_page md s va va'"
    if "\<forall>off < page_size_usize s. \<not> same_page md Size4K (va_add va off) va'" for va'
    using same_page_cover [OF _ assms(4) page_bits_va] that by (auto simp: page_size_exp)
  have "tiling (\<lambda>va. query va pt1 w1) va (page_size_usize s) [s]"
    using m(2) [of va] off [OF page_size_usize_pos] assms(4) by (simp add: va_add_def page_size_exp)
  then have "\<exists>ss. tiling (\<lambda>va. query va pt1 w1) va (page_size_usize s) ss" by blast
  then show ?thesis
    using m off out unfolding region_result_def by auto
qed

lemma region_result_err:
  assumes "pt_ok pt w" "pt_map pte md pif va pa s flags pt w = (Err e, pt1, w1)"
  shows "region_result va pa sz flags pt w (Err e, pt1, w1)"
  using map_err_query [OF assms] by (auto simp: region_result_def)

lemma region_result_append:
  assumes inv: "pt_ok pt w"
    and first: "region_result va pa n flags pt w (Ok (), pt1, w1)"
    and rest: "region_result (va_add va n) (pa_add pa n) (sz - n) flags pt1 w1 res" and n: "n \<le> sz"
  shows "region_result va pa sz flags pt w res"
proof -
  obtain r pt' w' where res: "res = (r, pt', w')" by (cases res)
  have shift: "off = n + (off - n)" "off - n < sz - n \<longleftrightarrow> off < sz" if "\<not> off < n" for off
    using that n by (auto simp: word_less_nat_alt word_le_nat_alt unat_sub not_less)
  have add: "va_add (va_add va n) (off - n) = va_add va off" "pa_add (pa_add pa n) (off - n) = pa_add pa off" for off
    by (simp_all add: va_add_def pa_add_def)
  have "query va' pt' w' = query va' pt w"
    if far: "\<forall>off < sz. \<not> same_page md Size4K (va_add va off) va'" for va'
  proof -
    have "\<not> same_page md Size4K (va_add va off) va'" if "off < n" for off
      using far that n by (meson order_less_le_trans)
    moreover have "\<not> same_page md Size4K (va_add (va_add va n) off) va'" if "off < sz - n" for off
      using far [rule_format, of "n + off"] that n
      by (simp add: va_add_def add.assoc word_less_nat_alt word_le_nat_alt unat_sub unat_word_ariths)
    ultimately show ?thesis using first rest res unfolding region_result_def by simp
  qed
  moreover have "query (va_add va off) pt w = Err NotMapped
      \<and> (\<exists>s. query (va_add va off) pt' w' = Ok (pa_add pa off, stored flags, s))"
    if "r = Ok ()" "off < sz" for off
  proof (cases "off < n")
    case True
    then show ?thesis using first rest res unfolding region_result_def by auto
  next
    case False
    then have later: "query (va_add va off) pt1 w1 = Err NotMapped
        \<and> (\<exists>s. query (va_add va off) pt' w' = Ok (pa_add pa off, stored flags, s))"
      using rest res that shift [OF False] add [of off] unfolding region_result_def by auto
    have "query (va_add va off) pt w = Err NotMapped"
      using query_cases [OF inv, of "va_add va off"] later first unfolding region_result_def by auto
    then show ?thesis using later by blast
  qed
  moreover have "\<exists>ss. tiling (\<lambda>va. query va pt' w') va sz ss" if r: "r = Ok ()"
  proof -
    obtain ss where "tiling (\<lambda>va. query va pt1 w1) va n ss"
      using first unfolding region_result_def by auto
    then have "tiling (\<lambda>va. query va pt' w') va n ss"
      by (rule tiling_cong) (use first rest res in \<open>auto simp: region_result_def\<close>)
    moreover obtain ss' where "tiling (\<lambda>va. query va pt' w') (va_add va n) (sz - n) ss'"
      using rest res r unfolding region_result_def by auto
    ultimately show ?thesis using tiling_append n by blast
  qed
  ultimately show ?thesis
    using first rest res unfolding region_result_def by auto
qed

text \<open>The loop ends for aligned arguments, with this result.\<close>

lemma region_loop:
  assumes "pt_ok pt w" "contains flags MF_READ"
    "is_aligned (va_as_usize va) (2 ^ 12)" "is_aligned (pa_as_usize pa) (2 ^ 12)" "is_aligned sz (2 ^ 12)"
    "unat (pa_as_usize pa) + unat sz \<le> 2 ^ PA_MAX_BITS md"
  shows "\<exists>res. map_region_loop pte md pif flags allow_huge va pa sz pt w = Some res
    \<and> region_result va pa sz flags pt w res"
  using assms
proof (induction "unat sz" arbitrary: va pa sz pt w rule: less_induct)
  case less
  show ?case
  proof (cases "sz = 0")
    case True
    then show ?thesis
      using less.prems(1)
      by (subst map_region_loop.simps) (auto simp: region_result_def intro!: exI [of _ "[]"])
  next
    case False
    define s where "s = region_page_size allow_huge va pa sz"
    note page = region_page [OF False less.prems(5,3,4), of allow_huge, folded s_def]
    have k: "12 \<le> page_bits s" "page_bits s < 64" using page_bits_bounds [of s] by auto
    have n: "unat (page_size_usize s) \<le> unat sz" "0 < page_size_usize s"
      "is_aligned (page_size_usize s) (2 ^ 12)"
      using page(1) page_size_usize_pos [of s] k
      by (simp_all add: word_le_nat_alt page_size_exp is_aligned_iff_dvd unat_page_size le_imp_power_dvd
          del: power_numeral)
    have sub: "unat (sz - page_size_usize s) = unat sz - unat (page_size_usize s)"
      using page(1) by (simp add: unat_sub)
    have pa_lt: "unat (pa_as_usize pa) < 2 ^ PA_MAX_BITS md"
      using less.prems(6) False unat_gt_0 [of sz] by linarith
    obtain r pt1 w1 where m: "pt_map pte md pif va pa s flags pt w = (r, pt1, w1)"
      by (metis prod_cases3)
    show ?thesis
    proof (cases r)
      case (Ok u)
      then have m': "pt_map pte md pif va pa s flags pt w = (Ok (), pt1, w1)" using m by simp
      have "pa_as_usize pa < 2 ^ PA_MAX_BITS md"
        using pa_lt pa_bits by (simp add: word_less_nat_alt unat_exp_word)
      note first = region_first_page [OF less.prems(1) m' less.prems(2) page(2,3) this]
      have inv1: "pt_ok pt1 w1" using first by (simp add: region_result_def)
      have "\<exists>res. map_region_loop pte md pif flags allow_huge (va_add va (page_size_usize s))
          (pa_add pa (page_size_usize s)) (sz - page_size_usize s) pt1 w1 = Some res
        \<and> region_result (va_add va (page_size_usize s)) (pa_add pa (page_size_usize s)) (sz - page_size_usize s)
            flags pt1 w1 res"
      proof (rule less.hyps [OF _ inv1 less.prems(2)])
        show "unat (sz - page_size_usize s) < unat sz" using word_sub_less [OF n(2) page(1)] .
        show "is_aligned (va_as_usize (va_add va (page_size_usize s))) (2 ^ 12)"
          "is_aligned (pa_as_usize (pa_add pa (page_size_usize s))) (2 ^ 12)"
          using is_aligned_add [OF less.prems(3) n(3)] is_aligned_add [OF less.prems(4) n(3)]
          by (simp_all add: va_add_def pa_add_def)
        show "is_aligned (sz - page_size_usize s) (2 ^ 12)"
          using is_aligned_diff [OF less.prems(5) n(3) page(1)] .
        have "(2 :: nat) ^ PA_MAX_BITS md \<le> 2 ^ 63"
          using pa_bits by (intro power_increasing) simp_all
        then have "unat (pa_as_usize pa) + unat (page_size_usize s) < 2 ^ 64"
          using less.prems(6) n(1) by simp
        then show "unat (pa_as_usize (pa_add pa (page_size_usize s))) + unat (sz - page_size_usize s)
            \<le> 2 ^ PA_MAX_BITS md"
          using less.prems(6) n(1) by (simp add: pa_add_def sub unat_word_ariths)
      qed
      then obtain res where rest: "map_region_loop pte md pif flags allow_huge (va_add va (page_size_usize s))
          (pa_add pa (page_size_usize s)) (sz - page_size_usize s) pt1 w1 = Some res"
        "region_result (va_add va (page_size_usize s)) (pa_add pa (page_size_usize s)) (sz - page_size_usize s)
            flags pt1 w1 res" by blast
      then show ?thesis
        using region_result_append [OF less.prems(1) first rest(2) page(1)] False m'
        by (subst map_region_loop.simps) (simp add: Let_def flip: s_def)
    next
      case (Err e)
      then show ?thesis
        using region_result_err [OF less.prems(1)] m False
        by (subst map_region_loop.simps) (simp add: Let_def flip: s_def)
    next
      case Panic
      then show ?thesis using map_no_panic [OF less.prems(1)] m by blast
    qed
  qed
qed

text \<open>Pages of one region are distinct while the region is no longer than the address space.\<close>

lemma not_same_page_later:
  assumes "is_aligned (va_as_usize va) (2 ^ page_bits s)" "2 ^ page_bits s \<le> n"
    "unat n < 2 ^ VA_MAX_BITS md"
  shows "\<not> same_page md s va (va_add va n)"
proof
  let ?k = "page_bits s" and ?V = "VA_MAX_BITS md" and ?a = "unat (va_as_usize va)"
  have V: "?V \<le> 64" "?k \<le> ?V" using levels va_bits page_bits_va by auto
  assume "same_page md s va (va_add va n)"
  then have "unat (drop_bit ?k (take_bit ?V (va_as_usize va))) = unat (drop_bit ?k (take_bit ?V (va_as_usize va + n)))"
    by (simp add: same_page_def va_add_def page_bits_def)
  then have eq: "?a mod 2 ^ ?V div 2 ^ ?k = (?a + unat n) mod 2 ^ 64 mod 2 ^ ?V div 2 ^ ?k"
    by (simp add: unat_drop_bit_word unat_take_bit_word unat_word_ariths)
  have "(?a + unat n) mod 2 ^ 64 mod 2 ^ ?V = (?a + unat n) mod 2 ^ ?V"
    using V(1) by (intro mod_mod_cancel le_imp_power_dvd)
  then have eq': "?a mod 2 ^ ?V div 2 ^ ?k = (?a mod 2 ^ ?V + unat n) mod 2 ^ ?V div 2 ^ ?k"
    using eq by (simp add: mod_add_left_eq)
  define b where "b = ?a mod 2 ^ ?V"
  have b: "b < 2 ^ ?V" "2 ^ ?k dvd b"
    using assms(1) V(2) unfolding b_def is_aligned_iff_dvd by (auto intro!: dvd_mod le_imp_power_dvd)
  have n: "2 ^ ?k \<le> unat n" using assms(2) by (simp add: word_le_nat_alt unat_page_size)
  have lo: "b div 2 ^ ?k * 2 ^ ?k = b" using b(2) by simp
  define y where "y = (b + unat n) mod 2 ^ ?V"
  have y: "b div 2 ^ ?k = y div 2 ^ ?k" using eq' by (simp add: b_def y_def)
  have "y div 2 ^ ?k * 2 ^ ?k \<le> y" "y < 2 ^ ?k + y div 2 ^ ?k * 2 ^ ?k"
    by (rule div_times_less_eq_dividend) (rule dividend_less_div_times, simp)
  then have "y < b + 2 ^ ?k \<and> b \<le> y" using lo unfolding y by linarith
  then show False
    using n b(1) assms(3) by (cases "b + unat n < 2 ^ ?V") (auto simp: y_def mod_if split: if_splits)
qed

lemma query_same_4k:
  "same_page md Size4K va va' \<Longrightarrow> query va pt w = Err e \<Longrightarrow> query va' pt w = Err e"
proof -
  assume "same_page md Size4K va va'"
  then have "va_indices md va = va_indices md va'"
    using same_page_indices [OF levels va_bits, of Size4K va va'] levels
    by (auto simp: page_level_def va_indices_def)
  then show "query va pt w = Err e \<Longrightarrow> query va' pt w = Err e"
    by (cases "leaf pt w (va_indices md va')") (auto simp: query_leaf)
qed

lemma unmap_tiling:
  assumes "pt_ok pt w" "tiling (\<lambda>va. query va pt w) va sz ss" "unat sz \<le> 2 ^ VA_MAX_BITS md"
  shows "\<exists>w'. unmap_region pte md pif va sz pt w = (Ok (), pt, w') \<and> pt_ok pt w'
    \<and> (\<forall>va'. query va' pt w' =
        (if \<exists>off < sz. same_page md Size4K (va_add va off) va' then Err NotMapped else query va' pt w))"
  using assms
proof (induction ss arbitrary: va sz w)
  case Nil
  then show ?case by simp
next
  case (Cons s ss)
  let ?n = "page_size_usize s"
  have al: "is_aligned (va_as_usize va) (2 ^ page_bits s)" and n: "?n \<le> sz" "0 < ?n"
    and rest: "tiling (\<lambda>va. query va pt w) (va_add va ?n) (sz - ?n) ss"
    using Cons.prems(2) page_size_usize_pos by (auto simp: page_size_exp)
  obtain r pt1 w1 where u: "pt_unmap pte md pif va pt w = (r, pt1, w1)" by (metis prod_cases3)
  note un = unmap_query [OF Cons.prems(1) u]
  obtain p where r: "r = Ok (p, s)" using un(3) Cons.prems(2) by auto
  have q1: "query va' pt w1 = (if same_page md s va va' then Err NotMapped else query va' pt w)" for va'
    using un(1,4) r by simp
  have "tiling (\<lambda>va. query va pt w1) (va_add va ?n) (sz - ?n) ss"
  proof (rule tiling_cong [OF rest])
    fix off assume off: "off < sz - ?n"
    have "unat sz < 2 ^ LENGTH(64)" by (rule unsigned_less)
    then have "?n + off < sz" "?n \<le> ?n + off"
      using off n(1)
      by (auto simp: word_less_nat_alt word_le_nat_alt unat_sub unat_word_ariths)
    then have "\<not> same_page md s va (va_add va (?n + off))"
      using not_same_page_later [OF al] Cons.prems(3) by (simp add: page_size_exp word_less_nat_alt)
    then show "query (va_add (va_add va ?n) off) pt w1 = query (va_add (va_add va ?n) off) pt w"
      using q1 by (simp add: va_add_def add.assoc)
  qed
  moreover have "unat (sz - ?n) \<le> 2 ^ VA_MAX_BITS md" using Cons.prems(3) n(1) by (simp add: unat_sub)
  ultimately obtain w2 where w2: "unmap_region pte md pif (va_add va ?n) (sz - ?n) pt w1 = (Ok (), pt, w2)"
    "pt_ok pt w2" "\<And>va'. query va' pt w2 =
      (if \<exists>off < sz - ?n. same_page md Size4K (va_add (va_add va ?n) off) va' then Err NotMapped else query va' pt w1)"
    using Cons.IH [of w1 "va_add va ?n" "sz - ?n"] un(1,2) by auto
  have split: "(\<exists>off < sz. same_page md Size4K (va_add va off) va') \<longleftrightarrow>
      same_page md s va va' \<or> (\<exists>off < sz - ?n. same_page md Size4K (va_add (va_add va ?n) off) va')" for va'
  proof
    assume "\<exists>off < sz. same_page md Size4K (va_add va off) va'"
    then obtain off where off: "off < sz" "same_page md Size4K (va_add va off) va'" by blast
    show "same_page md s va va' \<or> (\<exists>off < sz - ?n. same_page md Size4K (va_add (va_add va ?n) off) va')"
    proof (cases "off < ?n")
      case True
      then show ?thesis
        using same_page_weaken [OF off(2)] same_page_offset [OF al, of off md]
        by (simp add: page_size_exp same_page_def)
    next
      case False
      then have "off - ?n < sz - ?n" "va_add (va_add va ?n) (off - ?n) = va_add va off"
        using off(1) n(1) by (simp_all add: word_less_nat_alt word_le_nat_alt unat_sub not_less va_add_def)
      then show ?thesis using off(2) by metis
    qed
  next
    assume "same_page md s va va' \<or> (\<exists>off < sz - ?n. same_page md Size4K (va_add (va_add va ?n) off) va')"
    then show "\<exists>off < sz. same_page md Size4K (va_add va off) va'"
    proof
      assume "same_page md s va va'"
      then obtain off where "off < ?n" "same_page md Size4K (va_add va off) va'"
        using same_page_cover [OF _ al page_bits_va] by (auto simp: page_size_exp)
      then show ?thesis using n(1) by (meson order_less_le_trans)
    next
      assume "\<exists>off < sz - ?n. same_page md Size4K (va_add (va_add va ?n) off) va'"
      then obtain off where "off < sz - ?n" "same_page md Size4K (va_add va (?n + off)) va'"
        by (auto simp: va_add_def add.assoc)
      then show ?thesis using region_offsets [OF n(1)] by blast
    qed
  qed
  have "sz \<noteq> 0" using n by auto
  then have "unmap_region pte md pif va sz pt w = (Ok (), pt, w2)"
    using u r un(1) w2(1) n al by (subst unmap_region.simps) (simp add: va_is_aligned_def page_size_exp)
  then show ?case using w2(2,3) q1 split by auto
qed

lemma map_region_result:
  assumes "pt_ok pt w" "contains flags MF_READ" "unat (pa_as_usize pa) + unat sz \<le> 2 ^ PA_MAX_BITS md"
  shows "\<exists>res. map_region pte md pif va pa sz flags allow_huge pt w = Some res
    \<and> (if is_aligned (va_as_usize va) 0x1000 \<and> is_aligned (pa_as_usize pa) 0x1000 \<and> is_aligned sz 0x1000
       then region_result va pa sz flags pt w res else res = (Err NotAligned, pt, w))"
  using region_loop [OF assms(1,2) _ _ _ assms(3), of va allow_huge]
  by (auto simp: map_region_def page_size_usize_def va_is_aligned_def pa_is_aligned_def)

lemma region_roundtrip:
  assumes inv: "pt_ok pt w" and "contains flags MF_READ"
    "unat (pa_as_usize pa) + unat sz \<le> 2 ^ PA_MAX_BITS md" "unat sz \<le> 2 ^ VA_MAX_BITS md"
    and m: "map_region pte md pif va pa sz flags allow_huge pt w = Some (Ok (), pt1, w1)"
  shows "\<exists>w2. unmap_region pte md pif va sz pt1 w1 = (Ok (), pt1, w2) \<and> pt_ok pt1 w2
    \<and> (\<forall>va'. query va' pt1 w2 = query va' pt w)"
proof -
  have res: "region_result va pa sz flags pt w (Ok (), pt1, w1)"
    using map_region_result [OF assms(1-3), of va allow_huge] m by (auto split: if_splits)
  then obtain ss where "tiling (\<lambda>va. query va pt1 w1) va sz ss" and inv1: "pt_ok pt1 w1"
    by (auto simp: region_result_def)
  then obtain w2 where w2: "unmap_region pte md pif va sz pt1 w1 = (Ok (), pt1, w2)" "pt_ok pt1 w2"
    "\<And>va'. query va' pt1 w2 = (if \<exists>off < sz. same_page md Size4K (va_add va off) va'
      then Err NotMapped else query va' pt1 w1)"
    using unmap_tiling [OF inv1 _ assms(4)] by blast
  have "query va' pt1 w2 = query va' pt w" for va'
  proof (cases "\<exists>off < sz. same_page md Size4K (va_add va off) va'")
    case True
    then obtain off where off: "off < sz" "same_page md Size4K (va_add va off) va'" by blast
    then have "query (va_add va off) pt w = Err NotMapped" using res by (simp add: region_result_def)
    then show ?thesis using query_same_4k [OF off(2)] w2(3) True by simp
  next
    case False
    then show ?thesis using res w2(3) by (auto simp: region_result_def)
  qed
  then show ?thesis using w2 by blast
qed

text \<open>A new page table is empty, and dropping one gives back exactly its frames.\<close>

lemma new_table_ok:
  assumes ok: "falloc_ok (frames w)" and new: "try_new pif w = (Ok pt, w')"
  shows "pt_ok pt w'" and "query va pt w' = Err NotMapped"
    and "live (frames w') = insert (root_paddr pt) (live (frames w))" "root_paddr pt \<notin> live (frames w)"
proof -
  obtain p s where al: "alloc_frame pif (frames w) = (Some p, s)"
    and pt: "pt = \<lparr>root_paddr = p, intrm_tables = [p]\<rparr>"
    and w': "frames w' = s" "mem w' = write_zero_page (va_as_usize (phys_to_virt pif p)) (mem w)"
    using new by (cases "alloc_frame pif (frames w)")
      (auto simp: try_new_def alloc_table_def split: option.splits)
  note fa = alloc_some [OF ok al]
  show "live (frames w') = insert (root_paddr pt) (live (frames w))" "root_paddr pt \<notin> live (frames w)"
    using fa w' pt by auto
  have fp: "frame_paddr (PA_MAX_BITS md) p" using live_frame fa by blast
  have zero: "view w' p i = 0" if "i < 512" for i
    using table_view_zero [OF fp fp that] w'(2) by simp
  have only: "path_table pte (view w') p ps = Some t \<longleftrightarrow> ps = [] \<and> t = p" if "index_path md ps" for ps t
    using that zero zero_not_present by (cases ps) (auto simp: index_path_def is_table_entry_def)
  have "tables_ok pte md (view w') p {p}"
    using only zero by (intro tables_okI) auto
  then show inv: "pt_ok pt w'"
    using fa w'(1) pt by (simp add: pt_inv_def)
  obtain i "is" where "is": "va_indices md va = i # is"
    by (cases "va_indices md va") (auto simp: va_indices_def split: if_splits)
  then have "i < 512" using va_indices_full [OF levels, of va] by (simp add: full_path_def)
  then have "leaf pt w' (va_indices md va) = Err NotMapped"
    using leaf_entry_zero [of "view w'" p i "is"] zero pt "is" by simp
  then show "query va pt w' = Err NotMapped" by (simp add: query_leaf)
qed

lemma drop_frames:
  assumes "pt_ok pt w"
  shows "falloc_ok (frames (pt_drop pif pt w))"
    and "live (frames (pt_drop pif pt w)) = live (frames w) - set (intrm_tables pt)"
proof -
  have "falloc_ok (fold (dealloc_frame pif) ps s) \<and> live (fold (dealloc_frame pif) ps s) = live s - set ps"
    if "falloc_ok s" "set ps \<subseteq> live s" "distinct ps" for ps s
    using that
  proof (induction ps arbitrary: s)
    case (Cons p ps)
    then have "falloc_ok (dealloc_frame pif p s)" "live (dealloc_frame pif p s) = live s - {p}"
      using dealloc_live [of s p] by auto
    then show ?case using Cons by auto
  qed simp
  then show "falloc_ok (frames (pt_drop pif pt w))"
    "live (frames (pt_drop pif pt w)) = live (frames w) - set (intrm_tables pt)"
    using assms by (simp_all add: pt_inv_def pt_drop_def)
qed

end

end
