(* ===== verification/Page_Table_Arch.thy ===== *)
theory Page_Table_Arch
  imports Page_Table_Regions
begin

text \<open>
  The page tables of the supported architectures (x86-64, Sv39, Sv48, AArch64) as instances
  of the generic development, and the properties of their operations.
\<close>

section \<open>The architectures satisfy the contracts\<close>

lemma arch_generic_pte:
  "arch_ok a \<Longrightarrow> generic_pte (arch_pte a) (PA_MAX_BITS (arch_md a)) (arch_stored a)"
  using masked_pte.masked_is_generic [OF masked_pte_x64] rv64.masked_is_generic a64.masked_is_generic
  by (cases a)
    (auto simp: arch_ok_def arch_pte_def arch_md_def arch_stored_def X64PagingMetaData_def
      Sv39MetaData_def Sv48MetaData_def A64PagingMetaData_def)

lemma arch_page_table:
  assumes "arch_ok a" "frame_allocator pif (PA_MAX_BITS (arch_md a)) falloc_ok live"
  shows "page_table (arch_pte a) (arch_md a) (arch_stored a) pif falloc_ok live"
proof -
  have "page_table_axioms (arch_md a)"
    by (cases a; unfold_locales) (simp_all add: arch_md_def X64PagingMetaData_def
        Sv39MetaData_def Sv48MetaData_def A64PagingMetaData_def)
  then show ?thesis
    using arch_generic_pte [OF assms(1)] assms(2) by (simp add: page_table_def)
qed

section \<open>A frame pool\<close>

text \<open>
  A small implementation of the frame allocator, for the examples below: a list of free
  frames and a list of frames in use.
\<close>

definition pool_if :: "(PhysAddr list \<times> PhysAddr list) PagingIf" where
  "pool_if = \<lparr>
    alloc_frame = (\<lambda>(free, used). case free of [] \<Rightarrow> (None, (free, used))
      | p # free' \<Rightarrow> (Some p, (free', p # used))),
    dealloc_frame = (\<lambda>p (free, used). (p # free, remove1 p used)),
    phys_to_virt = (\<lambda>p. VirtAddr (pa_as_usize p + 0xFFFFFFC000000000)) \<rparr>"

definition pool_ok :: "nat \<Rightarrow> PhysAddr list \<times> PhysAddr list \<Rightarrow> bool" where
  "pool_ok n s \<longleftrightarrow> distinct (fst s @ snd s) \<and> (\<forall>p\<in>set (fst s @ snd s). frame_paddr n p)"

definition pool_live :: "PhysAddr list \<times> PhysAddr list \<Rightarrow> PhysAddr set" where
  "pool_live s = set (snd s)"

lemma frame_allocator_pool: "frame_allocator pool_if n (pool_ok n) pool_live"
  by unfold_locales
    (auto simp: pool_if_def pool_ok_def pool_live_def set_remove1_eq distinct_remove1
      disjoint_iff
      split: list.splits dest: in_set_remove1)

definition demo_machine :: "(PhysAddr list \<times> PhysAddr list) machine" where
  "demo_machine = \<lparr> mem = (\<lambda>_. 0xDEAD), frames = (map (\<lambda>k. PhysAddr (0x80000000 + 0x1000 * of_nat k)) [0..<6], []) \<rparr>"

definition demo_new :: "PageTable64 \<times> (PhysAddr list \<times> PhysAddr list) machine" where
  "demo_new = (case try_new pool_if demo_machine of (Ok pt, w) \<Rightarrow> (pt, w)
    | (_, w) \<Rightarrow> (\<lparr> root_paddr = PhysAddr 0, intrm_tables = [] \<rparr>, w))"

lemma demo_new_ok:
  "fst (try_new pool_if demo_machine) = Ok (fst demo_new)"
  "snd (try_new pool_if demo_machine) = snd demo_new"
  by code_simp+

lemma demo_pool_ok: "pool_ok 56 (frames demo_machine)"
proof -
  have "list_all (\<lambda>p. pa_is_aligned_4k p \<and> pa_as_usize p < 2 ^ 56) (fst (frames demo_machine))"
    "distinct (fst (frames demo_machine) @ snd (frames demo_machine))" "snd (frames demo_machine) = []"
    by code_simp+
  then show ?thesis by (auto simp: pool_ok_def frame_paddr_def list_all_iff)
qed

text \<open>An Sv39 page table over this pool.\<close>

interpretation demo: page_table Rv64PTE Sv39MetaData rv64_stored pool_if "pool_ok 56" pool_live
  using arch_page_table [of Sv39 pool_if "pool_ok 56" pool_live] frame_allocator_pool [of 56]
  by (simp add: arch_ok_def arch_pte_def arch_md_def arch_stored_def Sv39MetaData_def)

lemma demo_new_inv:
  "pt_inv Rv64PTE Sv39MetaData pool_if (pool_ok 56) pool_live (fst demo_new) (snd demo_new)"
  using demo.new_table_ok(1) [OF demo_pool_ok, of "fst demo_new" "snd demo_new"] demo_new_ok
  by (simp add: prod_eq_iff)

definition demo_map :: "(unit, PhysAddr list \<times> PhysAddr list) paging" where
  "demo_map = pt_map Rv64PTE Sv39MetaData pool_if (VirtAddr 0x1234567) (PhysAddr 0x90000123) Size4K 3
    (fst demo_new) (snd demo_new)"

lemma demo_map_ok: "demo_map = (Ok (), fst (snd demo_map), snd (snd demo_map))"
proof -
  have "fst demo_map = Ok ()" by code_simp
  then show ?thesis by (simp add: prod_eq_iff)
qed

lemma demo_arch_ok: "arch_ok Sv39"
  by (simp add: arch_ok_def)

lemma demo_arch:
  "arch_pte Sv39 = Rv64PTE" "arch_md Sv39 = Sv39MetaData" "arch_stored Sv39 = rv64_stored"
  "PA_MAX_BITS Sv39MetaData = 56"
  by (simp_all add: arch_pte_def arch_md_def arch_stored_def Sv39MetaData_def)

lemmas demo_pool = frame_allocator_pool [of 56]

section \<open>Properties\<close>

text \<open>
  C9: an entry built by \<^const>\<open>new_page\<close> keeps the frame address and, of the flags, what the
  architecture can express; it is present, is not taken for an unused entry, and a huge page
  is recognised as one. This holds for every architecture and every readable mapping.
\<close>
theorem new_page_roundtrip:
  assumes "arch_ok a" "frame_paddr (PA_MAX_BITS (arch_md a)) p" "contains f MF_READ"
  shows "pte_paddr (arch_pte a) (new_page (arch_pte a) p f h) = p
    \<and> pte_flags (arch_pte a) (new_page (arch_pte a) p f h) = arch_stored a f
    \<and> is_present (arch_pte a) (new_page (arch_pte a) p f h)
    \<and> \<not> is_unused (arch_pte a) (new_page (arch_pte a) p f h)
    \<and> is_huge (arch_pte a) (new_page (arch_pte a) p f True)"
  using generic_pte.page_paddr [OF arch_generic_pte [OF assms(1)] assms(2)]
    generic_pte.page_flags [OF arch_generic_pte [OF assms(1)] assms(3)]
    generic_pte.page_present [OF arch_generic_pte [OF assms(1)] assms(3)]
    generic_pte.page_huge [OF arch_generic_pte [OF assms(1)] assms(3)]
    generic_pte.page_nonzero [OF arch_generic_pte [OF assms(1)] assms(3)]
    generic_pte.unused_iff [OF arch_generic_pte [OF assms(1)]] by simp

theorem new_page_roundtrip_witness:
  "pte_paddr (arch_pte AArch64) (new_page (arch_pte AArch64) (PhysAddr 0x80200000) 0x27 True) = PhysAddr 0x80200000
    \<and> pte_flags (arch_pte AArch64) (new_page (arch_pte AArch64) (PhysAddr 0x80200000) 0x27 True) = 0x27"
proof -
  have "arch_ok AArch64" "frame_paddr (PA_MAX_BITS (arch_md AArch64)) (PhysAddr 0x80200000)"
    "contains 0x27 MF_READ" "arch_stored AArch64 0x27 = 0x27"
    by code_simp+
  then show ?thesis using new_page_roundtrip [of AArch64 "PhysAddr 0x80200000" "0x27" True] by simp
qed

text \<open>
  C2: mapping a page of any size changes the translation of exactly the addresses of that
  page. They were unmapped before; afterwards each translates to the target frame plus its
  offset in the page, with the flags and the size of the mapping, and every other address
  translates as before. The invariant of the page table is kept.
\<close>
theorem map_changes_one_page:
  assumes "arch_ok a" "frame_allocator pif (PA_MAX_BITS (arch_md a)) falloc_ok live"
    and "pt_inv (arch_pte a) (arch_md a) pif falloc_ok live pt w"
    and "pt_map (arch_pte a) (arch_md a) pif va target sz flags pt w = (Ok (), pt', w')"
    and "contains flags MF_READ"
    and "frame_paddr (PA_MAX_BITS (arch_md a)) (pa_align_down target (page_size_usize sz))"
  shows "pt_inv (arch_pte a) (arch_md a) pif falloc_ok live pt' w'
    \<and> (\<forall>va'. pt_query (arch_pte a) (arch_md a) pif va' pt' w' =
        (if same_page (arch_md a) sz va va'
         then Ok (pa_add (pa_align_down target (page_size_usize sz))
                    (va_align_offset va' (page_size_usize sz)), arch_stored a flags, sz)
         else pt_query (arch_pte a) (arch_md a) pif va' pt w))
    \<and> (\<forall>va'. same_page (arch_md a) sz va va' \<longrightarrow>
        pt_query (arch_pte a) (arch_md a) pif va' pt w = Err NotMapped)"
  using page_table.map_query [OF arch_page_table [OF assms(1,2)] assms(3-6)] by blast

theorem map_changes_one_page_witness:
  "pt_query Rv64PTE Sv39MetaData pool_if (VirtAddr 0x1234ABC) (fst (snd demo_map)) (snd (snd demo_map))
    = Ok (PhysAddr 0x90000ABC, 3, Size4K)"
proof -
  have "contains 3 MF_READ" "frame_paddr 56 (pa_align_down (PhysAddr 0x90000123) (page_size_usize Size4K))"
    "same_page Sv39MetaData Size4K (VirtAddr 0x1234567) (VirtAddr 0x1234ABC)"
    "pa_add (pa_align_down (PhysAddr 0x90000123) (page_size_usize Size4K))
      (va_align_offset (VirtAddr 0x1234ABC) (page_size_usize Size4K)) = PhysAddr 0x90000ABC"
    "rv64_stored 3 = 3"
    by code_simp+
  then show ?thesis
    using map_changes_one_page [where a = Sv39, unfolded demo_arch, OF demo_arch_ok demo_pool demo_new_inv
        demo_map_ok [unfolded demo_map_def], folded demo_map_def]
    by simp
qed

text \<open>
  C6: a mapping that fails changes no translation, and its error is the reason. It is \<open>NoMemory\<close> when a
  table on the way to the entry is missing and a frame was refused for it - then the address was not mapped; it
  is \<open>MappedToHugePage\<close> when a larger page already maps the address; and it is \<open>AlreadyMapped\<close> when
  the entry is in use, by a page of the same size or, for a huge page, by a table of smaller pages - then
  nothing at all has changed.
\<close>
theorem map_failure_harmless:
  assumes "arch_ok a" "frame_allocator pif (PA_MAX_BITS (arch_md a)) falloc_ok live"
    and "pt_inv (arch_pte a) (arch_md a) pif falloc_ok live pt w"
    and "pt_map (arch_pte a) (arch_md a) pif va target sz flags pt w = (Err e, pt', w')"
  shows "pt_inv (arch_pte a) (arch_md a) pif falloc_ok live pt' w'
    \<and> (\<forall>va'. pt_query (arch_pte a) (arch_md a) pif va' pt' w' = pt_query (arch_pte a) (arch_md a) pif va' pt w)
    \<and> (case find_slot (arch_pte a) (table_view pif (mem w)) (page_level sz) (root_paddr pt) (va_indices (arch_md a) va) of
         Missing_table \<Rightarrow> e = NoMemory \<and> pt_query (arch_pte a) (arch_md a) pif va pt w = Err NotMapped
           \<and> (\<exists>s. falloc_ok s \<and> alloc_frame pif s = (None, frames w'))
       | Larger_page \<Rightarrow> e = MappedToHugePage
           \<and> (\<exists>p f s. pt_query (arch_pte a) (arch_md a) pif va pt w = Ok (p, f, s) \<and> page_level sz < page_level s)
       | Slot v \<Rightarrow> e = AlreadyMapped \<and> pt' = pt \<and> w' = w
           \<and> ((\<exists>p f. pt_query (arch_pte a) (arch_md a) pif va pt w = Ok (p, f, sz))
              \<or> sz \<noteq> Size4K \<and> is_table_entry (arch_pte a) v))"
  using page_table.map_err_query(1,2) [OF arch_page_table [OF assms(1,2)] assms(3,4)]
    page_table.map_err_cause [OF arch_page_table [OF assms(1,2)] assms(3,4)] by blast

definition demo_remap :: "(unit, PhysAddr list \<times> PhysAddr list) paging" where
  "demo_remap = pt_map Rv64PTE Sv39MetaData pool_if (VirtAddr 0x1234000) (PhysAddr 0x1000) Size4K 3
    (fst (snd demo_map)) (snd (snd demo_map))"

lemma demo_map_inv:
  "pt_inv Rv64PTE Sv39MetaData pool_if (pool_ok 56) pool_live (fst (snd demo_map)) (snd (snd demo_map))"
proof -
  have "contains 3 MF_READ" "frame_paddr 56 (pa_align_down (PhysAddr 0x90000123) (page_size_usize Size4K))"
    by code_simp+
  then show ?thesis
    using demo.map_query(1) [OF demo_new_inv demo_map_ok [unfolded demo_map_def]]
    by (simp add: demo_map_def Sv39MetaData_def)
qed

theorem map_failure_harmless_witness:
  "fst demo_remap = Err AlreadyMapped
    \<and> (\<exists>p f. pt_query Rv64PTE Sv39MetaData pool_if (VirtAddr 0x1234000)
          (fst (snd demo_map)) (snd (snd demo_map)) = Ok (p, f, Size4K))"
proof -
  have err: "fst demo_remap = Err AlreadyMapped" by code_simp
  then have "demo_remap = (Err AlreadyMapped, fst (snd demo_remap), snd (snd demo_remap))"
    by (simp add: prod_eq_iff)
  note * = map_failure_harmless [where a = Sv39, unfolded demo_arch, OF demo_arch_ok demo_pool demo_map_inv
      this [unfolded demo_remap_def]]
  show ?thesis using err * [THEN conjunct2, THEN conjunct2] by (auto split: map_slot.splits)
qed

text \<open>
  C5: \<^const>\<open>pt_unmap\<close> returns the frame and the size that \<^const>\<open>pt_query\<close> reports for the page of
  the address, or the same error; the addresses of that page are unmapped afterwards and no
  other translation changes. No frame of a table is released.
\<close>
theorem unmap_removes_one_page:
  assumes "arch_ok a" "frame_allocator pif (PA_MAX_BITS (arch_md a)) falloc_ok live"
    and "pt_inv (arch_pte a) (arch_md a) pif falloc_ok live pt w"
    and "pt_unmap (arch_pte a) (arch_md a) pif va pt w = (r, pt', w')"
  shows "pt' = pt \<and> pt_inv (arch_pte a) (arch_md a) pif falloc_ok live pt' w'
    \<and> r = bind_outcome (pt_query (arch_pte a) (arch_md a) pif va pt w)
        (\<lambda>(p, f, sz). Ok (pa_sub p (va_align_offset va (page_size_usize sz)), sz))
    \<and> (\<forall>va'. pt_query (arch_pte a) (arch_md a) pif va' pt' w' =
        (case r of
           Ok (p, sz) \<Rightarrow> if same_page (arch_md a) sz va va' then Err NotMapped
                        else pt_query (arch_pte a) (arch_md a) pif va' pt w
         | _ \<Rightarrow> pt_query (arch_pte a) (arch_md a) pif va' pt w))"
  using page_table.unmap_query [OF arch_page_table [OF assms(1,2)] assms(3,4)] by blast

theorem unmap_removes_one_page_witness:
  "\<exists>w'. pt_unmap Rv64PTE Sv39MetaData pool_if (VirtAddr 0x1234FFF) (fst (snd demo_map)) (snd (snd demo_map))
      = (Ok (PhysAddr 0x90000000, Size4K), fst (snd demo_map), w')
    \<and> pt_query Rv64PTE Sv39MetaData pool_if (VirtAddr 0x1234001) (fst (snd demo_map)) w' = Err NotMapped"
proof -
  obtain r pt' w' where u: "pt_unmap Rv64PTE Sv39MetaData pool_if (VirtAddr 0x1234FFF)
      (fst (snd demo_map)) (snd (snd demo_map)) = (r, pt', w')"
    by (metis prod_cases3)
  have "fst (pt_unmap Rv64PTE Sv39MetaData pool_if (VirtAddr 0x1234FFF)
      (fst (snd demo_map)) (snd (snd demo_map))) = Ok (PhysAddr 0x90000000, Size4K)"
    "same_page Sv39MetaData Size4K (VirtAddr 0x1234FFF) (VirtAddr 0x1234001)"
    by code_simp+
  then show ?thesis
    using unmap_removes_one_page [where a = Sv39, unfolded demo_arch, OF demo_arch_ok demo_pool demo_map_inv u] u
    by auto
qed

text \<open>
  C7: \<^const>\<open>pt_update\<close> of a mapped address replaces the frame, the flags or both for every
  address of its page, keeps what is not given, and changes no other translation.
\<close>
theorem update_mapped_page:
  assumes "arch_ok a" "frame_allocator pif (PA_MAX_BITS (arch_md a)) falloc_ok live"
    and "pt_inv (arch_pte a) (arch_md a) pif falloc_ok live pt w"
    and "pt_query (arch_pte a) (arch_md a) pif va pt w = Ok (p, f, sz)"
    and "\<And>q. paddr = Some q \<Longrightarrow> frame_paddr (PA_MAX_BITS (arch_md a)) q"
    and "\<And>g. flags = Some g \<Longrightarrow> contains g MF_READ"
    and "pt_update (arch_pte a) (arch_md a) pif va paddr flags pt w = (r, pt', w')"
  shows "r = Ok sz \<and> pt' = pt \<and> pt_inv (arch_pte a) (arch_md a) pif falloc_ok live pt' w'
    \<and> (\<forall>va'. pt_query (arch_pte a) (arch_md a) pif va' pt' w' =
        (if same_page (arch_md a) sz va va' then
           Ok (pa_add (case paddr of Some q \<Rightarrow> q
                       | None \<Rightarrow> pa_sub p (va_align_offset va (page_size_usize sz)))
                 (va_align_offset va' (page_size_usize sz)),
               case flags of Some g \<Rightarrow> arch_stored a g | None \<Rightarrow> f, sz)
         else pt_query (arch_pte a) (arch_md a) pif va' pt w))"
  using page_table.update_query [OF arch_page_table [OF assms(1,2)] assms(3,4) assms(5) assms(6) assms(7)]
  by blast

theorem update_mapped_page_witness:
  "\<exists>w'. pt_update Rv64PTE Sv39MetaData pool_if (VirtAddr 0x1234567) None (Some 5)
      (fst (snd demo_map)) (snd (snd demo_map)) = (Ok Size4K, fst (snd demo_map), w')
    \<and> pt_query Rv64PTE Sv39MetaData pool_if (VirtAddr 0x1234001) (fst (snd demo_map)) w'
      = Ok (PhysAddr 0x90000001, 5, Size4K)"
proof -
  obtain r pt' w' where u: "pt_update Rv64PTE Sv39MetaData pool_if (VirtAddr 0x1234567) None (Some 5)
      (fst (snd demo_map)) (snd (snd demo_map)) = (r, pt', w')"
    by (metis prod_cases3)
  have "pt_query Rv64PTE Sv39MetaData pool_if (VirtAddr 0x1234567) (fst (snd demo_map)) (snd (snd demo_map))
      = Ok (PhysAddr 0x90000567, 3, Size4K)" "contains 5 MF_READ"
    "same_page Sv39MetaData Size4K (VirtAddr 0x1234567) (VirtAddr 0x1234001)"
    "pa_add (pa_sub (PhysAddr 0x90000567) (va_align_offset (VirtAddr 0x1234567) (page_size_usize Size4K)))
      (va_align_offset (VirtAddr 0x1234001) (page_size_usize Size4K)) = PhysAddr 0x90000001"
    "rv64_stored 5 = 5"
    by code_simp+
  then show ?thesis
    using update_mapped_page [where a = Sv39, unfolded demo_arch, OF demo_arch_ok demo_pool demo_map_inv _ _ _ u] u
    by auto
qed

text \<open>
  C3: \<^const>\<open>map_region\<close> always returns. Unaligned arguments are refused with no change. On
  success every offset of the region was unmapped before and afterwards translates to the
  target plus that offset, whatever page sizes were used; in every case the addresses outside
  the pages of the region keep their translations.
\<close>
theorem map_region_translates:
  assumes "arch_ok a" "frame_allocator pif (PA_MAX_BITS (arch_md a)) falloc_ok live"
    and "pt_inv (arch_pte a) (arch_md a) pif falloc_ok live pt w"
    and "contains flags MF_READ"
    and "unat (pa_as_usize pa) + unat sz \<le> 2 ^ PA_MAX_BITS (arch_md a)"
  shows "\<exists>r pt' w'. map_region (arch_pte a) (arch_md a) pif va pa sz flags allow_huge pt w = Some (r, pt', w')
    \<and> pt_inv (arch_pte a) (arch_md a) pif falloc_ok live pt' w' \<and> r \<noteq> Panic
    \<and> (\<not> (is_aligned (va_as_usize va) 0x1000 \<and> is_aligned (pa_as_usize pa) 0x1000 \<and> is_aligned sz 0x1000)
        \<longrightarrow> r = Err NotAligned \<and> pt' = pt \<and> w' = w)
    \<and> (\<forall>va'. (\<forall>off < sz. \<not> same_page (arch_md a) Size4K (va_add va off) va') \<longrightarrow>
        pt_query (arch_pte a) (arch_md a) pif va' pt' w' = pt_query (arch_pte a) (arch_md a) pif va' pt w)
    \<and> (r = Ok () \<longrightarrow> (\<forall>off < sz.
        pt_query (arch_pte a) (arch_md a) pif (va_add va off) pt w = Err NotMapped
        \<and> (\<exists>s. pt_query (arch_pte a) (arch_md a) pif (va_add va off) pt' w'
             = Ok (pa_add pa off, arch_stored a flags, s))))"
proof -
  note pt = arch_page_table [OF assms(1,2)]
  obtain res where res: "map_region (arch_pte a) (arch_md a) pif va pa sz flags allow_huge pt w = Some res"
    "if is_aligned (va_as_usize va) 0x1000 \<and> is_aligned (pa_as_usize pa) 0x1000 \<and> is_aligned sz 0x1000
     then page_table.region_result (arch_pte a) (arch_md a) (arch_stored a) pif falloc_ok live va pa sz flags pt w res
     else res = (Err NotAligned, pt, w)"
    using page_table.map_region_result [OF pt assms(3-5), of va allow_huge] by blast
  obtain r pt' w' where r: "res = (r, pt', w')" by (cases res)
  show ?thesis
  proof (cases "is_aligned (va_as_usize va) 0x1000 \<and> is_aligned (pa_as_usize pa) 0x1000 \<and> is_aligned sz 0x1000")
    case True
    then show ?thesis
      using res r unfolding page_table.region_result_def [OF pt]
      by (intro exI [of _ r] exI [of _ pt'] exI [of _ w']) simp
  next
    case False
    then show ?thesis
      using res assms(3) by (intro exI [of _ "Err NotAligned"] exI [of _ pt] exI [of _ w]) auto
  qed
qed

declare map_region_loop.simps [code]

definition demo_region :: "(unit, PhysAddr list \<times> PhysAddr list) paging option" where
  "demo_region = map_region Rv64PTE Sv39MetaData pool_if (VirtAddr 0x1FF000) (PhysAddr 0xA01FF000) 0x201000 3 True
    (fst demo_new) (snd demo_new)"

theorem map_region_translates_witness:
  "\<exists>pt' w' s. demo_region = Some (Ok (), pt', w')
    \<and> pt_query Rv64PTE Sv39MetaData pool_if (VirtAddr 0x234567) pt' w' = Ok (PhysAddr 0xA0234567, 3, s)"
proof -
  have fits: "unat (pa_as_usize (PhysAddr 0xA01FF000)) + unat (0x201000 :: usize) \<le> 2 ^ 56"
    by simp
  have ok: "map_option fst demo_region = Some (Ok ())" and h: "contains 3 MF_READ" "rv64_stored 3 = 3"
    "(0x35567 :: usize) < 0x201000"
    "va_add (VirtAddr 0x1FF000) 0x35567 = VirtAddr 0x234567"
    "pa_add (PhysAddr 0xA01FF000) 0x35567 = PhysAddr 0xA0234567"
    by code_simp+
  obtain pt' w' where r: "demo_region = Some (Ok (), pt', w')" using ok by auto
  have "\<forall>off < 0x201000. \<exists>s. pt_query Rv64PTE Sv39MetaData pool_if (va_add (VirtAddr 0x1FF000) off) pt' w'
      = Ok (pa_add (PhysAddr 0xA01FF000) off, rv64_stored 3, s)"
    using map_region_translates [where a = Sv39, unfolded demo_arch, OF demo_arch_ok demo_pool demo_new_inv h(1) fits,
        of "VirtAddr 0x1FF000" True, folded demo_region_def] unfolding r by blast
  then show ?thesis
    using h(2-5) r by metis
qed

text \<open>
  C4: unmapping a region that \<^const>\<open>map_region\<close> mapped succeeds and restores the translation of
  every address, as long as the region is not longer than the address space.
\<close>
theorem unmap_region_restores:
  assumes "arch_ok a" "frame_allocator pif (PA_MAX_BITS (arch_md a)) falloc_ok live"
    and "pt_inv (arch_pte a) (arch_md a) pif falloc_ok live pt w"
    and "contains flags MF_READ"
    and "unat (pa_as_usize pa) + unat sz \<le> 2 ^ PA_MAX_BITS (arch_md a)"
    and "unat sz \<le> 2 ^ VA_MAX_BITS (arch_md a)"
    and "map_region (arch_pte a) (arch_md a) pif va pa sz flags allow_huge pt w = Some (Ok (), pt1, w1)"
  shows "\<exists>w2. unmap_region (arch_pte a) (arch_md a) pif va sz pt1 w1 = (Ok (), pt1, w2)
    \<and> pt_inv (arch_pte a) (arch_md a) pif falloc_ok live pt1 w2
    \<and> (\<forall>va'. pt_query (arch_pte a) (arch_md a) pif va' pt1 w2 = pt_query (arch_pte a) (arch_md a) pif va' pt w)"
  using page_table.region_roundtrip [OF arch_page_table [OF assms(1,2)] assms(3-7)] .

theorem unmap_region_restores_witness:
  "\<exists>pt1 w1 w2. demo_region = Some (Ok (), pt1, w1)
    \<and> unmap_region Rv64PTE Sv39MetaData pool_if (VirtAddr 0x1FF000) 0x201000 pt1 w1 = (Ok (), pt1, w2)
    \<and> pt_query Rv64PTE Sv39MetaData pool_if (VirtAddr 0x234567) pt1 w2 = Err NotMapped"
proof -
  have fits: "unat (pa_as_usize (PhysAddr 0xA01FF000)) + unat (0x201000 :: usize) \<le> 2 ^ 56"
    "unat (0x201000 :: usize) \<le> 2 ^ VA_MAX_BITS Sv39MetaData"
    by (simp_all add: Sv39MetaData_def)
  have ok: "map_option fst demo_region = Some (Ok ())" and h: "contains 3 MF_READ"
    "pt_query Rv64PTE Sv39MetaData pool_if (VirtAddr 0x234567) (fst demo_new) (snd demo_new) = Err NotMapped"
    by code_simp+
  obtain pt1 w1 where r: "demo_region = Some (Ok (), pt1, w1)" using ok by auto
  then show ?thesis
    using unmap_region_restores [where a = Sv39, unfolded demo_arch, OF demo_arch_ok demo_pool demo_new_inv h(1) fits
        r [unfolded demo_region_def]] h(2) by metis
qed

text \<open>
  C8: a new page table maps nothing, and the frames it owns over its life are exactly given
  back when it is dropped: what is live afterwards is what was live and is not one of its
  tables.
\<close>
theorem page_table_frames:
  assumes "arch_ok a" "frame_allocator pif (PA_MAX_BITS (arch_md a)) falloc_ok live"
  shows "(falloc_ok (frames w) \<and> try_new pif w = (Ok pt, w') \<longrightarrow>
      pt_inv (arch_pte a) (arch_md a) pif falloc_ok live pt w'
      \<and> (\<forall>va. pt_query (arch_pte a) (arch_md a) pif va pt w' = Err NotMapped)
      \<and> live (frames (pt_drop pif pt w')) = live (frames w))
    \<and> (pt_inv (arch_pte a) (arch_md a) pif falloc_ok live pta wa \<longrightarrow>
      falloc_ok (frames (pt_drop pif pta wa))
      \<and> live (frames (pt_drop pif pta wa)) = live (frames wa) - set (intrm_tables pta))"
proof -
  note pt = arch_page_table [OF assms]
  have "live (frames (pt_drop pif pt w')) = live (frames w)"
    if "falloc_ok (frames w)" "try_new pif w = (Ok pt, w')"
    using page_table.new_table_ok [OF pt that] page_table.drop_frames [OF pt]
      that(2) by (auto simp: try_new_def split: prod.splits outcome.splits)
  then show ?thesis
    using page_table.new_table_ok(1,2) [OF pt, of w pt w'] page_table.drop_frames [OF pt, of pta wa] by simp
qed

theorem page_table_frames_witness:
  "pool_live (frames (pt_drop pool_if (fst demo_new) (snd demo_new))) = {}
    \<and> pool_live (frames (pt_drop pool_if (fst (snd demo_map)) (snd (snd demo_map)))) = {}"
proof -
  have "pool_live (frames (snd (snd demo_map))) - set (intrm_tables (fst (snd demo_map))) = {}"
    "pool_live (frames demo_machine) = {}"
    by code_simp+
  moreover have "try_new pool_if demo_machine = (Ok (fst demo_new), snd demo_new)"
    using demo_new_ok by (simp add: prod_eq_iff)
  ultimately show ?thesis
    using page_table_frames [where a = Sv39 and pt = "fst demo_new" and w = demo_machine and w' = "snd demo_new"
        and pta = "fst (snd demo_map)" and wa = "snd (snd demo_map)", unfolded demo_arch, OF demo_arch_ok demo_pool]
      demo_pool_ok demo_map_inv
    by simp
qed

text \<open>
  \<^const>\<open>pt_update\<close> does not look at \<^const>\<open>is_unused\<close>: on an address whose last-level table exists it
  reports success and installs a mapping where there was none.
\<close>

lemma update_of_unmapped:
  "pt_query Rv64PTE Sv39MetaData pool_if (VirtAddr 0x1235000) (fst (snd demo_map)) (snd (snd demo_map)) = Err NotMapped"
  "case pt_update Rv64PTE Sv39MetaData pool_if (VirtAddr 0x1235000) (Some (PhysAddr 0x5000)) (Some 3)
      (fst (snd demo_map)) (snd (snd demo_map)) of (r, pt, w) \<Rightarrow> r = Ok Size4K
    \<and> pt_query Rv64PTE Sv39MetaData pool_if (VirtAddr 0x1235000) pt w = Ok (PhysAddr 0x5000, 3, Size4K)"
  by code_simp+

end
