(* ===== verification/Linked_List.thy ===== *)
theory Linked_List
  imports Prelude
begin

text \<open>
  The intrusive circular doubly linked list of the crate \<open>linked_list\<close> (\<open>unsafe_list.rs\<close> and
  the owning wrapper \<open>linked_list.rs\<close>).

  Every object has a cell of links that is uninitialised while it is in no list. The cells
  are a partial map from object addresses, so that reading an uninitialised cell, which is
  undefined behaviour in the source, is the result \<open>None\<close>. A list is the address of its
  first object. The abstraction is the sequence of addresses from the first object on.
\<close>

section \<open>Cells and lists\<close>

record 'p LinksInner =
  l_next :: 'p
  l_prev :: 'p

type_synonym 'p links = "'p \<Rightarrow> 'p LinksInner option"

record 'p ulist =
  l_first :: "'p option"

definition list_new :: "'p ulist" where
  "list_new = \<lparr> l_first = None \<rparr>"

definition list_is_empty :: "'p ulist \<Rightarrow> bool" where
  "list_is_empty l = (l_first l = None)"

definition insert_only_entry :: "'p \<Rightarrow> 'p ulist \<times> 'p links \<Rightarrow> 'p ulist \<times> 'p links" where
  "insert_only_entry obj s = (case s of (l, h) \<Rightarrow>
    (l\<lparr> l_first := Some obj \<rparr>, h(obj \<mapsto> \<lparr> l_next = obj, l_prev = obj \<rparr>)))"

definition list_insert_after ::
  "'p \<Rightarrow> 'p \<Rightarrow> 'p ulist \<times> 'p links \<Rightarrow> ('p ulist \<times> 'p links) option" where
  "list_insert_after existing new s = (case s of (l, h) \<Rightarrow>
    (case h existing of
       None \<Rightarrow> None
     | Some inner \<Rightarrow>
         let next_e = l_next inner;
             h1 = h(new \<mapsto> \<lparr> l_next = next_e, l_prev = existing \<rparr>);
             h2 = h1(existing := map_option (\<lambda>i. i\<lparr> l_next := new \<rparr>) (h1 existing))
         in (case h2 next_e of
               None \<Rightarrow> None
             | Some n \<Rightarrow> Some (l, h2(next_e \<mapsto> n\<lparr> l_prev := new \<rparr>)))))"

definition list_insert_before ::
  "'p \<Rightarrow> 'p \<Rightarrow> 'p ulist \<times> 'p links \<Rightarrow> ('p ulist \<times> 'p links) option" where
  "list_insert_before existing new s = (case s of (l, h) \<Rightarrow>
    (case h existing of
       None \<Rightarrow> None
     | Some inner \<Rightarrow>
         (case list_insert_after (l_prev inner) new s of
            None \<Rightarrow> None
          | Some (l', h') \<Rightarrow>
              (case l_first l' of
                 None \<Rightarrow> None
               | Some f \<Rightarrow> Some (if f = existing then l'\<lparr> l_first := Some new \<rparr> else l', h')))))"

definition list_push_back :: "'p \<Rightarrow> 'p ulist \<times> 'p links \<Rightarrow> ('p ulist \<times> 'p links) option" where
  "list_push_back obj s = (case s of (l, h) \<Rightarrow>
    (case l_first l of
       Some f \<Rightarrow> (case h f of None \<Rightarrow> None | Some inner \<Rightarrow> list_insert_after (l_prev inner) obj s)
     | None \<Rightarrow> Some (insert_only_entry obj s)))"

definition list_push_front :: "'p \<Rightarrow> 'p ulist \<times> 'p links \<Rightarrow> ('p ulist \<times> 'p links) option" where
  "list_push_front obj s = (case s of (l, h) \<Rightarrow>
    (case l_first l of
       Some f \<Rightarrow> list_insert_before f obj s
     | None \<Rightarrow> Some (insert_only_entry obj s)))"

definition list_remove :: "'p \<Rightarrow> 'p ulist \<times> 'p links \<Rightarrow> ('p ulist \<times> 'p links) option" where
  "list_remove entry s = (case s of (l, h) \<Rightarrow>
    (case h entry of
       None \<Rightarrow> None
     | Some inner \<Rightarrow>
         let next_e = l_next inner; prev_e = l_prev inner; h1 = h(entry := None) in
         if next_e = entry then Some (l\<lparr> l_first := None \<rparr>, h1)
         else (case h1 prev_e of
             None \<Rightarrow> None
           | Some p \<Rightarrow>
               let h2 = h1(prev_e \<mapsto> p\<lparr> l_next := next_e \<rparr>) in
               (case h2 next_e of
                  None \<Rightarrow> None
                | Some n \<Rightarrow>
                    let h3 = h2(next_e \<mapsto> n\<lparr> l_prev := prev_e \<rparr>) in
                    (case l_first l of
                       None \<Rightarrow> None
                     | Some f \<Rightarrow>
                         Some (if f = entry then l\<lparr> l_first := Some next_e \<rparr> else l, h3))))))"

definition list_front :: "'p ulist \<Rightarrow> 'p option" where
  "list_front l = l_first l"

text \<open>The inner option is \<open>None\<close> for an uninitialised cell.\<close>

definition list_back :: "'p ulist \<times> 'p links \<Rightarrow> 'p option option" where
  "list_back s = (case s of (l, h) \<Rightarrow>
    (case l_first l of
       None \<Rightarrow> Some None
     | Some f \<Rightarrow> (case h f of None \<Rightarrow> None | Some inner \<Rightarrow> Some (Some (l_prev inner)))))"

section \<open>Cursors\<close>

definition cursor_move_next :: "'p ulist \<times> 'p links \<Rightarrow> 'p option \<Rightarrow> 'p option option" where
  "cursor_move_next s cur = (case s of (l, h) \<Rightarrow>
    (case cur of
       None \<Rightarrow> Some (l_first l)
     | Some c \<Rightarrow>
         (case l_first l of
            None \<Rightarrow> Some None
          | Some head \<Rightarrow>
              (case h c of
                 None \<Rightarrow> None
               | Some inner \<Rightarrow> Some (if l_next inner \<noteq> head then Some (l_next inner) else None)))))"

definition cursor_move_prev :: "'p ulist \<times> 'p links \<Rightarrow> 'p option \<Rightarrow> 'p option option" where
  "cursor_move_prev s cur = (case s of (l, h) \<Rightarrow>
    (case l_first l of
       None \<Rightarrow> Some None
     | Some head \<Rightarrow>
         if cur = Some head then Some None
         else (case h (case cur of None \<Rightarrow> head | Some c \<Rightarrow> c) of
                 None \<Rightarrow> None
               | Some inner \<Rightarrow> Some (Some (l_prev inner)))))"

section \<open>The owning list\<close>

text \<open>
  \<open>remove\<close> and \<open>pop_front\<close> of \<open>linked_list.rs\<close> give back the object they take out.
\<close>

definition owned_remove :: "'p \<Rightarrow> 'p ulist \<times> 'p links \<Rightarrow> ('p option \<times> 'p ulist \<times> 'p links) option" where
  "owned_remove data s = map_option (\<lambda>s'. (Some data, s')) (list_remove data s)"

definition owned_pop_front :: "'p ulist \<times> 'p links \<Rightarrow> ('p option \<times> 'p ulist \<times> 'p links) option" where
  "owned_pop_front s = (case list_front (fst s) of
     None \<Rightarrow> Some (None, s)
   | Some entry \<Rightarrow> map_option (\<lambda>s'. (Some entry, s')) (list_remove entry s))"

section \<open>Abstraction to sequences\<close>

text \<open>Consecutive objects of a path point at each other.\<close>

fun linked :: "'p links \<Rightarrow> 'p list \<Rightarrow> bool" where
  "linked h (a # b # zs) \<longleftrightarrow>
    map_option l_next (h a) = Some b \<and> map_option l_prev (h b) = Some a \<and> linked h (b # zs)"
| "linked h _ \<longleftrightarrow> True"

definition list_repr :: "'p ulist \<times> 'p links \<Rightarrow> 'p list \<Rightarrow> bool" where
  "list_repr s xs \<longleftrightarrow> distinct xs \<and>
    (case xs of [] \<Rightarrow> l_first (fst s) = None
     | x # _ \<Rightarrow> l_first (fst s) = Some x \<and> linked (snd s) (xs @ [x]))"

lemma linked_append: "linked h (us @ a # vs) \<longleftrightarrow> linked h (us @ [a]) \<and> linked h (a # vs)"
  by (induction h us rule: linked.induct) (auto simp: neq_Nil_conv split: list.splits)

text \<open>A path only depends on the forward links of all but the last object and on the
  backward links of all but the first.\<close>

lemma linked_cong:
  assumes "linked h zs"
    and "\<And>a. a \<in> set (butlast zs) \<Longrightarrow> map_option l_next (h' a) = map_option l_next (h a)"
    and "\<And>a. a \<in> set (tl zs) \<Longrightarrow> map_option l_prev (h' a) = map_option l_prev (h a)"
  shows "linked h' zs"
  using assms
proof (induction h zs rule: linked.induct)
  case (1 h a b zs)
  have "linked h' (b # zs)"
    using 1 by (intro "1.IH") (auto split: if_splits)
  then show ?case using 1 by simp
qed simp_all

abbreviation (input) nx :: "'p links \<Rightarrow> 'p \<Rightarrow> 'p option" where
  "nx h p \<equiv> map_option l_next (h p)"

abbreviation (input) pv :: "'p links \<Rightarrow> 'p \<Rightarrow> 'p option" where
  "pv h p \<equiv> map_option l_prev (h p)"

lemma insert_after_links:
  assumes "nx h a = Some b" "h b \<noteq> None" "new \<noteq> a" "new \<noteq> b"
  shows "\<exists>h'. list_insert_after a new (l, h) = Some (l, h')
    \<and> nx h' a = Some new \<and> pv h' b = Some new \<and> nx h' new = Some b \<and> pv h' new = Some a
    \<and> (\<forall>p. p \<noteq> a \<longrightarrow> p \<noteq> new \<longrightarrow> nx h' p = nx h p) \<and> (\<forall>p. p \<noteq> b \<longrightarrow> p \<noteq> new \<longrightarrow> pv h' p = pv h p)"
  using assms by (cases "a = b") (auto simp: list_insert_after_def Let_def)

lemma insert_after_path:
  assumes lk: "linked h (us @ a # b # ws)"
    and d: "distinct (us @ a # butlast (b # ws))" "distinct (tl (us @ [a]) @ b # ws)"
    and new: "new \<notin> set (us @ a # b # ws)"
  shows "\<exists>h'. list_insert_after a new (l, h) = Some (l, h') \<and> linked h' (us @ a # new # b # ws)"
proof -
  have ab: "nx h a = Some b" "pv h b = Some a" "linked h (us @ [a])" "linked h (b # ws)"
    using lk linked_append [of h us a "b # ws"] by auto
  obtain h' where h': "list_insert_after a new (l, h) = Some (l, h')" "nx h' a = Some new"
    "pv h' b = Some new" "nx h' new = Some b" "pv h' new = Some a"
    "\<And>p. p \<noteq> a \<Longrightarrow> p \<noteq> new \<Longrightarrow> nx h' p = nx h p" "\<And>p. p \<noteq> b \<Longrightarrow> p \<noteq> new \<Longrightarrow> pv h' p = pv h p"
    using insert_after_links [of h a b new l] ab(1,2) new by auto
  have "linked h' (us @ [a])"
  proof (rule linked_cong [OF ab(3)])
    fix p assume p: "p \<in> set (butlast (us @ [a]))"
    then show "nx h' p = nx h p" using d(1) new by (intro h'(6)) auto
  next
    fix p assume p: "p \<in> set (tl (us @ [a]))"
    then have "p \<in> set (us @ [a])" by (cases us) auto
    then show "pv h' p = pv h p" using p d(2) new by (intro h'(7)) auto
  qed
  moreover have "linked h' (b # ws)"
  proof (rule linked_cong [OF ab(4)])
    fix p assume p: "p \<in> set (butlast (b # ws))"
    then have "p \<in> set (b # ws)" by (rule in_set_butlastD)
    then show "nx h' p = nx h p" using p d(1) new by (intro h'(6)) auto
  next
    fix p assume "p \<in> set (tl (b # ws))"
    then show "pv h' p = pv h p" using d(2) new by (intro h'(7)) auto
  qed
  ultimately have "linked h' (us @ a # new # b # ws)"
    using h'(2-5) linked_append [of h' us a "new # b # ws"] by simp
  then show ?thesis using h'(1) by blast
qed

lemma remove_links:
  assumes "nx h e = Some b" "pv h e = Some a" "h a \<noteq> None" "h b \<noteq> None" "e \<noteq> a" "e \<noteq> b"
    and "l_first l = Some f"
  shows "\<exists>h'. list_remove e (l, h) = Some (if f = e then l\<lparr> l_first := Some b \<rparr> else l, h')
    \<and> nx h' a = Some b \<and> pv h' b = Some a
    \<and> (\<forall>p. p \<noteq> a \<longrightarrow> p \<noteq> e \<longrightarrow> nx h' p = nx h p) \<and> (\<forall>p. p \<noteq> b \<longrightarrow> p \<noteq> e \<longrightarrow> pv h' p = pv h p)"
  using assms by (cases "a = b") (auto simp: list_remove_def Let_def)

text \<open>Splitting the circular path of a list at an object.\<close>

lemma list_repr_Nil [simp]: "list_repr s [] \<longleftrightarrow> l_first (fst s) = None"
  by (simp add: list_repr_def)

lemma list_repr_iff:
  "xs \<noteq> [] \<Longrightarrow> list_repr s xs \<longleftrightarrow>
    distinct xs \<and> l_first (fst s) = Some (hd xs) \<and> linked (snd s) (xs @ [hd xs])"
  by (cases xs) (auto simp: list_repr_def)

lemma hd_append_Cons: "hd (us @ a # vs) = hd (us @ [a])"
  by (cases us) simp_all

lemma list_repr_first: "list_repr s xs \<Longrightarrow> l_first (fst s) = (if xs = [] then None else Some (hd xs))"
  by (cases "xs = []") (auto simp: list_repr_iff)

lemma linked_last: "linked h (us @ [a, b]) \<Longrightarrow> nx h a = Some b \<and> pv h b = Some a"
  using linked_append [of h us a "[b]"] by simp

lemma list_repr_insert_after:
  assumes r: "list_repr (l, h) (us @ a # vs)" and new: "new \<notin> set (us @ a # vs)"
  shows "\<exists>s'. list_insert_after a new (l, h) = Some s' \<and> fst s' = l
    \<and> list_repr s' (us @ a # new # vs)"
proof -
  define x where "x = hd (us @ [a])"
  have d: "distinct (us @ a # vs)" and f: "l_first l = Some x" and lk: "linked h (us @ a # vs @ [x])"
    using r by (simp_all add: list_repr_iff hd_append_Cons [of us a vs] flip: x_def)
  obtain b ws where b: "vs @ [x] = b # ws" by (cases "vs @ [x]") auto
  have x_mem: "x \<in> set (us @ a # vs)" unfolding x_def by (cases us) simp_all
  have bl: "butlast (b # ws) = vs" using b by (metis butlast_snoc)
  have "distinct (tl (us @ [a]) @ vs @ [x])"
    using d unfolding x_def by (cases us) auto
  then have "\<exists>h'. list_insert_after a new (l, h) = Some (l, h') \<and> linked h' (us @ a # new # b # ws)"
    using lk d bl new x_mem unfolding b by (intro insert_after_path) (auto simp flip: b)
  then obtain h' where h': "list_insert_after a new (l, h) = Some (l, h')"
    "linked h' (us @ a # new # vs @ [x])"
    using b by auto
  then have "list_repr (l, h') (us @ a # new # vs)"
    using f d new by (auto simp: list_repr_iff hd_append_Cons [of us a "new # vs"] simp flip: x_def)
  then show ?thesis using h'(1) by auto
qed

lemma list_repr_prev_first:
  assumes "list_repr (l, h) (us @ [a])"
  shows "l_first l = Some (hd (us @ [a]))" "pv h (hd (us @ [a])) = Some a" "nx h a = Some (hd (us @ [a]))"
  using assms linked_last [of h us a "hd (us @ [a])"] by (simp_all add: list_repr_iff)

lemma list_repr_push_back:
  assumes "list_repr s xs" "new \<notin> set xs"
  shows "\<exists>s'. list_push_back new s = Some s' \<and> list_repr s' (xs @ [new])"
proof (cases xs rule: rev_cases)
  case Nil
  then show ?thesis
    using assms by (auto simp: list_push_back_def insert_only_entry_def list_repr_iff split: prod.splits)
next
  case (snoc us a)
  obtain l h where s: "s = (l, h)" by (cases s)
  have r: "list_repr (l, h) (us @ [a])" using assms(1) snoc s by simp
  have "list_push_back new s = list_insert_after a new (l, h)"
    using list_repr_prev_first [OF r] s by (auto simp: list_push_back_def)
  then show ?thesis
    using list_repr_insert_after [OF r, of new] assms(2) snoc by auto
qed

lemma list_repr_push_front:
  assumes "list_repr s xs" "new \<notin> set xs"
  shows "\<exists>s'. list_push_front new s = Some s' \<and> list_repr s' (new # xs)"
proof (cases xs rule: rev_cases)
  case Nil
  then show ?thesis
    using assms by (auto simp: list_push_front_def insert_only_entry_def list_repr_iff split: prod.splits)
next
  case (snoc us a)
  obtain l h where s: "s = (l, h)" by (cases s)
  define x where "x = hd (us @ [a])"
  have r: "list_repr (l, h) (us @ [a])" using assms(1) snoc s by simp
  obtain s' where s': "list_insert_after a new (l, h) = Some s'" "fst s' = l"
    "list_repr s' (us @ [a, new])"
    using list_repr_insert_after [OF r, of new] assms(2) snoc by auto
  have eq: "list_push_front new s = Some (l\<lparr> l_first := Some new \<rparr>, snd s')"
    using list_repr_prev_first [OF r] s s'(1,2)
    by (cases s') (auto simp: list_push_front_def list_insert_before_def)
  have "linked (snd s') ((us @ [a]) @ new # [x])" "distinct (us @ [a, new])"
    using s'(3) by (simp_all add: list_repr_iff hd_append_Cons [of us a "[new]"] flip: x_def)
  moreover have "linked (snd s') (new # us @ [a]) \<longleftrightarrow> nx (snd s') new = Some x \<and> pv (snd s') x = Some new
      \<and> linked (snd s') (us @ [a])"
    by (cases us) (auto simp: x_def)
  ultimately have "linked (snd s') ((new # us @ [a]) @ [new])" "distinct (new # us @ [a])"
    using linked_append [of "snd s'" "us @ [a]" new "[x]"] linked_append [of "snd s'" "us" a "[new]"]
      linked_append [of "snd s'" "new # us" a "[new]"]
    by auto
  then have "list_repr (l\<lparr> l_first := Some new \<rparr>, snd s') (new # xs)"
    using snoc by (simp add: list_repr_iff)
  then show ?thesis using eq by blast
qed

lemma remove_path:
  assumes h': "nx h' a = Some b" "pv h' b = Some a"
    "\<And>p. p \<noteq> a \<Longrightarrow> p \<noteq> e \<Longrightarrow> nx h' p = nx h p" "\<And>p. p \<noteq> b \<Longrightarrow> p \<noteq> e \<Longrightarrow> pv h' p = pv h p"
    and lk: "linked h (us @ [a])" "linked h (b # ws)"
    and d: "distinct (us @ a # butlast (b # ws))" "distinct (tl (us @ [a]) @ b # ws)"
    and e: "e \<notin> set (us @ butlast (b # ws))" "e \<notin> set (tl (us @ [a]) @ ws)"
  shows "linked h' (us @ a # b # ws)"
proof -
  have "linked h' (us @ [a])"
  proof (rule linked_cong [OF lk(1)])
    fix p assume "p \<in> set (butlast (us @ [a]))"
    then show "nx h' p = nx h p" using d(1) e(1) by (intro h'(3)) auto
  next
    fix p assume "p \<in> set (tl (us @ [a]))"
    then show "pv h' p = pv h p" using d(2) e(2) by (intro h'(4)) auto
  qed
  moreover have "linked h' (b # ws)"
  proof (rule linked_cong [OF lk(2)])
    fix p assume "p \<in> set (butlast (b # ws))"
    then show "nx h' p = nx h p" using d(1) e(1) by (intro h'(3)) auto
  next
    fix p assume "p \<in> set (tl (b # ws))"
    then show "pv h' p = pv h p" using d(2) e(2) by (intro h'(4)) auto
  qed
  ultimately show ?thesis
    using h'(1,2) linked_append [of h' us a "b # ws"] by simp
qed

lemma list_repr_remove:
  assumes r: "list_repr s (us @ e # vs)"
  shows "\<exists>s'. list_remove e s = Some s' \<and> list_repr s' (us @ vs)"
proof -
  obtain l h where s: "s = (l, h)" by (cases s)
  have d: "distinct (us @ e # vs)" and f: "l_first l = Some (hd (us @ [e]))"
    and lk: "linked h (us @ e # vs @ [hd (us @ [e])])"
    using r s by (simp_all add: list_repr_iff hd_append_Cons [of us e vs])
  show ?thesis
  proof (cases us rule: rev_cases)
    case Nil
    show ?thesis
    proof (cases vs rule: rev_cases)
      case empty: Nil
      then show ?thesis using lk s Nil by (auto simp: list_remove_def)
    next
      case (snoc ws a)
      define b where "b = hd (ws @ [a])"
      obtain bs where bs: "ws @ [a] = b # bs" by (cases "ws @ [a]") (auto simp: b_def)
      have "linked h ((e # ws) @ a # [e])" using lk Nil snoc by simp
      then have split: "linked h (e # ws @ [a])" "linked h [a, e]"
        unfolding linked_append [of h "e # ws" a "[e]"] by simp_all
      then have ends: "nx h e = Some b" "pv h b = Some e" "nx h a = Some e" "pv h e = Some a" "linked h (ws @ [a])"
        unfolding bs by simp_all
      have "b \<in> set vs" unfolding b_def snoc by (rule hd_in_set) simp
      then have ab: "e \<noteq> a" "e \<noteq> b" using d Nil snoc by auto
      obtain h' where h': "list_remove e (l, h) = Some (l\<lparr> l_first := Some b \<rparr>, h')"
        "nx h' a = Some b" "pv h' b = Some a"
        "\<And>p. p \<noteq> a \<Longrightarrow> p \<noteq> e \<Longrightarrow> nx h' p = nx h p" "\<And>p. p \<noteq> b \<Longrightarrow> p \<noteq> e \<Longrightarrow> pv h' p = pv h p"
        using remove_links [of h e b a l e] ends ab f Nil by auto
      have db: "distinct (b # bs)" "e \<notin> set (b # bs)" using d Nil snoc by (simp_all flip: bs)
      have "linked h' (ws @ a # [b])"
      proof (rule remove_path [OF h'(2-5) ends(5)])
        show "linked h [b]" by simp
        show "distinct (ws @ a # butlast [b])" "e \<notin> set (ws @ butlast [b])"
          using d Nil snoc by simp_all
        show "distinct (tl (ws @ [a]) @ [b])" "e \<notin> set (tl (ws @ [a]) @ [])"
          using db unfolding bs by simp_all
      qed
      then have "list_repr (l\<lparr> l_first := Some b \<rparr>, h') vs"
        using snoc d Nil unfolding b_def by (simp add: list_repr_iff)
      then show ?thesis using h'(1) s Nil by auto
    qed
  next
    case (snoc ps a)
    define x where "x = hd (ps @ [a])"
    obtain b ws where b: "vs @ [x] = b # ws" by (cases "vs @ [x]") auto
    have xx: "hd (us @ [e]) = x" using snoc by (simp add: x_def hd_append_Cons [of ps a "[e]"])
    have "linked h ((ps @ [a]) @ e # b # ws)" using lk snoc b xx by simp
    then have ends: "linked h (ps @ [a])" "nx h a = Some e" "pv h e = Some a" "nx h e = Some b" "pv h b = Some e"
      "linked h (b # ws)"
      using linked_append [of h "ps @ [a]" e "b # ws"] linked_append [of h ps a "[e]"] by auto
    have "x \<in> set (ps @ [a])" unfolding x_def by (rule hd_in_set) simp
    moreover have "b \<in> set (vs @ [x])" unfolding b by simp
    ultimately have ab: "e \<noteq> a" "e \<noteq> b" "e \<noteq> x" using d snoc by auto
    obtain h' where h': "list_remove e (l, h) = Some (l, h')" "nx h' a = Some b" "pv h' b = Some a"
        "\<And>p. p \<noteq> a \<Longrightarrow> p \<noteq> e \<Longrightarrow> nx h' p = nx h p" "\<And>p. p \<noteq> b \<Longrightarrow> p \<noteq> e \<Longrightarrow> pv h' p = pv h p"
      using remove_links [of h e b a l x] ends ab f xx by auto
    have bl: "butlast (b # ws) = vs" using b by (metis butlast_snoc)
    have dd: "distinct (tl (ps @ [a]) @ vs @ [x])" "e \<notin> set (tl (ps @ [a]) @ vs @ [x])"
      using d snoc ab(3) by (cases ps; auto simp: x_def)+
    have "linked h' (ps @ a # b # ws)"
    proof (rule remove_path [OF h'(2-5) ends(1,6)])
      show "distinct (ps @ a # butlast (b # ws))" using d snoc bl by simp
      show "distinct (tl (ps @ [a]) @ b # ws)" using dd(1) b by simp
      show "e \<notin> set (ps @ butlast (b # ws))" using d snoc bl by simp
      show "e \<notin> set (tl (ps @ [a]) @ ws)" using dd(2) unfolding b by auto
    qed
    then have "linked h' (ps @ a # vs @ [x])" using b by simp
    then have "list_repr (l, h') (us @ vs)"
      using d snoc f xx by (auto simp: list_repr_iff hd_append_Cons [of ps a vs] simp flip: x_def)
    then show ?thesis using h'(1) s by blast
  qed
qed

lemma owned_pop_front_spec:
  "list_repr s [] \<Longrightarrow> owned_pop_front s = Some (None, s)"
  "list_repr s (x # xs) \<Longrightarrow> \<exists>s'. owned_pop_front s = Some (Some x, s') \<and> list_repr s' xs"
  using list_repr_remove [of s "[]" x xs]
  by (auto simp: owned_pop_front_def list_front_def list_repr_iff)

lemma owned_remove_spec:
  "list_repr s xs \<Longrightarrow> x \<in> set xs \<Longrightarrow>
    \<exists>s'. owned_remove x s = Some (Some x, s') \<and> list_repr s' (remove1 x xs)"
proof -
  assume r: "list_repr s xs" and "x \<in> set xs"
  then obtain us vs where xs: "xs = us @ x # vs" by (meson split_list)
  then have "x \<notin> set us" using r by (auto simp: list_repr_iff)
  then have "remove1 x xs = us @ vs" using xs by (simp add: remove1_append)
  then show ?thesis
    using list_repr_remove [of s us x vs] r xs by (auto simp: owned_remove_def)
qed

lemma list_back_spec: "list_repr s xs \<Longrightarrow> list_back s = Some (if xs = [] then None else Some (last xs))"
proof (cases xs rule: rev_cases)
  case Nil
  assume "list_repr s xs"
  with Nil show ?thesis by (auto simp: list_back_def split: prod.splits)
next
  case (snoc us a)
  assume r: "list_repr s xs"
  obtain l h where s: "s = (l, h)" by (cases s)
  show ?thesis
    using list_repr_prev_first [of l h us a] r snoc s by (auto simp: list_back_def)
qed

text \<open>A cursor visits the objects in order, forwards and backwards, and leaves the list at the ends.\<close>

lemma cursor_next_spec:
  assumes "list_repr s xs" "i < length xs"
  shows "cursor_move_next s (Some (xs ! i)) = Some (if Suc i < length xs then Some (xs ! Suc i) else None)"
    and "cursor_move_next s None = Some (if xs = [] then None else Some (xs ! 0))"
proof -
  obtain l h where s: "s = (l, h)" by (cases s)
  have ne: "xs \<noteq> []" using assms(2) by auto
  have f: "l_first l = Some (hd xs)" and lk: "linked h (xs @ [hd xs])" and d: "distinct xs"
    using assms(1) s ne by (simp_all add: list_repr_iff)
  have "xs @ [hd xs] = take i xs @ xs ! i # (drop (Suc i) xs @ [hd xs])"
    using id_take_nth_drop [OF assms(2)] by (metis append.assoc append_Cons)
  then have "linked h (xs ! i # (drop (Suc i) xs @ [hd xs]))"
    using lk linked_append [of h "take i xs" "xs ! i"] by metis
  then have "nx h (xs ! i) = Some (if Suc i < length xs then xs ! Suc i else hd xs)"
    by (cases "Suc i < length xs") (simp_all add: Cons_nth_drop_Suc [symmetric])
  moreover have "xs ! Suc i \<noteq> hd xs" if "Suc i < length xs"
    using d that ne by (simp add: hd_conv_nth nth_eq_iff_index_eq)
  ultimately show "cursor_move_next s (Some (xs ! i)) = Some (if Suc i < length xs then Some (xs ! Suc i) else None)"
    using f s by (auto simp: cursor_move_next_def)
  show "cursor_move_next s None = Some (if xs = [] then None else Some (xs ! 0))"
    using f s ne by (simp add: cursor_move_next_def hd_conv_nth)
qed

lemma cursor_prev_spec:
  assumes "list_repr s xs" "i < length xs"
  shows "cursor_move_prev s (Some (xs ! i)) = Some (if i = 0 then None else Some (xs ! (i - 1)))"
proof -
  obtain l h where s: "s = (l, h)" by (cases s)
  have ne: "xs \<noteq> []" using assms(2) by auto
  have f: "l_first l = Some (hd xs)" and lk: "linked h (xs @ [hd xs])" and d: "distinct xs"
    using assms(1) s ne by (simp_all add: list_repr_iff)
  show ?thesis
  proof (cases i)
    case 0
    then show ?thesis using f s ne by (simp add: cursor_move_prev_def hd_conv_nth)
  next
    case (Suc j)
    have "xs = take j xs @ xs ! j # drop i xs" "drop i xs = xs ! i # drop (Suc i) xs"
      using id_take_nth_drop [of j xs] assms(2) Suc by (simp_all add: Cons_nth_drop_Suc)
    then have "xs @ [hd xs] = take j xs @ xs ! j # xs ! i # (drop (Suc i) xs @ [hd xs])"
      by (metis append.assoc append_Cons)
    then have "linked h (xs ! j # xs ! i # (drop (Suc i) xs @ [hd xs]))"
      using lk linked_append [of h "take j xs" "xs ! j"] by metis
    moreover have "xs ! i \<noteq> hd xs"
      using d assms(2) Suc ne by (simp add: hd_conv_nth nth_eq_iff_index_eq)
    ultimately show ?thesis using f s Suc by (auto simp: cursor_move_prev_def)
  qed
qed

section \<open>The list as a queue interface\<close>

text \<open>
  What the FIFO scheduler uses of a list: a queue of distinct objects with removal from the
  middle. The operations are partial where the source leaves the behaviour undefined.
\<close>

locale intrusive_queue =
  fixes repr :: "'s \<Rightarrow> 'p list \<Rightarrow> bool"
    and q_push_back :: "'p \<Rightarrow> 's \<Rightarrow> 's option"
    and q_pop_front :: "'s \<Rightarrow> ('p option \<times> 's) option"
    and q_remove :: "'p \<Rightarrow> 's \<Rightarrow> ('p option \<times> 's) option"
  assumes repr_distinct: "repr s xs \<Longrightarrow> distinct xs"
    and push_back_law: "repr s xs \<Longrightarrow> x \<notin> set xs \<Longrightarrow> \<exists>s'. q_push_back x s = Some s' \<and> repr s' (xs @ [x])"
    and pop_empty_law: "repr s [] \<Longrightarrow> q_pop_front s = Some (None, s)"
    and pop_front_law: "repr s (x # xs) \<Longrightarrow> \<exists>s'. q_pop_front s = Some (Some x, s') \<and> repr s' xs"
    and remove_law: "repr s xs \<Longrightarrow> x \<in> set xs \<Longrightarrow>
      \<exists>s'. q_remove x s = Some (Some x, s') \<and> repr s' (remove1 x xs)"
begin

text \<open>Pushing a sequence and popping as often gives it back.\<close>

primrec push_all :: "'p list \<Rightarrow> 's \<Rightarrow> 's option" where
  "push_all [] s = Some s"
| "push_all (x # xs) s = Option.bind (q_push_back x s) (push_all xs)"

primrec pop_n :: "nat \<Rightarrow> 's \<Rightarrow> ('p list \<times> 's) option" where
  "pop_n 0 s = Some ([], s)"
| "pop_n (Suc n) s = Option.bind (q_pop_front s)
    (\<lambda>(x, s'). case x of None \<Rightarrow> Some ([], s')
      | Some y \<Rightarrow> Option.bind (pop_n n s') (\<lambda>(ys, s''). Some (y # ys, s'')))"

lemma push_all_spec:
  "repr s xs \<Longrightarrow> distinct (xs @ ys) \<Longrightarrow> \<exists>s'. push_all ys s = Some s' \<and> repr s' (xs @ ys)"
proof (induction ys arbitrary: s xs)
  case (Cons y ys)
  then obtain s1 where "q_push_back y s = Some s1" "repr s1 (xs @ [y])"
    using push_back_law [of s xs y] by auto
  then show ?case using Cons.IH [of s1 "xs @ [y]"] Cons.prems by auto
qed simp

lemma pop_n_spec:
  "repr s (xs @ ys) \<Longrightarrow> \<exists>s'. pop_n (length xs) s = Some (xs, s') \<and> repr s' ys"
proof (induction xs arbitrary: s)
  case (Cons x xs)
  then obtain s1 where "q_pop_front s = Some (Some x, s1)" "repr s1 (xs @ ys)"
    using pop_front_law [of s x "xs @ ys"] by auto
  then show ?case using Cons.IH [of s1] by auto
qed simp

lemma fifo_order:
  assumes "repr s []" "distinct xs"
  shows "\<exists>s1 s2. push_all xs s = Some s1 \<and> pop_n (length xs) s1 = Some (xs, s2) \<and> repr s2 []"
  using push_all_spec [OF assms(1), of xs] pop_n_spec [of _ xs "[]"] assms(2) by fastforce

end

interpretation linked_list: intrusive_queue list_repr list_push_back owned_pop_front owned_remove
proof
  fix s :: "'p ulist \<times> 'p links" and xs assume "list_repr s xs"
  then show "distinct xs" by (cases "xs = []") (auto simp: list_repr_iff)
qed (rule list_repr_push_back owned_pop_front_spec owned_remove_spec; assumption)+

section \<open>Property\<close>



end
