(* ===== verification/Btree_Map.thy ===== *)
theory Btree_Map
  imports Main
begin

text \<open>
  The ordered map \<open>BTreeMap\<close> of the Rust standard library, as an association list with
  strictly increasing keys. The development uses it for the ready queue of the completely
  fair scheduler and for the directories of the file systems.
\<close>

type_synonym ('k, 'v) btree_map = "('k \<times> 'v) list"

definition btree_ok :: "('k::linorder, 'v) btree_map \<Rightarrow> bool" where
  "btree_ok m \<longleftrightarrow> sorted_wrt (<) (map fst m)"

text \<open>\<open>get\<close>, \<open>insert\<close>, \<open>remove\<close>, \<open>first_key_value\<close> and \<open>pop_first\<close>.\<close>

definition btree_get :: "'k \<Rightarrow> ('k, 'v) btree_map \<Rightarrow> 'v option" where
  "btree_get k m = map_of m k"

fun btree_insert :: "'k::linorder \<Rightarrow> 'v \<Rightarrow> ('k, 'v) btree_map \<Rightarrow> ('k, 'v) btree_map" where
  "btree_insert k v [] = [(k, v)]"
| "btree_insert k v ((l, u) # m) =
    (if k < l then (k, v) # (l, u) # m
     else if k = l then (k, v) # m
     else (l, u) # btree_insert k v m)"

definition btree_remove :: "'k \<Rightarrow> ('k, 'v) btree_map \<Rightarrow> ('k, 'v) btree_map" where
  "btree_remove k m = filter (\<lambda>(l, _). l \<noteq> k) m"

definition btree_first :: "('k, 'v) btree_map \<Rightarrow> ('k \<times> 'v) option" where
  "btree_first m = (case m of [] \<Rightarrow> None | x # _ \<Rightarrow> Some x)"

definition btree_pop_first :: "('k, 'v) btree_map \<Rightarrow> ('k \<times> 'v) option \<times> ('k, 'v) btree_map" where
  "btree_pop_first m = (case m of [] \<Rightarrow> (None, []) | x # m' \<Rightarrow> (Some x, m'))"

lemma btree_ok_Nil [simp]: "btree_ok []"
  by (simp add: btree_ok_def)

lemma btree_ok_Cons: "btree_ok ((k, v) # m) \<longleftrightarrow> (\<forall>l\<in>fst ` set m. k < l) \<and> btree_ok m"
  by (simp add: btree_ok_def)

lemma btree_ok_distinct: "btree_ok m \<Longrightarrow> distinct (map fst m)"
  unfolding btree_ok_def by (induction m) (auto simp: less_le)

lemma set_btree_insert:
  "btree_ok m \<Longrightarrow> set (btree_insert k v m) = insert (k, v) {x \<in> set m. fst x \<noteq> k}"
proof (induction m)
  case (Cons x m)
  obtain l u where x: "x = (l, u)" by (cases x)
  then have ok: "btree_ok m" and lt: "\<And>a. a \<in> fst ` set m \<Longrightarrow> l < a"
    using Cons.prems by (auto simp: btree_ok_Cons)
  have "k < l \<or> k = l \<Longrightarrow> (k, b) \<notin> set m" for b
    using lt [of k] by force
  then show ?case
    using Cons.IH [OF ok] x by auto
qed simp

lemma btree_ok_insert: "btree_ok m \<Longrightarrow> btree_ok (btree_insert k v m)"
proof (induction m)
  case (Cons x m)
  obtain l u where x: "x = (l, u)" by (cases x)
  then have ok: "btree_ok m" and lt: "\<And>a. a \<in> fst ` set m \<Longrightarrow> l < a"
    using Cons.prems by (auto simp: btree_ok_Cons)
  have "k < l \<Longrightarrow> a \<in> fst ` set m \<Longrightarrow> k < a" for a
    using lt [of a] by simp
  then show ?case
    using x ok lt Cons.IH [OF ok] set_btree_insert [OF ok, of k v]
    by (auto simp: btree_ok_Cons not_less order_le_less)
qed (simp add: btree_ok_Cons)

lemma map_of_btree_insert: "map_of (btree_insert k v m) = (map_of m)(k \<mapsto> v)"
  by (induction k v m rule: btree_insert.induct) (auto simp: fun_upd_twist)

lemma btree_get_insert: "btree_get l (btree_insert k v m) = (if l = k then Some v else btree_get l m)"
  by (simp add: btree_get_def map_of_btree_insert)

lemma btree_ok_remove: "btree_ok m \<Longrightarrow> btree_ok (btree_remove k m)"
  by (auto simp: btree_ok_def btree_remove_def sorted_wrt_map intro: sorted_wrt_filter)

lemma set_btree_remove: "set (btree_remove k m) = {x \<in> set m. fst x \<noteq> k}"
  by (auto simp: btree_remove_def)

lemma btree_get_remove: "btree_get l (btree_remove k m) = (if l = k then None else btree_get l m)"
  unfolding btree_get_def btree_remove_def by (induction m) auto

lemma btree_get_in: "btree_get k m = Some v \<Longrightarrow> (k, v) \<in> set m"
  by (simp add: btree_get_def map_of_SomeD)

lemma btree_get_iff: "btree_ok m \<Longrightarrow> btree_get k m = Some v \<longleftrightarrow> (k, v) \<in> set m"
  unfolding btree_get_def by (simp add: btree_ok_distinct map_of_eq_Some_iff)

lemma btree_get_None: "btree_get k m = None \<longleftrightarrow> k \<notin> fst ` set m"
  by (simp add: btree_get_def map_of_eq_None_iff)

lemma btree_first_least:
  "btree_ok m \<Longrightarrow> btree_first m = Some (k, v) \<Longrightarrow> (l, u) \<in> set m \<Longrightarrow> k \<le> l"
  by (cases m) (auto simp: btree_first_def btree_ok_Cons intro: less_imp_le)

lemma btree_ok_pop: "btree_ok m \<Longrightarrow> btree_ok (snd (btree_pop_first m))"
  by (cases m) (auto simp: btree_pop_first_def btree_ok_def)

end
