(* ===== verification/Schedulers.thy ===== *)
theory Schedulers
  imports Linked_List Btree_Map "HOL-Library.Product_Lexorder" "HOL-Library.Signed_Division"
begin

text \<open>
  The three schedulers of \<open>src/crates/scheduler\<close>: first-in first-out over the intrusive linked
  list (\<open>fifo.rs\<close>), round robin over a \<open>VecDeque\<close> with a time slice per task
  (\<open>round_robin.rs\<close>) and completely fair over a \<open>BTreeMap\<close> keyed by virtual runtime and
  identifier (\<open>cfs.rs\<close>). A task is an object identity; the atomic fields the schedulers keep
  in a task are a store indexed by it, threaded through the operations. Every operation returns
  an option: \<open>None\<close> is an index out of range or undefined behaviour of the list.

  The trait \<open>BaseScheduler\<close> (\<open>lib.rs\<close>) is the locale \<open>base_scheduler\<close>, interpreted for
  all three; what the queue schedulers promise beyond it is \<open>rotating_scheduler\<close>.
\<close>

section \<open>FIFO\<close>

type_synonym 't fifo = "'t ulist \<times> 't links"

definition fifo_new :: "'t links \<Rightarrow> 't fifo" where
  "fifo_new h = (list_new, h)"

definition fifo_add_task :: "'t \<Rightarrow> 't fifo \<Rightarrow> 't fifo option" where
  "fifo_add_task task s = list_push_back task s"

definition fifo_remove_task :: "'t \<Rightarrow> 't fifo \<Rightarrow> ('t option \<times> 't fifo) option" where
  "fifo_remove_task task s = owned_remove task s"

definition fifo_pick_next_task :: "'t fifo \<Rightarrow> ('t option \<times> 't fifo) option" where
  "fifo_pick_next_task s = owned_pop_front s"

definition fifo_put_prev_task :: "'t \<Rightarrow> bool \<Rightarrow> 't fifo \<Rightarrow> 't fifo option" where
  "fifo_put_prev_task prev preempt s = list_push_back prev s"

definition fifo_task_tick :: "'t \<Rightarrow> 't fifo \<Rightarrow> (bool \<times> 't fifo) option" where
  "fifo_task_tick current s = Some (False, s)"

definition fifo_set_priority :: "'t \<Rightarrow> int \<Rightarrow> 't fifo \<Rightarrow> (bool \<times> 't fifo) option" where
  "fifo_set_priority task prio s = Some (False, s)"

section \<open>Round robin\<close>

text \<open>\<open>isize\<close> values are integers brought back into their range after every operation.\<close>

definition isize_wrap :: "int \<Rightarrow> int" where
  "isize_wrap x = (x + 2 ^ 63) mod 2 ^ 64 - 2 ^ 63"

text \<open>The ready queue and the \<open>time_slice\<close> field of every task; \<open>S\<close> is
  \<open>MAX_TIME_SLICE\<close>.\<close>

type_synonym 't rr = "'t list \<times> ('t \<Rightarrow> int)"

definition rr_new :: "('t \<Rightarrow> int) \<Rightarrow> 't rr" where
  "rr_new slices = ([], slices)"

definition rr_task_new :: "nat \<Rightarrow> int" where
  "rr_task_new S = isize_wrap (int S)"

definition reset_time_slice :: "nat \<Rightarrow> 't \<Rightarrow> ('t \<Rightarrow> int) \<Rightarrow> 't \<Rightarrow> int" where
  "reset_time_slice S task slices = slices(task := isize_wrap (int S))"

definition rr_add_task :: "'t \<Rightarrow> 't rr \<Rightarrow> 't rr option" where
  "rr_add_task task s = (case s of (q, ts) \<Rightarrow> Some (q @ [task], ts))"

text \<open>\<open>iter().position(..)\<close> and \<open>VecDeque::remove\<close>.\<close>

fun position :: "('a \<Rightarrow> bool) \<Rightarrow> 'a list \<Rightarrow> nat option" where
  "position p [] = None"
| "position p (x # xs) = (if p x then Some 0 else map_option Suc (position p xs))"

definition vec_remove :: "nat \<Rightarrow> 'a list \<Rightarrow> 'a option \<times> 'a list" where
  "vec_remove i xs = (if i < length xs then (Some (xs ! i), take i xs @ drop (Suc i) xs) else (None, xs))"

definition rr_remove_task :: "'t \<Rightarrow> 't rr \<Rightarrow> ('t option \<times> 't rr) option" where
  "rr_remove_task task s = (case s of (q, ts) \<Rightarrow>
    (case position (\<lambda>t. t = task) q of
       None \<Rightarrow> Some (None, q, ts)
     | Some idx \<Rightarrow> (case vec_remove idx q of (r, q') \<Rightarrow> Some (r, q', ts))))"

definition rr_pick_next_task :: "'t rr \<Rightarrow> ('t option \<times> 't rr) option" where
  "rr_pick_next_task s = (case s of (q, ts) \<Rightarrow>
    (case q of [] \<Rightarrow> Some (None, [], ts) | t # q' \<Rightarrow> Some (Some t, q', ts)))"

definition rr_put_prev_task :: "nat \<Rightarrow> 't \<Rightarrow> bool \<Rightarrow> 't rr \<Rightarrow> 't rr option" where
  "rr_put_prev_task S prev preempt s = (case s of (q, ts) \<Rightarrow>
    if ts prev > 0 \<and> preempt then Some (prev # q, ts)
    else Some (q @ [prev], reset_time_slice S prev ts))"

definition rr_task_tick :: "'t \<Rightarrow> 't rr \<Rightarrow> (bool \<times> 't rr) option" where
  "rr_task_tick current s = (case s of (q, ts) \<Rightarrow>
    let old_slice = ts current in
    Some (old_slice \<le> 1, q, ts(current := isize_wrap (old_slice - 1))))"

definition rr_set_priority :: "'t \<Rightarrow> int \<Rightarrow> 't rr \<Rightarrow> (bool \<times> 't rr) option" where
  "rr_set_priority task prio s = Some (False, s)"

section \<open>Completely fair\<close>

record CFSTask =
  init_vruntime :: int
  cfs_delta :: int
  nice :: int
  cfs_id :: int

definition NICE2WEIGHT_POS :: "int list" where
  "NICE2WEIGHT_POS =
    [1024, 820, 655, 526, 423, 335, 272, 215, 172, 137, 110, 87, 70, 56, 45, 36, 29, 23, 18, 15]"

definition NICE2WEIGHT_NEG :: "int list" where
  "NICE2WEIGHT_NEG =
    [1024, 1277, 1586, 1991, 2501, 3121, 3906, 4904, 6100, 7620, 9548, 11916, 14949, 18705, 23254,
     29154, 36291, 46273, 56483, 71755, 88761]"

definition cfs_task_new :: CFSTask where
  "cfs_task_new = \<lparr> init_vruntime = 0, cfs_delta = 0, nice = 0, cfs_id = 0 \<rparr>"

text \<open>\<open>None\<close> is the panic of an index out of range.\<close>

definition index_checked :: "'a list \<Rightarrow> int \<Rightarrow> 'a option" where
  "index_checked xs i = (if 0 \<le> i \<and> i < int (length xs) then Some (xs ! nat i) else None)"

definition get_weight :: "CFSTask \<Rightarrow> int option" where
  "get_weight t = (if nice t \<ge> 0 then index_checked NICE2WEIGHT_POS (nice t)
    else index_checked NICE2WEIGHT_NEG (- nice t))"

definition get_vruntime :: "CFSTask \<Rightarrow> int option" where
  "get_vruntime t = (if nice t = 0 then Some (isize_wrap (init_vruntime t + cfs_delta t))
    else map_option (\<lambda>w. isize_wrap (init_vruntime t + isize_wrap (cfs_delta t * 1024) sdiv w))
      (get_weight t))"

definition set_vruntime :: "int \<Rightarrow> CFSTask \<Rightarrow> CFSTask" where
  "set_vruntime v t = t\<lparr> init_vruntime := v \<rparr>"

definition cfs_task_set_priority :: "int \<Rightarrow> CFSTask \<Rightarrow> CFSTask option" where
  "cfs_task_set_priority n t = map_option
    (\<lambda>v. t\<lparr> init_vruntime := v, cfs_delta := 0, nice := n \<rparr>) (get_vruntime t)"

definition cfs_set_id :: "int \<Rightarrow> CFSTask \<Rightarrow> CFSTask" where
  "cfs_set_id i t = t\<lparr> cfs_id := i \<rparr>"

definition cfs_task_task_tick :: "CFSTask \<Rightarrow> CFSTask" where
  "cfs_task_task_tick t = t\<lparr> cfs_delta := isize_wrap (cfs_delta t + 1) \<rparr>"

record 't CFScheduler =
  cfs_queue :: "(int \<times> int, 't) btree_map"
  min_vruntime :: "int option"
  id_pool :: int

type_synonym 't cfs = "'t CFScheduler \<times> ('t \<Rightarrow> CFSTask)"

definition cfs_new :: "('t \<Rightarrow> CFSTask) \<Rightarrow> 't cfs" where
  "cfs_new ts = (\<lparr> cfs_queue = [], min_vruntime = None, id_pool = 0 \<rparr>, ts)"

text \<open>The two-armed update of \<open>min_vruntime\<close> from the first key.\<close>

definition cfs_refresh_min :: "'t CFScheduler \<Rightarrow> 't CFScheduler" where
  "cfs_refresh_min s = (case btree_first (cfs_queue s) of
     Some ((v, _), _) \<Rightarrow> s\<lparr> min_vruntime := Some v \<rparr>
   | None \<Rightarrow> s\<lparr> min_vruntime := None \<rparr>)"

definition cfs_add_task :: "'t \<Rightarrow> 't cfs \<Rightarrow> 't cfs option" where
  "cfs_add_task task st = (case st of (s, ts) \<Rightarrow>
    let vruntime = (case min_vruntime s of None \<Rightarrow> 0 | Some v \<Rightarrow> v);
        taskid = id_pool s;
        ts' = ts(task := cfs_set_id taskid (set_vruntime vruntime (ts task)));
        s' = s\<lparr> id_pool := isize_wrap (taskid + 1),
                cfs_queue := btree_insert (vruntime, taskid) task (cfs_queue s) \<rparr>
    in Some (cfs_refresh_min s', ts'))"

definition cfs_remove_task :: "'t \<Rightarrow> 't cfs \<Rightarrow> ('t option \<times> 't cfs) option" where
  "cfs_remove_task task st = (case st of (s, ts) \<Rightarrow>
    (case get_vruntime (ts task) of
       None \<Rightarrow> None
     | Some v \<Rightarrow>
         let k = (v, cfs_id (ts task)) in
         (case btree_get k (cfs_queue s) of
            Some tmp \<Rightarrow> Some (Some tmp, cfs_refresh_min (s\<lparr> cfs_queue := btree_remove k (cfs_queue s) \<rparr>), ts)
          | None \<Rightarrow> Some (None, s, ts))))"

definition cfs_pick_next_task :: "'t cfs \<Rightarrow> ('t option \<times> 't cfs) option" where
  "cfs_pick_next_task st = (case st of (s, ts) \<Rightarrow>
    (case btree_pop_first (cfs_queue s) of
       (Some (_, v), q) \<Rightarrow> Some (Some v, s\<lparr> cfs_queue := q \<rparr>, ts)
     | (None, q) \<Rightarrow> Some (None, s\<lparr> cfs_queue := q \<rparr>, ts)))"

definition cfs_put_prev_task :: "'t \<Rightarrow> bool \<Rightarrow> 't cfs \<Rightarrow> 't cfs option" where
  "cfs_put_prev_task prev preempt st = (case st of (s, ts) \<Rightarrow>
    let taskid = id_pool s; ts' = ts(prev := cfs_set_id taskid (ts prev)) in
    map_option (\<lambda>v. (s\<lparr> id_pool := isize_wrap (taskid + 1),
        cfs_queue := btree_insert (v, taskid) prev (cfs_queue s) \<rparr>, ts'))
      (get_vruntime (ts' prev)))"

definition cfs_task_tick :: "'t \<Rightarrow> 't cfs \<Rightarrow> (bool \<times> 't cfs) option" where
  "cfs_task_tick current st = (case st of (s, ts) \<Rightarrow>
    let ts' = ts(current := cfs_task_task_tick (ts current)) in
    (case min_vruntime s of
       None \<Rightarrow> Some (True, s, ts')
     | Some m \<Rightarrow> map_option (\<lambda>v. (v > m, s, ts')) (get_vruntime (ts' current))))"

definition cfs_set_priority :: "'t \<Rightarrow> int \<Rightarrow> 't cfs \<Rightarrow> (bool \<times> 't cfs) option" where
  "cfs_set_priority task prio st = (case st of (s, ts) \<Rightarrow>
    if prio \<in> {- 20..19}
    then map_option (\<lambda>t'. (True, s, ts(task := t'))) (cfs_task_set_priority prio (ts task))
    else Some (False, s, ts))"

section \<open>The trait and its laws\<close>

text \<open>\<open>ready s\<close> are the tasks held by the scheduler. \<open>room n s\<close> says that \<open>n\<close> more
  insertions are possible before the identifiers of the completely fair scheduler run out; it
  is always true for the queue schedulers.\<close>

locale base_scheduler =
  fixes sched_ok :: "'s \<Rightarrow> bool"
    and ready :: "'s \<Rightarrow> 't set"
    and room :: "nat \<Rightarrow> 's \<Rightarrow> bool"
    and sched_add :: "'t \<Rightarrow> 's \<Rightarrow> 's option"
    and sched_pick :: "'s \<Rightarrow> ('t option \<times> 's) option"
    and sched_put :: "'t \<Rightarrow> bool \<Rightarrow> 's \<Rightarrow> 's option"
    and sched_tick :: "'t \<Rightarrow> 's \<Rightarrow> (bool \<times> 's) option"
    and sched_prio :: "'t \<Rightarrow> int \<Rightarrow> 's \<Rightarrow> (bool \<times> 's) option"
  assumes ready_finite: "sched_ok s \<Longrightarrow> finite (ready s)"
    and room_less: "room n s \<Longrightarrow> m \<le> n \<Longrightarrow> room m s"
    and add_law: "sched_ok s \<Longrightarrow> room (Suc n) s \<Longrightarrow> t \<notin> ready s \<Longrightarrow>
      \<exists>s'. sched_add t s = Some s' \<and> sched_ok s' \<and> room n s' \<and> ready s' = insert t (ready s)"
    and put_law: "sched_ok s \<Longrightarrow> room (Suc n) s \<Longrightarrow> t \<notin> ready s \<Longrightarrow>
      \<exists>s'. sched_put t p s = Some s' \<and> sched_ok s' \<and> room n s' \<and> ready s' = insert t (ready s)"
    and pick_none: "sched_ok s \<Longrightarrow> ready s = {} \<Longrightarrow> sched_pick s = Some (None, s)"
    and pick_some: "sched_ok s \<Longrightarrow> ready s \<noteq> {} \<Longrightarrow>
      \<exists>t s'. sched_pick s = Some (Some t, s') \<and> sched_ok s' \<and> (\<forall>n. room n s \<longrightarrow> room n s') \<and>
        t \<in> ready s \<and> ready s' = ready s - {t}"
    and tick_law: "sched_ok s \<Longrightarrow>
      \<exists>b s'. sched_tick t s = Some (b, s') \<and> sched_ok s' \<and> (\<forall>n. room n s \<longrightarrow> room n s') \<and>
        ready s' = ready s"
    and prio_law: "sched_ok s \<Longrightarrow>
      \<exists>b s'. sched_prio t q s = Some (b, s') \<and> sched_ok s' \<and> (\<forall>n. room n s \<longrightarrow> room n s') \<and>
        ready s' = ready s"
begin

text \<open>Picking until the scheduler is empty.\<close>

fun drain :: "nat \<Rightarrow> 's \<Rightarrow> ('t list \<times> 's) option" where
  "drain 0 s = Some ([], s)"
| "drain (Suc n) s = (case sched_pick s of
     None \<Rightarrow> None
   | Some (None, s') \<Rightarrow> Some ([], s')
   | Some (Some t, s') \<Rightarrow> map_option (\<lambda>(ts, s''). (t # ts, s'')) (drain n s'))"

lemma drain_all:
  "sched_ok s \<Longrightarrow> card (ready s) = n \<Longrightarrow>
    \<exists>ts s'. drain n s = Some (ts, s') \<and> distinct ts \<and> set ts = ready s \<and> sched_ok s' \<and> ready s' = {}"
proof (induction n arbitrary: s)
  case 0
  then show ?case using ready_finite [of s] by simp
next
  case (Suc n)
  then obtain t s1 where p: "sched_pick s = Some (Some t, s1)" "sched_ok s1" "t \<in> ready s"
    "ready s1 = ready s - {t}"
    using pick_some [of s] by (metis Zero_neq_Suc card.empty)
  then have "card (ready s1) = n" using Suc.prems ready_finite [of s] by simp
  then obtain ts s2 where "drain n s1 = Some (ts, s2)" "distinct ts" "set ts = ready s1" "sched_ok s2"
    "ready s2 = {}"
    using Suc.IH p(2) by blast
  then show ?case using p by auto
qed

text \<open>A scheduler that holds a task always has a next one, and never the one it does not hold.\<close>

lemma pick_cases:
  assumes "sched_ok s"
  obtains (none) "ready s = {}" "sched_pick s = Some (None, s)"
  | (some) t s' where "sched_pick s = Some (Some t, s')" "t \<in> ready s" "sched_ok s'"
      "ready s' = ready s - {t}" "\<And>n. room n s \<Longrightarrow> room n s'"
  using pick_none [OF assms] pick_some [OF assms] by blast

end

text \<open>Schedulers that also find a task they hold and remove it.\<close>

locale removing_scheduler = base_scheduler sched_ok ready room sched_add sched_pick sched_put sched_tick sched_prio
  for sched_ok :: "'s \<Rightarrow> bool" and ready :: "'s \<Rightarrow> 't set" and room and sched_add and sched_pick
    and sched_put and sched_tick and sched_prio +
  fixes sched_remove :: "'t \<Rightarrow> 's \<Rightarrow> ('t option \<times> 's) option"
  assumes remove_law: "sched_ok s \<Longrightarrow> t \<in> ready s \<Longrightarrow>
      \<exists>s'. sched_remove t s = Some (Some t, s') \<and> sched_ok s' \<and> ready s' = ready s - {t}"
begin

lemma remove_drain:
  assumes "sched_ok s" "t \<in> ready s"
  shows "\<exists>s1 ts s2. sched_remove t s = Some (Some t, s1) \<and> drain (card (ready s) - 1) s1 = Some (ts, s2)
    \<and> set ts = ready s - {t}"
  using remove_law [OF assms] drain_all ready_finite [OF assms(1)] assms(2)
  by (metis card_Diff_singleton)

end

text \<open>Schedulers whose ready tasks form a queue: a task put back without preemption goes to the
  end, the next task comes from the front. \<open>yield_n\<close> is what \<open>resched\<close> does to the
  scheduler when the running tasks give up the processor one after the other.\<close>

locale rotating_scheduler =
  fixes queue :: "'s \<Rightarrow> 't list \<Rightarrow> bool"
    and sched_pick :: "'s \<Rightarrow> ('t option \<times> 's) option"
    and sched_put :: "'t \<Rightarrow> bool \<Rightarrow> 's \<Rightarrow> 's option"
  assumes put_back: "queue s xs \<Longrightarrow> t \<notin> set xs \<Longrightarrow> \<exists>s'. sched_put t False s = Some s' \<and> queue s' (xs @ [t])"
    and pick_front: "queue s (t # xs) \<Longrightarrow> \<exists>s'. sched_pick s = Some (Some t, s') \<and> queue s' xs"
begin

fun yield_n :: "nat \<Rightarrow> 't \<Rightarrow> 's \<Rightarrow> ('t \<times> 's) option" where
  "yield_n 0 cur s = Some (cur, s)"
| "yield_n (Suc n) cur s = (case sched_put cur False s of
     None \<Rightarrow> None
   | Some s1 \<Rightarrow> (case sched_pick s1 of
       Some (Some t, s2) \<Rightarrow> yield_n n t s2
     | _ \<Rightarrow> None))"

lemma yield_prefix:
  "queue s (xs @ ys) \<Longrightarrow> distinct (cur # xs @ ys) \<Longrightarrow>
    \<exists>s'. yield_n (length xs) cur s = Some (last (cur # xs), s') \<and> queue s' (ys @ butlast (cur # xs))"
proof (induction xs arbitrary: cur s ys)
  case (Cons x xs)
  then obtain s1 where "sched_put cur False s = Some s1" "queue s1 (x # (xs @ ys) @ [cur])"
    using put_back [of s "(x # xs) @ ys" cur] by auto
  moreover from this obtain s2 where "sched_pick s1 = Some (Some x, s2)" "queue s2 (xs @ ys @ [cur])"
    using pick_front [of s1 x] by auto
  ultimately show ?case
    using Cons.IH [of s2 "ys @ [cur]" x] Cons.prems(2) by auto
qed simp

lemma yield_runs_all:
  assumes "queue s xs" "distinct (cur # xs)" "i < length xs"
  shows "\<exists>s'. yield_n (Suc i) cur s = Some (xs ! i, s') \<and> queue s' (drop (Suc i) xs @ cur # take i xs)"
proof -
  have "last (cur # take (Suc i) xs) = xs ! i" "butlast (cur # take (Suc i) xs) = cur # take i xs"
    using assms(3) by (simp_all add: take_Suc_conv_app_nth butlast_append)
  then show ?thesis
    using yield_prefix [of s "take (Suc i) xs" "drop (Suc i) xs" cur] assms
    by (simp del: yield_n.simps last.simps butlast.simps add: min_absorb2)
qed

lemma yield_add:
  "yield_n (m + n) cur s = (case yield_n m cur s of None \<Rightarrow> None | Some (t, s') \<Rightarrow> yield_n n t s')"
  by (induction m arbitrary: cur s) (auto split: option.splits prod.splits)

text \<open>After as many yields as there are tasks every task has run once and the order is the
  initial one.\<close>

lemma yield_round:
  assumes "queue s xs" "distinct (cur # xs)"
  shows "\<exists>s'. yield_n (Suc (length xs)) cur s = Some (cur, s') \<and> queue s' xs"
proof -
  obtain s1 where s1: "yield_n (length xs) cur s = Some (last (cur # xs), s1)" "queue s1 (butlast (cur # xs))"
    using yield_prefix [of s xs "[]" cur] assms by auto
  define l where "l = last (cur # xs)"
  have split: "cur # xs = butlast (cur # xs) @ [l]" by (simp add: l_def)
  then have "distinct (butlast (cur # xs) @ [l])" using assms(2) by metis
  then obtain s2 where s2: "sched_put l False s1 = Some s2" "queue s2 (cur # xs)"
    using put_back [OF s1(2), of l] split by auto
  then obtain s3 where "sched_pick s2 = Some (Some cur, s3)" "queue s3 xs"
    using pick_front by blast
  then show ?thesis
    using s1 s2 yield_add [of "length xs" 1 cur s] by (simp add: l_def)
qed

end

section \<open>The FIFO scheduler meets the trait\<close>

lemma linked_unique:
  "linked h (a # us @ [x]) \<Longrightarrow> linked h (a # vs @ [x]) \<Longrightarrow> x \<notin> set us \<Longrightarrow> x \<notin> set vs \<Longrightarrow> us = vs"
proof (induction us arbitrary: a vs)
  case Nil
  then show ?case by (cases vs) auto
next
  case (Cons u us)
  then show ?case by (cases vs) auto
qed

lemma list_repr_unique: "list_repr s xs \<Longrightarrow> list_repr s ys \<Longrightarrow> xs = ys"
  using linked_unique [of "snd s" "hd xs" "tl xs" "hd xs" "tl ys"]
  by (cases xs; cases ys) (auto simp: list_repr_iff)

definition fifo_ok :: "'t fifo \<Rightarrow> bool" where
  "fifo_ok s \<longleftrightarrow> (\<exists>xs. list_repr s xs)"

definition fifo_ready :: "'t fifo \<Rightarrow> 't set" where
  "fifo_ready s = {t. \<exists>xs. list_repr s xs \<and> t \<in> set xs}"

lemma fifo_ready_repr: "list_repr s xs \<Longrightarrow> fifo_ready s = set xs"
  using list_repr_unique by (fastforce simp: fifo_ready_def)

lemma fifo_okI: "list_repr s xs \<Longrightarrow> fifo_ok s"
  by (auto simp: fifo_ok_def)

lemma fifo_put:
  assumes "fifo_ok s" "t \<notin> fifo_ready s"
  shows "\<exists>s'. list_push_back t s = Some s' \<and> fifo_ok s' \<and> fifo_ready s' = insert t (fifo_ready s)"
proof -
  obtain xs where xs: "list_repr s xs" using assms by (auto simp: fifo_ok_def)
  then obtain s' where "list_push_back t s = Some s'" "list_repr s' (xs @ [t])"
    using linked_list.push_back_law [OF xs, of t] assms(2) fifo_ready_repr [OF xs] by blast
  then show ?thesis using fifo_ready_repr [OF xs] by (auto simp: fifo_okI fifo_ready_repr)
qed

interpretation fifo: removing_scheduler fifo_ok fifo_ready "\<lambda>_ _. True" fifo_add_task fifo_pick_next_task
    fifo_put_prev_task fifo_task_tick fifo_set_priority fifo_remove_task
proof
  fix s :: "'t fifo" assume "fifo_ok s"
  then obtain xs where xs: "list_repr s xs" by (auto simp: fifo_ok_def)
  then show "finite (fifo_ready s)" by (simp add: fifo_ready_repr)
  show "fifo_ready s = {} \<Longrightarrow> fifo_pick_next_task s = Some (None, s)"
    using fifo_ready_repr [OF xs] linked_list.pop_empty_law [of s] xs
    by (simp add: fifo_pick_next_task_def)
  show "fifo_ready s \<noteq> {} \<Longrightarrow> \<exists>t s'. fifo_pick_next_task s = Some (Some t, s') \<and> fifo_ok s'
      \<and> (\<forall>n::nat. True \<longrightarrow> True) \<and> t \<in> fifo_ready s \<and> fifo_ready s' = fifo_ready s - {t}"
    using fifo_ready_repr [OF xs] linked_list.pop_front_law [of s "hd xs" "tl xs"] xs
      linked_list.repr_distinct [OF xs]
    by (cases xs) (auto simp: fifo_pick_next_task_def fifo_ready_repr fifo_okI)
  show "\<exists>s'. fifo_remove_task t s = Some (Some t, s') \<and> fifo_ok s' \<and> fifo_ready s' = fifo_ready s - {t}"
    if "t \<in> fifo_ready s" for t
    using that fifo_ready_repr [OF xs] linked_list.remove_law [OF xs, of t]
      linked_list.repr_distinct [OF xs]
    by (auto simp: fifo_remove_task_def fifo_ready_repr fifo_okI)
qed (auto simp: fifo_add_task_def fifo_put_prev_task_def fifo_task_tick_def fifo_set_priority_def
    dest: fifo_put)

interpretation fifo_rotate: rotating_scheduler list_repr fifo_pick_next_task fifo_put_prev_task
  by unfold_locales (unfold fifo_put_prev_task_def fifo_pick_next_task_def,
    rule linked_list.push_back_law linked_list.pop_front_law; assumption)+


section \<open>The round robin scheduler meets the trait\<close>

definition rr_ok :: "'t rr \<Rightarrow> bool" where
  "rr_ok s \<longleftrightarrow> distinct (fst s)"

definition rr_ready :: "'t rr \<Rightarrow> 't set" where
  "rr_ready s = set (fst s)"

lemma position_split: "position (\<lambda>t. t = x) (us @ x # vs) = (if x \<in> set us then position (\<lambda>t. t = x) us else Some (length us))"
  by (induction us) auto

lemma position_None: "position p xs = None \<longleftrightarrow> (\<forall>x\<in>set xs. \<not> p x)"
  by (induction xs) auto

lemma rr_remove_eq:
  "rr_remove_task t (q, ts) = Some (if t \<in> set q then (Some t, remove1 t q, ts) else (None, q, ts))"
proof (cases "t \<in> set q")
  case True
  then obtain us vs where "q = us @ t # vs" "t \<notin> set us" by (meson split_list_first)
  then show ?thesis
    by (simp add: rr_remove_task_def position_split vec_remove_def remove1_append)
next
  case False
  then have "position (\<lambda>u. u = t) q = None" by (auto simp: position_None)
  then show ?thesis using False by (simp add: rr_remove_task_def)
qed

interpretation rr: removing_scheduler rr_ok rr_ready "\<lambda>_ _. True" rr_add_task rr_pick_next_task
    "rr_put_prev_task S" rr_task_tick rr_set_priority rr_remove_task
proof
  fix s :: "'t rr"
  show "rr_ok s \<Longrightarrow> rr_ready s \<noteq> {} \<Longrightarrow> \<exists>t s'. rr_pick_next_task s = Some (Some t, s') \<and> rr_ok s'
      \<and> (\<forall>n::nat. True \<longrightarrow> True) \<and> t \<in> rr_ready s \<and> rr_ready s' = rr_ready s - {t}"
    by (cases s; cases "fst s") (auto simp: rr_pick_next_task_def rr_ready_def rr_ok_def)
  show "rr_ok s \<Longrightarrow> t \<in> rr_ready s \<Longrightarrow>
      \<exists>s'. rr_remove_task t s = Some (Some t, s') \<and> rr_ok s' \<and> rr_ready s' = rr_ready s - {t}" for t
    by (cases s) (auto simp: rr_remove_eq rr_ready_def rr_ok_def)
qed (auto simp: rr_add_task_def rr_put_prev_task_def rr_task_tick_def rr_set_priority_def
    rr_pick_next_task_def rr_ready_def rr_ok_def Let_def split: list.splits)

definition rr_queue :: "'t rr \<Rightarrow> 't list \<Rightarrow> bool" where
  "rr_queue s xs \<longleftrightarrow> fst s = xs"

interpretation rr_rotate: rotating_scheduler rr_queue rr_pick_next_task "rr_put_prev_task S"
  by unfold_locales (auto simp: rr_queue_def rr_put_prev_task_def rr_pick_next_task_def)

text \<open>Ticks of the running task: the counter goes down by one each time, and a reschedule is
  asked for from the tick that finds one or less.\<close>

lemma isize_wrap_id: "- (2 ^ 63) \<le> x \<Longrightarrow> x < 2 ^ 63 \<Longrightarrow> isize_wrap x = x"
  by (simp add: isize_wrap_def)

primrec rr_ticks :: "nat \<Rightarrow> 't \<Rightarrow> 't rr \<Rightarrow> (bool list \<times> 't rr) option" where
  "rr_ticks 0 t s = Some ([], s)"
| "rr_ticks (Suc n) t s = (case rr_task_tick t s of
     None \<Rightarrow> None
   | Some (b, s') \<Rightarrow> map_option (\<lambda>(bs, s''). (b # bs, s'')) (rr_ticks n t s'))"

lemma rr_ticks_count:
  "ts t = int k \<Longrightarrow> k < 2 ^ 63 \<Longrightarrow> n \<le> k \<Longrightarrow>
    rr_ticks n t (q, ts) = Some (map (\<lambda>i. k - i \<le> 1) [0..<n], q, ts(t := int (k - n)))"
proof (induction n arbitrary: ts k)
  case (Suc n)
  then obtain j where k: "k = Suc j" by (cases k) auto
  have "isize_wrap (int k - 1) = int j" using k Suc.prems by (subst isize_wrap_id) auto
  moreover have "rr_ticks n t (q, ts(t := int j)) =
      Some (map (\<lambda>i. j - i \<le> 1) [0..<n], q, ts(t := int (j - n)))"
    using Suc.IH [of "ts(t := int j)" j, OF fun_upd_same] Suc.prems k by (simp del: fun_upd_apply)
  moreover have "map (\<lambda>i. k - i \<le> 1) [0..<Suc n] = (int k \<le> 1) # map (\<lambda>i. j - i \<le> 1) [0..<n]"
    by (subst upt_conv_Cons) (auto simp: k map_Suc_upt [symmetric] simp del: upt_Suc)
  ultimately show ?case
    using Suc.prems k by (simp add: rr_task_tick_def Let_def del: upt_Suc fun_upd_apply)
qed (auto simp: fun_upd_idem)

section \<open>The completely fair scheduler meets the trait\<close>

text \<open>Keys are unique because an identifier is used once; the weight table is never indexed out
  of range because the nice values stay in theirs.\<close>

definition cfs_ok :: "'t cfs \<Rightarrow> bool" where
  "cfs_ok st \<longleftrightarrow> (case st of (s, ts) \<Rightarrow>
    btree_ok (cfs_queue s) \<and> distinct (map snd (cfs_queue s)) \<and> 0 \<le> id_pool s \<and>
    (\<forall>((v, i), t)\<in>set (cfs_queue s). i < id_pool s \<and> cfs_id (ts t) = i) \<and>
    (\<forall>t. nice (ts t) \<in> {- 20..19}))"

definition cfs_ready :: "'t cfs \<Rightarrow> 't set" where
  "cfs_ready st = snd ` set (cfs_queue (fst st))"

definition cfs_room :: "nat \<Rightarrow> 't cfs \<Rightarrow> bool" where
  "cfs_room n st \<longleftrightarrow> id_pool (fst st) + int n < 2 ^ 63"

lemma get_weight_pos:
  assumes "nice t \<in> {- 20..19}"
  shows "\<exists>w. get_weight t = Some w \<and> 15 \<le> w \<and> w \<le> 88761"
proof -
  have "\<forall>w\<in>set NICE2WEIGHT_POS \<union> set NICE2WEIGHT_NEG. 15 \<le> w \<and> w \<le> 88761"
    by (simp add: NICE2WEIGHT_POS_def NICE2WEIGHT_NEG_def)
  moreover have "length NICE2WEIGHT_POS = 20" "length NICE2WEIGHT_NEG = 21"
    by (simp_all add: NICE2WEIGHT_POS_def NICE2WEIGHT_NEG_def)
  ultimately show ?thesis
    using assms by (auto simp: get_weight_def index_checked_def intro: nth_mem)
qed

lemma get_vruntime_some: "nice t \<in> {- 20..19} \<Longrightarrow> \<exists>v. get_vruntime t = Some v"
  using get_weight_pos [of t] by (auto simp: get_vruntime_def)

lemma cfs_refresh_min_simps [simp]:
  "cfs_queue (cfs_refresh_min s) = cfs_queue s" "id_pool (cfs_refresh_min s) = id_pool s"
  by (simp_all add: cfs_refresh_min_def split: option.splits)

text \<open>Insertion under a fresh identifier.\<close>

lemma cfs_ok_insert:
  assumes ok: "cfs_ok (s, ts)" and room: "cfs_room (Suc n) (s, ts)" and new: "t \<notin> cfs_ready (s, ts)"
    and ct: "cfs_id ct = id_pool s" "nice ct \<in> {- 20..19}"
    and s': "cfs_queue s' = btree_insert (v, id_pool s) t (cfs_queue s)" "id_pool s' = isize_wrap (id_pool s + 1)"
  shows "cfs_ok (s', ts(t := ct)) \<and> cfs_room n (s', ts(t := ct)) \<and>
    cfs_ready (s', ts(t := ct)) = insert t (cfs_ready (s, ts))"
proof -
  have bt: "btree_ok (cfs_queue s)" and ids: "\<And>w i u. ((w, i), u) \<in> set (cfs_queue s) \<Longrightarrow> i < id_pool s"
    using ok by (auto simp: cfs_ok_def)
  have fresh: "{x \<in> set (cfs_queue s). fst x \<noteq> (v, id_pool s)} = set (cfs_queue s)"
    using ids by fastforce
  have q: "set (cfs_queue s') = insert ((v, id_pool s), t) (set (cfs_queue s))"
    using set_btree_insert [OF bt, of "(v, id_pool s)" t] fresh s' by simp
  have id: "id_pool s' = id_pool s + 1"
    using ok room s' by (simp add: cfs_ok_def cfs_room_def isize_wrap_id)
  have inj: "inj_on snd (set (cfs_queue s))"
    using ok btree_ok_distinct [OF bt] by (simp add: cfs_ok_def distinct_map distinct_map)
  have "inj_on snd (set (cfs_queue s'))"
    using inj new by (auto simp: q cfs_ready_def)
  moreover have bt': "btree_ok (cfs_queue s')" using bt s' by (simp add: btree_ok_insert)
  ultimately have "distinct (map snd (cfs_queue s'))"
    using btree_ok_distinct [OF bt'] by (simp add: distinct_map)
  moreover have "t \<noteq> u" if "(k, u) \<in> set (cfs_queue s)" for k u
    using new that by (force simp: cfs_ready_def)
  ultimately show ?thesis
    using ok bt' id ct room by (fastforce simp: cfs_ok_def cfs_room_def cfs_ready_def q)
qed

lemma cfs_ok_task:
  "cfs_ok (s, ts) \<Longrightarrow> nice ct \<in> {- 20..19} \<Longrightarrow> cfs_id ct = cfs_id (ts t) \<Longrightarrow> cfs_ok (s, ts(t := ct))"
  by (auto simp: cfs_ok_def)

interpretation cfs: base_scheduler cfs_ok cfs_ready cfs_room cfs_add_task cfs_pick_next_task
    cfs_put_prev_task cfs_task_tick cfs_set_priority
proof
  fix st :: "'t cfs" and n t p q
  obtain s ts where st: "st = (s, ts)" by (cases st)
  show "finite (cfs_ready st)" by (simp add: cfs_ready_def)
  show "cfs_room n st \<Longrightarrow> m \<le> n \<Longrightarrow> cfs_room m st" for m by (simp add: cfs_room_def)
  assume ok: "cfs_ok st"
  have nice: "nice (ts u) \<in> {- 20..19}" for u using ok st by (auto simp: cfs_ok_def)
  show "cfs_room (Suc n) st \<Longrightarrow> t \<notin> cfs_ready st \<Longrightarrow> \<exists>s'. cfs_add_task t st = Some s' \<and> cfs_ok s'
      \<and> cfs_room n s' \<and> cfs_ready s' = insert t (cfs_ready st)"
    using cfs_ok_insert [of s ts n t] ok nice [of t] st
    by (simp add: cfs_add_task_def Let_def cfs_set_id_def set_vruntime_def)
  show "cfs_room (Suc n) st \<Longrightarrow> t \<notin> cfs_ready st \<Longrightarrow> \<exists>s'. cfs_put_prev_task t p st = Some s' \<and> cfs_ok s'
      \<and> cfs_room n s' \<and> cfs_ready s' = insert t (cfs_ready st)"
    using cfs_ok_insert [of s ts n t] ok nice [of t] st get_vruntime_some [of "cfs_set_id (id_pool s) (ts t)"]
    by (auto simp: cfs_put_prev_task_def Let_def cfs_set_id_def)
  show "cfs_ready st = {} \<Longrightarrow> cfs_pick_next_task st = Some (None, st)"
    by (simp add: st cfs_pick_next_task_def cfs_ready_def btree_pop_first_def)
  show "cfs_ready st \<noteq> {} \<Longrightarrow> \<exists>t s'. cfs_pick_next_task st = Some (Some t, s') \<and> cfs_ok s' \<and>
      (\<forall>n. cfs_room n st \<longrightarrow> cfs_room n s') \<and> t \<in> cfs_ready st \<and> cfs_ready s' = cfs_ready st - {t}"
    using ok btree_ok_pop [of "cfs_queue s"] unfolding st
    by (cases "cfs_queue s") (auto simp: cfs_pick_next_task_def cfs_ready_def btree_pop_first_def
        cfs_ok_def cfs_room_def)
  show "\<exists>b s'. cfs_task_tick t st = Some (b, s') \<and> cfs_ok s' \<and> (\<forall>n. cfs_room n st \<longrightarrow> cfs_room n s') \<and>
      cfs_ready s' = cfs_ready st"
    using cfs_ok_task [of s ts "cfs_task_task_tick (ts t)" t] ok nice [of t] st
      get_vruntime_some [of "cfs_task_task_tick (ts t)"]
    by (auto simp: cfs_task_tick_def Let_def cfs_task_task_tick_def cfs_room_def cfs_ready_def split: option.splits)
  show "\<exists>b s'. cfs_set_priority t q st = Some (b, s') \<and> cfs_ok s' \<and> (\<forall>n. cfs_room n st \<longrightarrow> cfs_room n s') \<and>
      cfs_ready s' = cfs_ready st"
    using cfs_ok_task [of s ts _ t] ok nice [of t] st get_vruntime_some [of "ts t"]
    by (auto simp: cfs_set_priority_def cfs_task_set_priority_def cfs_room_def cfs_ready_def)
qed


text \<open>The runs of the scheduler, as the run queue uses it: only tasks it does not hold are added, put back
  and ticked, and identifiers are left for those that enter the queue. \<open>K t\<close> records the
  value a task got when it last entered the queue - its virtual runtime when it was put back, the least
  virtual runtime of the queue when it was added - and \<open>F\<close> the tasks that were added although they
  had run since their virtual runtime was set.\<close>

definition cfs_entry :: "'t CFScheduler \<Rightarrow> int" where
  "cfs_entry s = (case min_vruntime s of None \<Rightarrow> 0 | Some v \<Rightarrow> v)"

inductive cfs_run :: "'t cfs \<Rightarrow> ('t \<Rightarrow> int) \<Rightarrow> 't set \<Rightarrow> bool" where
  run_new: "cfs_run (cfs_new (\<lambda>_. cfs_task_new)) K {}"
| run_add: "cfs_run (s, ts) K F \<Longrightarrow> t \<notin> cfs_ready (s, ts) \<Longrightarrow> cfs_room 1 (s, ts) \<Longrightarrow> cfs_add_task t (s, ts) = Some st' \<Longrightarrow>
    cfs_run st' (K(t := cfs_entry s)) (if cfs_delta (ts t) = 0 then F - {t} else insert t F)"
| run_put: "cfs_run (s, ts) K F \<Longrightarrow> t \<notin> cfs_ready (s, ts) \<Longrightarrow> cfs_room 1 (s, ts) \<Longrightarrow> cfs_put_prev_task t p (s, ts) = Some st' \<Longrightarrow>
    cfs_run st' (K(t := the (get_vruntime (ts t)))) (F - {t})"
| run_pick: "cfs_run st K F \<Longrightarrow> cfs_pick_next_task st = Some (r, st') \<Longrightarrow> cfs_run st' K F"
| run_remove: "cfs_run st K F \<Longrightarrow> t \<in> cfs_ready st \<Longrightarrow> cfs_remove_task t st = Some (r, st') \<Longrightarrow> cfs_run st' K F"
| run_tick: "cfs_run st K F \<Longrightarrow> t \<notin> cfs_ready st \<Longrightarrow> cfs_task_tick t st = Some (b, st') \<Longrightarrow> cfs_run st' K F"
| run_prio: "cfs_run st K F \<Longrightarrow> cfs_set_priority t prio st = Some (b, st') \<Longrightarrow> cfs_run st' K F"

definition cfs_entries :: "('t \<Rightarrow> int) \<Rightarrow> 't set \<Rightarrow> 't cfs \<Rightarrow> bool" where
  "cfs_entries K F st \<longleftrightarrow> (case st of (s, ts) \<Rightarrow>
    (\<forall>((v, i), t)\<in>set (cfs_queue s). v = K t \<and> isize_wrap v = v \<and> (t \<notin> F \<longrightarrow> get_vruntime (ts t) = Some v)) \<and>
    (\<forall>m. min_vruntime s = Some m \<longrightarrow> isize_wrap m = m))"

lemma isize_wrap_idem [simp]: "isize_wrap (isize_wrap x) = isize_wrap x"
  by (simp add: isize_wrap_def)

lemma get_vruntime_wrap: "get_vruntime t = Some v \<Longrightarrow> isize_wrap v = v"
  by (auto simp: get_vruntime_def split: if_splits)

lemma get_vruntime_set_id [simp]: "get_vruntime (cfs_set_id i t) = get_vruntime t"
  by (simp add: get_vruntime_def get_weight_def cfs_set_id_def)

lemma get_vruntime_fresh:
  assumes "cfs_delta t = 0" "nice t \<in> {- 20..19}" "isize_wrap v = v"
  shows "get_vruntime (set_vruntime v t) = Some v"
proof -
  obtain w where "get_weight (set_vruntime v t) = Some w"
    using get_weight_pos [of "set_vruntime v t"] assms(2) by (auto simp: set_vruntime_def)
  moreover have "isize_wrap 0 = 0" by (simp add: isize_wrap_def)
  ultimately show ?thesis using assms by (simp add: get_vruntime_def set_vruntime_def)
qed

lemma set_priority_keeps_vruntime:
  assumes "nice t \<in> {- 20..19}" "prio \<in> {- 20..19}"
  shows "\<exists>t'. cfs_task_set_priority prio t = Some t' \<and> nice t' = prio \<and> cfs_id t' = cfs_id t \<and>
    get_vruntime t' = get_vruntime t"
proof -
  obtain v where v: "get_vruntime t = Some v" using get_vruntime_some assms(1) by blast
  let ?t = "t\<lparr> cfs_delta := 0, nice := prio \<rparr>"
  have "set_vruntime v ?t = t\<lparr> init_vruntime := v, cfs_delta := 0, nice := prio \<rparr>"
    by (simp add: set_vruntime_def)
  moreover have "get_vruntime (set_vruntime v ?t) = Some v"
    using get_vruntime_fresh [of ?t v] get_vruntime_wrap [OF v] assms(2) by simp
  ultimately show ?thesis by (simp add: cfs_task_set_priority_def v)
qed

lemma cfs_entries_insert:
  assumes "cfs_ok (s, ts)" "cfs_entries K F (s, ts)" "t \<notin> cfs_ready (s, ts)" "isize_wrap v = v"
    and "t \<notin> F' \<Longrightarrow> get_vruntime ct = Some v" "F - {t} \<subseteq> F'" "cfs_queue s' = btree_insert (v, i) t (cfs_queue s)"
    and "\<And>m. min_vruntime s' = Some m \<Longrightarrow> isize_wrap m = m"
  shows "cfs_entries (K(t := v)) F' (s', ts(t := ct))"
proof -
  have "u \<noteq> t" if "(k, u) \<in> set (cfs_queue s)" for k u
    using assms(3) that by (force simp: cfs_ready_def)
  then show ?thesis
    using assms(1,2,4-8) set_btree_insert [of "cfs_queue s" "(v, i)" t]
    by (fastforce simp: cfs_entries_def cfs_ok_def)
qed

lemma cfs_entries_refresh:
  assumes "cfs_entries K F (s, ts)"
  shows "cfs_entries K F (cfs_refresh_min s, ts)"
proof -
  have "isize_wrap m = m" if "min_vruntime (cfs_refresh_min s) = Some m" for m
    using assms that by (cases "cfs_queue s") (fastforce simp: cfs_refresh_min_def btree_first_def cfs_entries_def)+
  then show ?thesis using assms by (auto simp: cfs_entries_def)
qed

lemma cfs_entry_wrap: "cfs_entries K F (s, ts) \<Longrightarrow> isize_wrap (cfs_entry s) = cfs_entry s"
  by (auto simp: cfs_entry_def cfs_entries_def isize_wrap_def split: option.splits)

lemma cfs_entries_task:
  assumes "cfs_entries K F (s, ts)" "t \<notin> cfs_ready (s, ts)"
  shows "cfs_entries K F (s, ts(t := ct))"
proof -
  have "u \<noteq> t" if "(k, u) \<in> set (cfs_queue s)" for k u
    using assms(2) that by (force simp: cfs_ready_def)
  then show ?thesis using assms(1) by (fastforce simp: cfs_entries_def)
qed

lemma cfs_entries_subset:
  "cfs_entries K F (s, ts) \<Longrightarrow> set (cfs_queue s') \<subseteq> set (cfs_queue s) \<Longrightarrow> min_vruntime s' = min_vruntime s \<Longrightarrow>
    cfs_entries K F (s', ts)"
  unfolding cfs_entries_def by fastforce

lemma cfs_remove_ok:
  assumes "cfs_ok (s, ts)" "cfs_remove_task t (s, ts) = Some (r, s', ts')"
  shows "cfs_ok (s', ts')" "ts' = ts" "cfs_entries K F (s, ts) \<Longrightarrow> cfs_entries K F (s', ts')"
proof -
  have "nice (ts t) \<in> {- 20..19}" using assms(1) by (auto simp: cfs_ok_def)
  then obtain v where v: "get_vruntime (ts t) = Some v" using get_vruntime_some by blast
  let ?k = "(v, cfs_id (ts t))"
  have bt: "btree_ok (cfs_queue s)" using assms(1) by (simp add: cfs_ok_def)
  have sub: "set (btree_remove ?k (cfs_queue s)) \<subseteq> set (cfs_queue s)" by (auto simp: set_btree_remove)
  have bt': "btree_ok (btree_remove ?k (cfs_queue s))" using bt by (rule btree_ok_remove)
  have inj: "inj_on snd (set (cfs_queue s))" using assms(1) by (simp add: cfs_ok_def distinct_map)
  have d: "distinct (map snd (btree_remove ?k (cfs_queue s)))"
    using btree_ok_distinct [OF bt'] inj_on_subset [OF inj sub] by (simp add: distinct_map)
  have c: "(s', ts') = (s, ts) \<or> s' = cfs_refresh_min (s\<lparr> cfs_queue := btree_remove ?k (cfs_queue s) \<rparr>) \<and> ts' = ts"
    using assms(2) v by (auto simp: cfs_remove_task_def Let_def split: option.splits)
  show "cfs_ok (s', ts')" using c assms(1) bt' d sub by (fastforce simp: cfs_ok_def)
  show "ts' = ts" using c by auto
  show "cfs_entries K F (s', ts')" if e: "cfs_entries K F (s, ts)"
    using c e cfs_entries_refresh [OF cfs_entries_subset [OF e, of "s\<lparr> cfs_queue := btree_remove ?k (cfs_queue s) \<rparr>"]] sub
    by auto
qed

lemma cfs_run_inv: "cfs_run st K F \<Longrightarrow> cfs_ok st \<and> cfs_entries K F st"
proof (induction rule: cfs_run.induct)
  case (run_new K)
  then show ?case by (simp add: cfs_ok_def cfs_new_def cfs_task_new_def cfs_entries_def)
next
  case (run_add s ts K F t st')
  then have i: "cfs_ok (s, ts)" "cfs_entries K F (s, ts)" by simp_all
  have ok: "cfs_ok st'" using cfs.add_law [OF i(1) _ run_add(2), of 0] run_add(3,4) by auto
  have n: "nice (ts t) \<in> {- 20..19}" using i(1) by (auto simp: cfs_ok_def)
  note w = cfs_entry_wrap [OF i(2)]
  let ?F = "if cfs_delta (ts t) = 0 then F - {t} else insert t F"
  have v: "get_vruntime (cfs_set_id (id_pool s) (set_vruntime (cfs_entry s) (ts t))) = Some (cfs_entry s)" if "t \<notin> ?F"
    using that get_vruntime_fresh [OF _ n w] by (auto split: if_splits)
  have "st' = (cfs_refresh_min (s\<lparr> id_pool := isize_wrap (id_pool s + 1),
      cfs_queue := btree_insert (cfs_entry s, id_pool s) t (cfs_queue s) \<rparr>),
      ts(t := cfs_set_id (id_pool s) (set_vruntime (cfs_entry s) (ts t))))"
    using run_add(4) by (simp add: cfs_add_task_def cfs_entry_def Let_def)
  moreover have "cfs_entries (K(t := cfs_entry s)) ?F (s\<lparr> id_pool := isize_wrap (id_pool s + 1),
      cfs_queue := btree_insert (cfs_entry s, id_pool s) t (cfs_queue s) \<rparr>,
      ts(t := cfs_set_id (id_pool s) (set_vruntime (cfs_entry s) (ts t))))"
    by (rule cfs_entries_insert [OF i run_add(2) w v, where i = "id_pool s"]) (use i(2) in \<open>auto simp: cfs_entries_def\<close>)
  ultimately show ?case using ok cfs_entries_refresh by blast
next
  case (run_put s ts K F t p st')
  then have i: "cfs_ok (s, ts)" "cfs_entries K F (s, ts)" by simp_all
  have ok: "cfs_ok st'" using cfs.put_law [OF i(1) _ run_put(2), of 0 p] run_put(3,4) by auto
  obtain v where v: "get_vruntime (ts t) = Some v"
    and st': "st' = (s\<lparr> id_pool := isize_wrap (id_pool s + 1),
      cfs_queue := btree_insert (v, id_pool s) t (cfs_queue s) \<rparr>, ts(t := cfs_set_id (id_pool s) (ts t)))"
    using run_put(4) by (auto simp: cfs_put_prev_task_def Let_def)
  have "cfs_entries (K(t := v)) (F - {t}) st'"
    unfolding st' by (rule cfs_entries_insert [OF i run_put(2) get_vruntime_wrap [OF v], where i = "id_pool s"])
      (use i(2) v in \<open>auto simp: cfs_entries_def\<close>)
  then show ?case using ok v by (simp only: option.sel)
next
  case (run_pick st K F r st')
  obtain s ts where st: "st = (s, ts)" by (cases st)
  have i: "cfs_ok (s, ts)" "cfs_entries K F (s, ts)" using run_pick st by simp_all
  have "cfs_ok st'" using cfs.pick_cases [OF i(1)] run_pick(2) i(1) unfolding st by (metis Pair_inject option.inject)
  moreover have "set (cfs_queue (fst st')) \<subseteq> set (cfs_queue s)" "min_vruntime (fst st') = min_vruntime s" "snd st' = ts"
    using run_pick(2) unfolding st
    by (cases "cfs_queue s"; auto simp: cfs_pick_next_task_def btree_pop_first_def)+
  ultimately show ?case using cfs_entries_subset [OF i(2), of "fst st'"] by (cases st') simp
next
  case (run_remove st K F t r st')
  then show ?case using cfs_remove_ok [of "fst st" "snd st" t r "fst st'" "snd st'"] by (metis prod.collapse)
next
  case (run_tick st K F t b st')
  obtain s ts where st: "st = (s, ts)" by (cases st)
  have i: "cfs_ok (s, ts)" "cfs_entries K F (s, ts)" using run_tick st by simp_all
  have "cfs_ok st'" using cfs.tick_law [OF i(1), of t] run_tick(3) unfolding st by auto
  moreover have "st' = (s, ts(t := cfs_task_task_tick (ts t)))"
    using run_tick(3) by (auto simp: st cfs_task_tick_def Let_def split: option.splits)
  ultimately show ?case using cfs_entries_task [OF i(2)] run_tick(2) st by simp
next
  case (run_prio st K F t prio b st')
  obtain s ts where st: "st = (s, ts)" by (cases st)
  have i: "cfs_ok (s, ts)" "cfs_entries K F (s, ts)" using run_prio st by simp_all
  have "nice (ts t) \<in> {- 20..19}" using i(1) by (auto simp: cfs_ok_def)
  then have "st' = (s, ts) \<or> (\<exists>ct. st' = (s, ts(t := ct)) \<and> get_vruntime ct = get_vruntime (ts t))"
    using run_prio(2) set_priority_keeps_vruntime [of "ts t" prio]
    by (auto simp: st cfs_set_priority_def split: if_splits)
  then have "cfs_entries K F st'" using i(2) by (fastforce simp: cfs_entries_def)
  moreover have "cfs_ok st'" using cfs.prio_law [OF i(1), of t prio] run_prio(2) unfolding st by auto
  ultimately show ?case by simp
qed

lemma cfs_pick_least_key:
  assumes "cfs_ok (s, ts)" "cfs_pick_next_task (s, ts) = Some (Some t, st')"
  shows "\<exists>k. (k, t) \<in> set (cfs_queue s) \<and> (\<forall>(l, u)\<in>set (cfs_queue s). k \<le> l)"
proof -
  obtain k q where "cfs_queue s = (k, t) # q"
    using assms(2) by (cases "cfs_queue s") (auto simp: cfs_pick_next_task_def btree_pop_first_def)
  moreover have "btree_ok (cfs_queue s)" using assms(1) by (simp add: cfs_ok_def)
  ultimately show ?thesis
    using btree_first_least [of "cfs_queue s" k t] by (intro exI [of _ k]) (auto simp: btree_first_def)
qed

lemma cfs_remove_found:
  assumes "cfs_ok (s, ts)" "((v, i), t) \<in> set (cfs_queue s)" "get_vruntime (ts t) = Some v"
  shows "\<exists>st'. cfs_remove_task t (s, ts) = Some (Some t, st') \<and> cfs_ready st' = cfs_ready (s, ts) - {t}"
proof -
  have k: "cfs_id (ts t) = i" using assms(1,2) by (auto simp: cfs_ok_def)
  have bt: "btree_ok (cfs_queue s)" and "inj_on snd (set (cfs_queue s))"
    using assms(1) by (auto simp: cfs_ok_def distinct_map)
  then have "{x \<in> set (cfs_queue s). fst x \<noteq> (v, i)} = set (cfs_queue s) - {((v, i), t)}"
    using assms(2) btree_get_iff [OF bt, of "(v, i)"] by (auto simp: set_eq_iff) (metis option.sel)
  then have "snd ` {x \<in> set (cfs_queue s). fst x \<noteq> (v, i)} = snd ` set (cfs_queue s) - {t}"
    using \<open>inj_on snd _\<close> assms(2) by (simp add: inj_on_image_set_diff [where C = "set (cfs_queue s)"])
  moreover have "btree_get (v, i) (cfs_queue s) = Some t" using assms(2) bt by (simp add: btree_get_iff)
  ultimately show ?thesis
    by (simp add: cfs_remove_task_def k assms(3) Let_def cfs_ready_def set_btree_remove)
qed

text \<open>A task that has run, slept and is added again is queued under the minimum while its own
  virtual runtime still counts its earlier ticks, so \<open>remove_task\<close> does not find it.\<close>

lemma cfs_add_stale_key:
  "\<exists>st. cfs_add_task (0::nat) (cfs_new ((\<lambda>_. cfs_task_new)(0 := cfs_task_new\<lparr> cfs_delta := 5 \<rparr>))) = Some st
    \<and> 0 \<in> cfs_ready st \<and> cfs_remove_task 0 st = Some (None, st)"
  by (simp add: cfs_add_task_def cfs_new_def cfs_task_new_def cfs_refresh_min_def btree_first_def
      cfs_ready_def cfs_remove_task_def get_vruntime_def set_vruntime_def cfs_set_id_def isize_wrap_def
      btree_get_def Let_def)


section \<open>Properties\<close>

text \<open>C12: With the FIFO and the round robin scheduler no ready task starves: when the running
  tasks yield one after the other, the \<open>i\<close>-th task of the queue is running after \<open>i + 1\<close>
  yields, and after one yield per task the first one runs again with the queue as it was.\<close>

theorem yield_no_starvation:
  assumes "list_repr s xs" "distinct (cur # xs)" "i < length xs"
  shows "\<exists>s1 s2 r1 r2.
    fifo_rotate.yield_n (Suc i) cur s = Some (xs ! i, s1) \<and>
    fifo_rotate.yield_n (Suc (length xs)) cur s = Some (cur, s2) \<and> list_repr s2 xs \<and>
    rr_rotate.yield_n S (Suc i) cur (xs, slices) = Some (xs ! i, r1) \<and>
    rr_rotate.yield_n S (Suc (length xs)) cur (xs, slices) = Some (cur, r2) \<and> fst r2 = xs"
  using fifo_rotate.yield_runs_all [OF assms] fifo_rotate.yield_round [OF assms(1,2)]
    rr_rotate.yield_runs_all [of "(xs, slices)" xs cur i S] rr_rotate.yield_round [of "(xs, slices)" xs cur S]
    assms(2,3)
  unfolding rr_queue_def by (metis fst_conv)

theorem yield_no_starvation_witness:
  "\<exists>s s1. list_push_back (1::nat) (fifo_new (\<lambda>_. None)) = Some s \<and>
    fifo_rotate.yield_n 1 0 s = Some (1, s1) \<and>
    (\<exists>r1. rr_rotate.yield_n 5 1 0 ([1::nat], \<lambda>_. 5) = Some (1, r1))"
proof -
  let ?s = "insert_only_entry (1::nat) (fifo_new (\<lambda>_. None))"
  have "list_repr ?s [1]"
    by (simp add: list_repr_def insert_only_entry_def fifo_new_def)
  moreover have "list_push_back 1 (fifo_new (\<lambda>_. None)) = Some ?s"
    by (simp add: list_push_back_def fifo_new_def list_new_def)
  ultimately show ?thesis
    using yield_no_starvation [of ?s "[1]" 0 0 5 "\<lambda>_. 5"] unfolding One_nat_def by auto
qed

text \<open>C13: None of the three schedulers loses or duplicates a task: picking as often as there are
  ready tasks returns every one of them exactly once and leaves the scheduler empty.\<close>

theorem scheduler_keeps_tasks:
  assumes "fifo_ok f" "rr_ok r" "cfs_ok c"
  shows "(\<exists>ts f'. fifo.drain (card (fifo_ready f)) f = Some (ts, f') \<and> distinct ts \<and> set ts = fifo_ready f
      \<and> fifo_ready f' = {}) \<and>
    (\<exists>ts r'. rr.drain (card (rr_ready r)) r = Some (ts, r') \<and> distinct ts \<and> set ts = rr_ready r
      \<and> rr_ready r' = {}) \<and>
    (\<exists>ts c'. cfs.drain (card (cfs_ready c)) c = Some (ts, c') \<and> distinct ts \<and> set ts = cfs_ready c
      \<and> cfs_ready c' = {})"
  using fifo.drain_all [OF assms(1) refl] rr.drain_all [OF assms(2) refl] cfs.drain_all [OF assms(3) refl]
  by blast

theorem scheduler_keeps_tasks_witness:
  "\<exists>ts. cfs.drain 2 (\<lparr> cfs_queue = [((0, 1), 7), ((3, 0), 8)], min_vruntime = Some 0, id_pool = 2 \<rparr>,
      (\<lambda>t. cfs_task_new\<lparr> cfs_id := if t = 7 then 1 else 0 \<rparr>)) = Some ts \<and> set (fst ts) = {7, 8::nat}"
proof -
  let ?c = "(\<lparr> cfs_queue = [((0, 1), 7), ((3, 0), 8)], min_vruntime = Some 0, id_pool = 2 \<rparr>,
    (\<lambda>t. cfs_task_new\<lparr> cfs_id := if t = 7 then 1 else 0 \<rparr>)) :: nat cfs"
  have "cfs_ok ?c" by (simp add: cfs_ok_def btree_ok_def cfs_task_new_def)
  moreover have "fifo_ok (fifo_new (\<lambda>_. None))"
    by (rule fifo_okI [of _ "[]"]) (simp add: fifo_new_def list_new_def)
  moreover have "cfs_ready ?c = {7, 8}" "card {7, 8::nat} = 2" by (simp_all add: cfs_ready_def)
  ultimately show ?thesis
    using scheduler_keeps_tasks [of "fifo_new (\<lambda>_. None) :: nat fifo" "([], \<lambda>_. 0) :: nat rr" ?c]
    by (simp del: cfs.drain.simps add: rr_ok_def numeral_2_eq_2) blast
qed

text \<open>C14: A round robin task that starts with a full time slice \<open>S\<close> is asked to give up the
  processor by the \<open>S\<close>-th timer tick and by none before it.\<close>

theorem rr_slice_expires:
  assumes "ts t = rr_task_new S" "0 < S" "S < 2 ^ 63"
  shows "rr_ticks S t (q, ts) = Some (replicate (S - 1) False @ [True], q, ts(t := 0))"
proof -
  have "map (\<lambda>i. S - i \<le> 1) [0..<S] = map (\<lambda>i. S - i \<le> 1) ([0..<S - 1] @ [S - 1])"
    using assms(2) by (metis Suc_diff_1 upt_Suc_append zero_le)
  also have "\<dots> = replicate (S - 1) False @ [True]"
    by (auto simp: list_eq_iff_nth_eq nth_append)
  finally show ?thesis
    using rr_ticks_count [of ts t S S q] assms by (simp add: rr_task_new_def isize_wrap_id)
qed

theorem rr_slice_expires_witness:
  "rr_ticks 5 (1::nat) ([2], (\<lambda>_. 9)(1 := rr_task_new 5)) =
    Some ([False, False, False, False, True], [2], (\<lambda>_. 9)(1 := 0))"
proof -
  have "replicate 4 False = [False, False, False, False]" by (simp add: numeral_eq_Suc)
  then show ?thesis
    using rr_slice_expires [of "(\<lambda>_. 9)(1 := rr_task_new 5)" "1::nat" 5 "[2]"] by simp
qed



end
