(* ===== verification/Timer_List.thy ===== *)
theory Timer_List
  imports Main "HOL-Library.Multiset"
begin

text \<open>
  The timer list of \<open>src/crates/timer_list\<close>. Deadlines (\<open>Duration\<close>) are nanoseconds. The
  \<open>BinaryHeap\<close> of the standard library, with the reversed order of \<open>TimerEventWrapper\<close>, is
  a list sorted by deadline. The heap does not say which of several events with the same
  deadline comes first; here they come in the order they were set, and the lemmas about the
  order of expiry speak of deadlines only.
\<close>

type_synonym 'e timer_list = "(nat \<times> 'e) list"

definition timer_new :: "'e timer_list" where
  "timer_new = []"

definition timer_is_empty :: "'e timer_list \<Rightarrow> bool" where
  "timer_is_empty q = (q = [])"

primrec timer_set :: "nat \<Rightarrow> 'e \<Rightarrow> 'e timer_list \<Rightarrow> 'e timer_list" where
  "timer_set deadline e [] = [(deadline, e)]"
| "timer_set deadline e (x # q) =
    (if deadline < fst x then (deadline, e) # x # q else x # timer_set deadline e q)"

definition timer_cancel :: "('e \<Rightarrow> bool) \<Rightarrow> 'e timer_list \<Rightarrow> 'e timer_list" where
  "timer_cancel condition q = filter (\<lambda>x. \<not> condition (snd x)) q"

definition timer_next_deadline :: "'e timer_list \<Rightarrow> nat option" where
  "timer_next_deadline q = (case q of [] \<Rightarrow> None | x # _ \<Rightarrow> Some (fst x))"

definition timer_expire_one :: "nat \<Rightarrow> 'e timer_list \<Rightarrow> (nat \<times> 'e) option \<times> 'e timer_list" where
  "timer_expire_one now q = (case q of
     [] \<Rightarrow> (None, q)
   | x # q' \<Rightarrow> if fst x \<le> now then (Some x, q') else (None, q))"

definition timer_ok :: "'e timer_list \<Rightarrow> bool" where
  "timer_ok q \<longleftrightarrow> sorted (map fst q)"

lemma mset_timer_set [simp]: "mset (timer_set d e q) = add_mset (d, e) (mset q)"
  by (induction q) auto

lemma set_timer_set [simp]: "set (timer_set d e q) = insert (d, e) (set q)"
  by (induction q) auto

lemma timer_ok_set: "timer_ok q \<Longrightarrow> timer_ok (timer_set d e q)"
  by (induction q) (auto simp: timer_ok_def)

lemma timer_ok_cancel: "timer_ok q \<Longrightarrow> timer_ok (timer_cancel c q)"
  unfolding timer_ok_def timer_cancel_def by (rule sorted_filter)

lemma timer_ok_expire: "timer_ok q \<Longrightarrow> timer_ok (snd (timer_expire_one now q))"
  by (cases q) (auto simp: timer_expire_one_def timer_ok_def)

lemma timer_expire_Some:
  assumes "timer_ok q" "timer_expire_one now q = (Some (d, e), q')"
  shows "d \<le> now \<and> mset q = add_mset (d, e) (mset q') \<and> (\<forall>x\<in>set q. d \<le> fst x)"
  using assms by (cases q) (auto simp: timer_expire_one_def timer_ok_def split: if_splits)

lemma timer_expire_None:
  assumes "timer_ok q" "timer_expire_one now q = (None, q')"
  shows "q' = q \<and> (\<forall>x\<in>set q. now < fst x)"
  using assms by (cases q) (auto simp: timer_expire_one_def timer_ok_def split: if_splits)

text \<open>Calling \<open>expire_one\<close> until it returns nothing, as the clients do.\<close>

fun timer_expire_all :: "nat \<Rightarrow> 'e timer_list \<Rightarrow> (nat \<times> 'e) list \<times> 'e timer_list" where
  "timer_expire_all now q = (case timer_expire_one now q of
     (None, q') \<Rightarrow> ([], q')
   | (Some x, q') \<Rightarrow>
       if length q' < length q then (case timer_expire_all now q' of (xs, q'') \<Rightarrow> (x # xs, q''))
       else ([], q'))"

declare timer_expire_all.simps [simp del]

lemma timer_expire_all_Cons:
  "timer_expire_all now (x # q) = (if fst x \<le> now
    then (case timer_expire_all now q of (xs, q') \<Rightarrow> (x # xs, q')) else ([], x # q))"
  by (subst timer_expire_all.simps) (simp add: timer_expire_one_def)

lemma timer_expire_all_Nil: "timer_expire_all now [] = ([], [])"
  by (subst timer_expire_all.simps) (simp add: timer_expire_one_def)

lemma timer_expire_all_filter:
  "timer_ok q \<Longrightarrow> timer_expire_all now q = (filter (\<lambda>x. fst x \<le> now) q, filter (\<lambda>x. now < fst x) q)"
proof (induction q)
  case (Cons x q)
  then have ok: "timer_ok q" "\<forall>y\<in>set q. fst x \<le> fst y" by (auto simp: timer_ok_def)
  moreover have "filter (\<lambda>y. fst y \<le> now) q = []" "filter (\<lambda>y. now < fst y) q = q" if "\<not> fst x \<le> now"
    using that ok(2) by (force simp: filter_empty_conv filter_id_conv)+
  ultimately show ?case using Cons.IH by (auto simp: timer_expire_all_Cons)
qed (simp add: timer_expire_all_Nil)

text \<open>Sequences of set and cancel calls.\<close>

datatype 'e timer_op = Set nat 'e | Cancel "'e \<Rightarrow> bool"

primrec timer_run :: "'e timer_op list \<Rightarrow> 'e timer_list \<Rightarrow> 'e timer_list" where
  "timer_run [] q = q"
| "timer_run (x # xs) q = timer_run xs (case x of Set d e \<Rightarrow> timer_set d e q | Cancel c \<Rightarrow> timer_cancel c q)"

text \<open>The events pending after the calls, without any order.\<close>

primrec timer_pending :: "'e timer_op list \<Rightarrow> (nat \<times> 'e) multiset \<Rightarrow> (nat \<times> 'e) multiset" where
  "timer_pending [] M = M"
| "timer_pending (x # xs) M = timer_pending xs (case x of Set d e \<Rightarrow> add_mset (d, e) M
    | Cancel c \<Rightarrow> filter_mset (\<lambda>y. \<not> c (snd y)) M)"

lemma timer_run_spec: "timer_ok q \<Longrightarrow> timer_ok (timer_run xs q) \<and> mset (timer_run xs q) = timer_pending xs (mset q)"
proof (induction xs arbitrary: q)
  case (Cons x xs)
  show ?case
  proof (cases x)
    case (Set d e)
    then show ?thesis using Cons.IH [of "timer_set d e q"] Cons.prems by (simp add: timer_ok_set)
  next
    case (Cancel c)
    then show ?thesis using Cons.IH [of "timer_cancel c q"] Cons.prems
      by (simp add: timer_ok_cancel) (simp add: timer_cancel_def mset_filter)
  qed
qed simp

text \<open>C19: After any sequence of set and cancel calls, expiring at time \<open>now\<close> fires exactly the
  pending events whose deadline has passed, each once, in the order of their deadlines, and
  keeps the others.\<close>

theorem timers_fire_in_order:
  "case timer_expire_all now (timer_run ops timer_new) of (fired, rest) \<Rightarrow>
    mset fired = filter_mset (\<lambda>x. fst x \<le> now) (timer_pending ops {#}) \<and>
    mset rest = filter_mset (\<lambda>x. now < fst x) (timer_pending ops {#}) \<and>
    sorted (map fst fired)"
proof -
  have ok: "timer_ok (timer_run ops timer_new)" "mset (timer_run ops timer_new) = timer_pending ops {#}"
    using timer_run_spec [of timer_new ops] by (simp_all add: timer_new_def timer_ok_def)
  then show ?thesis
    by (simp add: timer_expire_all_filter mset_filter sorted_filter timer_ok_def)
qed

end
