(* ===== verification/Task_System.thy ===== *)
theory Task_System
  imports Schedulers Timer_List
begin

text \<open>
  The task module \<open>src/modules/axtask\<close> on one processor: tasks (\<open>task.rs\<close>), the run queue
  (\<open>run_queue.rs\<close>), wait queues (\<open>wait_queue.rs\<close>), timers (\<open>timers.rs\<close>) and the API
  (\<open>api.rs\<close>). The global variables and the fields of all tasks are one record; a field of
  \<open>TaskInner\<close> is a function of the task. The scheduler chosen by the cargo feature is a record
  of operations.

  Everything done while \<open>RUN_QUEUE\<close> is locked happens with interrupts and preemption disabled,
  so it is one function here. The guard of that lock counts in \<open>preempt_disable_count\<close>; the
  model leaves this one out of the counter, so \<open>can_preempt(1)\<close> under the lock reads
  \<open>0\<close> here. A call that switches away is cut at the switch: what the task still does when it
  runs again is its continuation \<open>k_cont\<close>. \<open>k_now\<close> is the time the clock shows; it does
  not move while an operation runs. An operation returns \<open>None\<close> when an assertion
  fails or the scheduler panics.
\<close>

section \<open>State\<close>

datatype TaskState = Running | Ready | Blocked | Exited

text \<open>A wait queue: the one of a task that waits for its exit, \<open>WAIT_FOR_EXIT\<close> of the garbage
  collector, or any other.\<close>

datatype 't wait_queue = Wait_for_exit 't | WAIT_FOR_EXIT | User_queue nat

text \<open>What a task does next: run its own code, or finish a call in which it was switched out.
  \<open>C_arm\<close>: the alarm is set, the task is not blocked yet; \<open>C_until_checked\<close>: the time was before the
  deadline, \<open>RUN_QUEUE\<close> is not locked yet; \<open>C_gc n\<close>: the garbage collector with \<open>n\<close> exited tasks left
  to look at.\<close>

datatype 't cont = C_run | C_wait "'t wait_queue" | C_wait_until "'t wait_queue"
  | C_arm "'t wait_queue" | C_wait_timeout "'t wait_queue" | C_wait_timeout_until "'t wait_queue" nat
  | C_until_checked "'t wait_queue" nat | C_sleep | C_gc nat

record ('t, 's) sched_ops =
  so_add :: "'t \<Rightarrow> 's \<Rightarrow> 's option"
  so_pick :: "'s \<Rightarrow> ('t option \<times> 's) option"
  so_put :: "'t \<Rightarrow> bool \<Rightarrow> 's \<Rightarrow> 's option"
  so_tick :: "'t \<Rightarrow> 's \<Rightarrow> (bool \<times> 's) option"
  so_prio :: "'t \<Rightarrow> int \<Rightarrow> 's \<Rightarrow> (bool \<times> 's) option"

record ('t, 's) kernel =
  k_tasks :: "'t set"
  k_name :: "'t \<Rightarrow> string"
  k_is_idle :: "'t \<Rightarrow> bool"
  k_state :: "'t \<Rightarrow> TaskState"
  k_in_wait_queue :: "'t \<Rightarrow> bool"
  k_in_timer_list :: "'t \<Rightarrow> bool"
  k_need_resched :: "'t \<Rightarrow> bool"
  k_preempt_count :: "'t \<Rightarrow> nat"
  k_exit_code :: "'t \<Rightarrow> int"
  k_cont :: "'t \<Rightarrow> 't cont"
  k_waiters :: "'t wait_queue \<Rightarrow> 't list"
  k_timers :: "'t timer_list"
  k_exited :: "'t list"
  k_sched :: 's
  k_current :: 't
  k_idle :: 't
  k_init :: 't
  k_gc :: 't
  k_halted :: bool
  k_now :: nat

section \<open>Tasks\<close>

definition set_state :: "'t \<Rightarrow> TaskState \<Rightarrow> ('t, 's) kernel \<Rightarrow> ('t, 's) kernel" where
  "set_state t st k = k\<lparr> k_state := (k_state k)(t := st) \<rparr>"

definition set_in_wait_queue :: "'t \<Rightarrow> bool \<Rightarrow> ('t, 's) kernel \<Rightarrow> ('t, 's) kernel" where
  "set_in_wait_queue t b k = k\<lparr> k_in_wait_queue := (k_in_wait_queue k)(t := b) \<rparr>"

definition set_in_timer_list :: "'t \<Rightarrow> bool \<Rightarrow> ('t, 's) kernel \<Rightarrow> ('t, 's) kernel" where
  "set_in_timer_list t b k = k\<lparr> k_in_timer_list := (k_in_timer_list k)(t := b) \<rparr>"

definition set_preempt_pending :: "'t \<Rightarrow> bool \<Rightarrow> ('t, 's) kernel \<Rightarrow> ('t, 's) kernel" where
  "set_preempt_pending t b k = k\<lparr> k_need_resched := (k_need_resched k)(t := b) \<rparr>"

definition can_preempt :: "'t \<Rightarrow> nat \<Rightarrow> ('t, 's) kernel \<Rightarrow> bool" where
  "can_preempt t n k = (k_preempt_count k t = n)"

definition is_running :: "'t \<Rightarrow> ('t, 's) kernel \<Rightarrow> bool" where
  "is_running t k = (k_state k t = Running)"

definition is_ready :: "'t \<Rightarrow> ('t, 's) kernel \<Rightarrow> bool" where
  "is_ready t k = (k_state k t = Ready)"

definition is_blocked :: "'t \<Rightarrow> ('t, 's) kernel \<Rightarrow> bool" where
  "is_blocked t k = (k_state k t = Blocked)"

definition set_cont :: "'t \<Rightarrow> 't cont \<Rightarrow> ('t, 's) kernel \<Rightarrow> ('t, 's) kernel" where
  "set_cont t c k = k\<lparr> k_cont := (k_cont k)(t := c) \<rparr>"

definition is_idle :: "'t \<Rightarrow> ('t, 's) kernel \<Rightarrow> bool" where
  "is_idle t k = k_is_idle k t"

text \<open>\<open>TaskInner::new_common\<close>: the fields of a new task. \<open>TaskInner::new\<close> and \<open>new_init\<close> make a task an
  idle task when that is its name.\<close>

definition new_common :: "'t \<Rightarrow> string \<Rightarrow> ('t, 's) kernel \<Rightarrow> ('t, 's) kernel" where
  "new_common t name k = k\<lparr>
     k_tasks := insert t (k_tasks k),
     k_name := (k_name k)(t := name),
     k_is_idle := (k_is_idle k)(t := False),
     k_state := (k_state k)(t := Ready),
     k_in_wait_queue := (k_in_wait_queue k)(t := False),
     k_in_timer_list := (k_in_timer_list k)(t := False),
     k_need_resched := (k_need_resched k)(t := False),
     k_preempt_count := (k_preempt_count k)(t := 0),
     k_exit_code := (k_exit_code k)(t := 0),
     k_cont := (k_cont k)(t := C_run),
     k_waiters := (k_waiters k)(Wait_for_exit t := []) \<rparr>"

definition task_new :: "'t \<Rightarrow> string \<Rightarrow> ('t, 's) kernel \<Rightarrow> ('t, 's) kernel" where
  "task_new t name k =
    (let k1 = new_common t name k in
     if k_name k1 t = ''idle'' then k1\<lparr> k_is_idle := (k_is_idle k1)(t := True) \<rparr> else k1)"

definition task_new_init :: "'t \<Rightarrow> string \<Rightarrow> ('t, 's) kernel \<Rightarrow> ('t, 's) kernel" where
  "task_new_init t name k =
    (let k1 = (new_common t name k)\<lparr> k_init := t \<rparr> in
     if k_name k1 t = ''idle'' then k1\<lparr> k_is_idle := (k_is_idle k1)(t := True) \<rparr> else k1)"

section \<open>The run queue\<close>

text \<open>\<open>switch_to\<close>: the count assertions on the references are the subject of the invariant below.\<close>

definition switch_to :: "'t \<Rightarrow> 't \<Rightarrow> ('t, 's) kernel \<Rightarrow> ('t, 's) kernel" where
  "switch_to prev_task next_task k =
    (let k1 = set_state next_task Running (set_preempt_pending next_task False k) in
     if prev_task = next_task then k1 else k1\<lparr> k_current := next_task \<rparr>)"

definition resched :: "('t, 's) sched_ops \<Rightarrow> bool \<Rightarrow> ('t, 's) kernel \<Rightarrow> ('t, 's) kernel option" where
  "resched ops preempt k =
    (let prev = k_current k in
     Option.bind
       (if is_running prev k
        then let k1 = set_state prev Ready k in
             if \<not> is_idle prev k
             then map_option (\<lambda>s. k1\<lparr> k_sched := s \<rparr>) (so_put ops prev preempt (k_sched k1))
             else Some k1
        else Some k)
       (\<lambda>k2. Option.bind (so_pick ops (k_sched k2))
         (\<lambda>(r, s). Some (switch_to prev (case r of Some t \<Rightarrow> t | None \<Rightarrow> k_idle k) (k2\<lparr> k_sched := s \<rparr>)))))"

definition rq_add_task :: "('t, 's) sched_ops \<Rightarrow> 't \<Rightarrow> ('t, 's) kernel \<Rightarrow> ('t, 's) kernel option" where
  "rq_add_task ops t k = (if is_ready t k
    then map_option (\<lambda>s. k\<lparr> k_sched := s \<rparr>) (so_add ops t (k_sched k)) else None)"

definition scheduler_timer_tick :: "('t, 's) sched_ops \<Rightarrow> ('t, 's) kernel \<Rightarrow> ('t, 's) kernel option" where
  "scheduler_timer_tick ops k =
    (let curr = k_current k in
     if \<not> is_idle curr k
     then map_option (\<lambda>(b, s). (if b then set_preempt_pending curr True else id) (k\<lparr> k_sched := s \<rparr>))
       (so_tick ops curr (k_sched k))
     else Some k)"

definition yield_current :: "('t, 's) sched_ops \<Rightarrow> ('t, 's) kernel \<Rightarrow> ('t, 's) kernel option" where
  "yield_current ops k = (if is_running (k_current k) k then resched ops False k else None)"

definition set_current_priority :: "('t, 's) sched_ops \<Rightarrow> int \<Rightarrow> ('t, 's) kernel \<Rightarrow> (bool \<times> ('t, 's) kernel) option" where
  "set_current_priority ops prio k =
    map_option (\<lambda>(b, s). (b, k\<lparr> k_sched := s \<rparr>)) (so_prio ops (k_current k) prio (k_sched k))"

definition preempt_resched :: "('t, 's) sched_ops \<Rightarrow> ('t, 's) kernel \<Rightarrow> ('t, 's) kernel option" where
  "preempt_resched ops k =
    (let curr = k_current k in
     if is_running curr k then
       if can_preempt curr 0 k then resched ops True k
       else Some (set_preempt_pending curr True k)
     else None)"

definition disable_preempt :: "'t \<Rightarrow> ('t, 's) kernel \<Rightarrow> ('t, 's) kernel" where
  "disable_preempt t k = k\<lparr> k_preempt_count := (k_preempt_count k)(t := (k_preempt_count k t + 1) mod 2 ^ 64) \<rparr>"

definition current_check_preempt_pending :: "('t, 's) sched_ops \<Rightarrow> ('t, 's) kernel \<Rightarrow> ('t, 's) kernel option" where
  "current_check_preempt_pending ops k =
    (let curr = k_current k in
     if k_need_resched k curr \<and> can_preempt curr 0 k
     then (if k_need_resched k curr then preempt_resched ops k else Some k)
     else Some k)"

definition enable_preempt :: "('t, 's) sched_ops \<Rightarrow> 't \<Rightarrow> bool \<Rightarrow> ('t, 's) kernel \<Rightarrow> ('t, 's) kernel option" where
  "enable_preempt ops t resch k =
    (let old = k_preempt_count k t;
         k1 = k\<lparr> k_preempt_count := (k_preempt_count k)(t := (old + (2 ^ 64 - 1)) mod 2 ^ 64) \<rparr>
     in if old = 1 \<and> resch then current_check_preempt_pending ops k1 else Some k1)"

definition unblock_task :: "('t, 's) sched_ops \<Rightarrow> 't \<Rightarrow> bool \<Rightarrow> ('t, 's) kernel \<Rightarrow> ('t, 's) kernel option" where
  "unblock_task ops t resch k =
    (if is_blocked t k
     then let k1 = set_state t Ready k in
       map_option (\<lambda>s. (if resch then set_preempt_pending (k_current k) True else id) (k1\<lparr> k_sched := s \<rparr>))
         (so_add ops t (k_sched k1))
     else Some k)"

definition block_current ::
  "('t, 's) sched_ops \<Rightarrow> ('t \<Rightarrow> ('t, 's) kernel \<Rightarrow> ('t, 's) kernel) \<Rightarrow> ('t, 's) kernel \<Rightarrow> ('t, 's) kernel option" where
  "block_current ops wait_queue_push k =
    (let curr = k_current k in
     if is_running curr k \<and> \<not> is_idle curr k \<and> can_preempt curr 0 k
     then resched ops False (wait_queue_push curr (set_state curr Blocked k))
     else None)"

section \<open>Timers\<close>

definition set_alarm_wakeup :: "nat \<Rightarrow> 't \<Rightarrow> ('t, 's) kernel \<Rightarrow> ('t, 's) kernel" where
  "set_alarm_wakeup deadline t k =
    (let k1 = set_in_timer_list t True k in k1\<lparr> k_timers := timer_set deadline t (k_timers k1) \<rparr>)"

definition cancel_alarm :: "'t \<Rightarrow> ('t, 's) kernel \<Rightarrow> ('t, 's) kernel" where
  "cancel_alarm t k =
    (let k1 = set_in_timer_list t False k in k1\<lparr> k_timers := timer_cancel (\<lambda>u. u = t) (k_timers k1) \<rparr>)"

definition TaskWakeupEvent_callback :: "('t, 's) sched_ops \<Rightarrow> 't \<Rightarrow> ('t, 's) kernel \<Rightarrow> ('t, 's) kernel option" where
  "TaskWakeupEvent_callback ops t k = unblock_task ops t True (set_in_timer_list t False k)"

definition sleep_until :: "('t, 's) sched_ops \<Rightarrow> nat \<Rightarrow> ('t, 's) kernel \<Rightarrow> ('t, 's) kernel option" where
  "sleep_until ops deadline k =
    (let curr = k_current k in
     if is_running curr k \<and> \<not> is_idle curr k then
       if k_now k < deadline
       then resched ops False (set_cont curr C_sleep (set_state curr Blocked (set_alarm_wakeup deadline curr k)))
       else Some k
     else None)"

text \<open>The loop of \<open>check_events\<close>. It ends because a callback never sets an alarm.\<close>

lemma unblock_task_frame:
  assumes "unblock_task ops t b k = Some k'"
  shows "k_tasks k' = k_tasks k" "k_in_wait_queue k' = k_in_wait_queue k" "k_in_timer_list k' = k_in_timer_list k"
    "k_preempt_count k' = k_preempt_count k" "k_exit_code k' = k_exit_code k" "k_cont k' = k_cont k"
    "k_waiters k' = k_waiters k" "k_timers k' = k_timers k" "k_exited k' = k_exited k"
    "k_current k' = k_current k" "k_idle k' = k_idle k \<and> k_is_idle k' = k_is_idle k \<and> k_gc k' = k_gc k" "k_init k' = k_init k" "k_halted k' = k_halted k" "k_now k' = k_now k"
    "k_state k' = (if k_state k t = Blocked then (k_state k)(t := Ready) else k_state k)"
  using assms by (auto simp: unblock_task_def is_blocked_def set_state_def set_preempt_pending_def Let_def
      split: if_splits)

function check_events :: "('t, 's) sched_ops \<Rightarrow> ('t, 's) kernel \<Rightarrow> ('t, 's) kernel option" where
  "check_events ops k = (case timer_expire_one (k_now k) (k_timers k) of
     (None, q) \<Rightarrow> Some (k\<lparr> k_timers := q \<rparr>)
   | (Some (_, t), q) \<Rightarrow> (case TaskWakeupEvent_callback ops t (k\<lparr> k_timers := q \<rparr>) of
       None \<Rightarrow> None
     | Some k' \<Rightarrow> check_events ops k'))"
  by pat_completeness auto
termination
  by (relation "measure (\<lambda>(_, k). length (k_timers k))")
    (auto simp: TaskWakeupEvent_callback_def set_in_timer_list_def timer_expire_one_def
      unblock_task_frame(8) split: if_splits list.splits)

declare check_events.simps [simp del]

definition on_timer_tick :: "('t, 's) sched_ops \<Rightarrow> ('t, 's) kernel \<Rightarrow> ('t, 's) kernel option" where
  "on_timer_tick ops k = Option.bind (check_events ops k) (scheduler_timer_tick ops)"

section \<open>Wait queues\<close>

definition wq_push :: "'t wait_queue \<Rightarrow> 't \<Rightarrow> ('t, 's) kernel \<Rightarrow> ('t, 's) kernel" where
  "wq_push q t k = (let k1 = set_in_wait_queue t True k in
    k1\<lparr> k_waiters := (k_waiters k1)(q := k_waiters k1 q @ [t]) \<rparr>)"

definition cancel_events :: "'t wait_queue \<Rightarrow> ('t, 's) kernel \<Rightarrow> ('t, 's) kernel" where
  "cancel_events q k =
    (let curr = k_current k;
         k1 = (if k_in_wait_queue k curr
               then set_in_wait_queue curr False
                 (k\<lparr> k_waiters := (k_waiters k)(q := filter (\<lambda>t. \<not> curr = t) (k_waiters k q)) \<rparr>)
               else k)
     in if k_in_timer_list k1 curr then cancel_alarm curr k1 else k1)"

definition wait_block :: "('t, 's) sched_ops \<Rightarrow> 't wait_queue \<Rightarrow> ('t, 's) kernel \<Rightarrow> ('t, 's) kernel option" where
  "wait_block ops q k = block_current ops (\<lambda>t. set_cont t (C_wait q) \<circ> wq_push q t) k"

definition wait_resume :: "'t wait_queue \<Rightarrow> ('t, 's) kernel \<Rightarrow> ('t, 's) kernel" where
  "wait_resume q k = set_cont (k_current k) C_run (cancel_events q k)"

text \<open>One turn of the loop of \<open>wait_until\<close>; \<open>c\<close> is the value of the condition.\<close>

definition wait_until_turn ::
  "('t, 's) sched_ops \<Rightarrow> 't wait_queue \<Rightarrow> bool \<Rightarrow> ('t, 's) kernel \<Rightarrow> ('t, 's) kernel option" where
  "wait_until_turn ops q c k =
    (if c then Some (wait_resume q k)
     else block_current ops (\<lambda>t. set_cont t (C_wait_until q) \<circ> wq_push q t) k)"

definition wait_timeout_arm :: "'t wait_queue \<Rightarrow> nat \<Rightarrow> ('t, 's) kernel \<Rightarrow> ('t, 's) kernel" where
  "wait_timeout_arm q dur k =
    (let deadline = k_now k + dur in
     set_cont (k_current k) (C_arm q) (set_alarm_wakeup deadline (k_current k) k))"

definition wait_timeout_block :: "('t, 's) sched_ops \<Rightarrow> 't wait_queue \<Rightarrow> ('t, 's) kernel \<Rightarrow> ('t, 's) kernel option" where
  "wait_timeout_block ops q k = block_current ops (\<lambda>t. set_cont t (C_wait_timeout q) \<circ> wq_push q t) k"

text \<open>The result of \<open>wait_timeout\<close> is whether the task is still in the queue.\<close>

definition wait_timeout_resume :: "'t wait_queue \<Rightarrow> ('t, 's) kernel \<Rightarrow> bool \<times> ('t, 's) kernel" where
  "wait_timeout_resume q k = (k_in_wait_queue k (k_current k), wait_resume q k)"

definition wait_timeout_until_arm :: "'t wait_queue \<Rightarrow> nat \<Rightarrow> ('t, 's) kernel \<Rightarrow> ('t, 's) kernel" where
  "wait_timeout_until_arm q dur k =
    (let deadline = k_now k + dur in
     set_cont (k_current k) (C_wait_timeout_until q deadline) (set_alarm_wakeup deadline (k_current k) k))"

text \<open>One turn of the loop of \<open>wait_timeout_until\<close> looks at the time before it locks \<open>RUN_QUEUE\<close> for the
  condition and the block, so it is two steps. The result is \<open>timeout\<close> when the loop is left.\<close>

definition wait_timeout_until_check ::
  "'t wait_queue \<Rightarrow> nat \<Rightarrow> ('t, 's) kernel \<Rightarrow> bool option \<times> ('t, 's) kernel" where
  "wait_timeout_until_check q deadline k =
    (if k_now k < deadline then (None, set_cont (k_current k) (C_until_checked q deadline) k)
     else (Some True, wait_resume q k))"

definition wait_timeout_until_turn ::
  "('t, 's) sched_ops \<Rightarrow> 't wait_queue \<Rightarrow> nat \<Rightarrow> bool \<Rightarrow> ('t, 's) kernel \<Rightarrow>
    (bool option \<times> ('t, 's) kernel) option" where
  "wait_timeout_until_turn ops q deadline c k =
    (if c then Some (Some False, wait_resume q k)
     else map_option (Pair None)
       (block_current ops (\<lambda>t. set_cont t (C_wait_timeout_until q deadline) \<circ> wq_push q t) k))"

definition notify_one_locked ::
  "('t, 's) sched_ops \<Rightarrow> 't wait_queue \<Rightarrow> bool \<Rightarrow> ('t, 's) kernel \<Rightarrow> (bool \<times> ('t, 's) kernel) option" where
  "notify_one_locked ops q resch k = (case k_waiters k q of
     [] \<Rightarrow> Some (False, k)
   | t # ts \<Rightarrow> map_option (Pair True)
       (unblock_task ops t resch (set_in_wait_queue t False (k\<lparr> k_waiters := (k_waiters k)(q := ts) \<rparr>))))"

definition notify_one ::
  "('t, 's) sched_ops \<Rightarrow> 't wait_queue \<Rightarrow> bool \<Rightarrow> ('t, 's) kernel \<Rightarrow> (bool \<times> ('t, 's) kernel) option" where
  "notify_one ops q resch k = (if k_waiters k q \<noteq> [] then notify_one_locked ops q resch k else Some (False, k))"

text \<open>\<open>notify_all\<close> and \<open>notify_all_locked\<close> pop until the queue is empty.\<close>

function notify_all :: "('t, 's) sched_ops \<Rightarrow> 't wait_queue \<Rightarrow> bool \<Rightarrow> ('t, 's) kernel \<Rightarrow> ('t, 's) kernel option" where
  "notify_all ops q resch k = (case notify_one_locked ops q resch k of
     None \<Rightarrow> None
   | Some (False, k') \<Rightarrow> Some k'
   | Some (True, k') \<Rightarrow> notify_all ops q resch k')"
  by pat_completeness auto
termination
  by (relation "measure (\<lambda>(_, q, _, k). length (k_waiters k q))")
    (auto simp: notify_one_locked_def set_in_wait_queue_def unblock_task_frame(7) split: list.splits)

declare notify_all.simps [simp del]

definition notify_task ::
  "('t, 's) sched_ops \<Rightarrow> 't wait_queue \<Rightarrow> bool \<Rightarrow> 't \<Rightarrow> ('t, 's) kernel \<Rightarrow> (bool \<times> ('t, 's) kernel) option" where
  "notify_task ops q resch t k = (case position (\<lambda>u. u = t) (k_waiters k q) of
     None \<Rightarrow> Some (False, k)
   | Some index \<Rightarrow>
       let k1 = set_in_wait_queue t False k in
       (case vec_remove index (k_waiters k q) of
          (Some u, ts) \<Rightarrow> map_option (Pair True) (unblock_task ops u resch (k1\<lparr> k_waiters := (k_waiters k1)(q := ts) \<rparr>))
        | (None, _) \<Rightarrow> None))"

section \<open>Spawn, exit, join and the garbage collector\<close>

definition spawn_raw :: "('t, 's) sched_ops \<Rightarrow> 't \<Rightarrow> string \<Rightarrow> ('t, 's) kernel \<Rightarrow> ('t, 's) kernel option" where
  "spawn_raw ops t name k = rq_add_task ops t (task_new t name k)"

definition notify_exit :: "('t, 's) sched_ops \<Rightarrow> 't \<Rightarrow> int \<Rightarrow> ('t, 's) kernel \<Rightarrow> ('t, 's) kernel option" where
  "notify_exit ops t code k =
    notify_all ops (Wait_for_exit t) False (k\<lparr> k_exit_code := (k_exit_code k)(t := code) \<rparr>)"

text \<open>\<open>axhal::misc::terminate\<close> stops the machine.\<close>

definition exit_current :: "('t, 's) sched_ops \<Rightarrow> int \<Rightarrow> ('t, 's) kernel \<Rightarrow> ('t, 's) kernel option" where
  "exit_current ops code k =
    (let curr = k_current k in
     if is_running curr k \<and> \<not> is_idle curr k then
       if curr = k_init k then Some (k\<lparr> k_exited := [], k_halted := True \<rparr>)
       else Option.bind (notify_exit ops curr code (set_state curr Exited k))
         (\<lambda>k1. Option.bind (notify_one_locked ops WAIT_FOR_EXIT False (k1\<lparr> k_exited := k_exited k1 @ [curr] \<rparr>))
           (\<lambda>(_, k2). resched ops False k2))
     else None)"

text \<open>\<open>join\<close> waits on the exit queue of the task until its state is \<open>Exited\<close> and then reads
  the exit code.\<close>

definition join_turn :: "('t, 's) sched_ops \<Rightarrow> 't \<Rightarrow> ('t, 's) kernel \<Rightarrow> ('t, 's) kernel option" where
  "join_turn ops t k = wait_until_turn ops (Wait_for_exit t) (k_state k t = Exited) k"

text \<open>\<open>gc_entry\<close> reads the length of \<open>EXITED_TASKS\<close>, then takes that many tasks one by one from its front,
  and waits. A task it is the last holder of, by the strong counts \<open>refs\<close>, is dropped, any other is
  pushed back. Nothing but the order of the queue can change between a pop and the push, so the turn
  of the loop is one step.\<close>

definition gc_begin :: "('t, 's) kernel \<Rightarrow> ('t, 's) kernel" where
  "gc_begin k = set_cont (k_current k) (C_gc (length (k_exited k))) k"

definition gc_turn :: "('t \<Rightarrow> nat) \<Rightarrow> nat \<Rightarrow> ('t, 's) kernel \<Rightarrow> ('t, 's) kernel" where
  "gc_turn refs n k = set_cont (k_current k) (C_gc n) (case k_exited k of
     [] \<Rightarrow> k
   | t # ts \<Rightarrow> if refs t = 1 then k\<lparr> k_exited := ts, k_tasks := k_tasks k - {t} \<rparr>
       else k\<lparr> k_exited := ts @ [t] \<rparr>)"

definition gc_wait :: "('t, 's) sched_ops \<Rightarrow> ('t, 's) kernel \<Rightarrow> ('t, 's) kernel option" where
  "gc_wait ops k = wait_block ops WAIT_FOR_EXIT k"

text \<open>\<open>init\<close>: the idle task, the init task running, and the run queue holding the garbage
  collector.\<close>

definition sched_init :: "('t, 's) sched_ops \<Rightarrow> 's \<Rightarrow> 't \<Rightarrow> 't \<Rightarrow> 't \<Rightarrow> ('t, 's) kernel option" where
  "sched_init ops s0 idle main gc =
    (let k0 = \<lparr> k_tasks = {}, k_name = (\<lambda>_. []), k_is_idle = (\<lambda>_. False), k_state = (\<lambda>_. Exited),
        k_in_wait_queue = (\<lambda>_. False), k_in_timer_list = (\<lambda>_. False),
        k_need_resched = (\<lambda>_. False), k_preempt_count = (\<lambda>_. 0), k_exit_code = (\<lambda>_. 0), k_cont = (\<lambda>_. C_run),
        k_waiters = (\<lambda>_. []), k_timers = timer_new, k_exited = [], k_sched = s0, k_current = main,
        k_idle = idle, k_init = main, k_gc = gc, k_halted = False, k_now = 0 \<rparr>;
         k1 = set_state main Running (task_new_init main ''main'' (task_new idle ''idle'' k0))
     in map_option (\<lambda>s. (task_new gc ''gc'' k1)\<lparr> k_sched := s \<rparr>) (so_add ops gc s0))"

end
