(* ===== verification/Task_Invariants.thy ===== *)
theory Task_Invariants
  imports Task_System
begin

text \<open>
  The invariant of the task system: exactly one task runs, the scheduler holds exactly the
  ready tasks, every blocked task is in the wait queue or timer list that will wake it, and the
  flags of a task tell where it is. Every operation keeps it and, under the conditions its
  assertions state, returns. The lemmas are proved once for every scheduler that meets the
  trait, in the locale \<open>run_queue\<close>.
\<close>

section \<open>The invariant\<close>

definition queues :: "('t, 's) kernel \<Rightarrow> 't \<Rightarrow> 't wait_queue set" where
  "queues k t = {q. t \<in> set (k_waiters k q)}"

definition alarms :: "('t, 's) kernel \<Rightarrow> 't \<Rightarrow> nat set" where
  "alarms k t = {d. (d, t) \<in> set (k_timers k)}"

text \<open>What the continuation of a task says about its state, the queues it is in, its alarms and
  the time.\<close>

fun cont_ok :: "'t cont \<Rightarrow> TaskState \<Rightarrow> 't wait_queue set \<Rightarrow> nat set \<Rightarrow> nat \<Rightarrow> bool" where
  "cont_ok C_run st W A now \<longleftrightarrow> W = {} \<and> A = {} \<and> st \<noteq> Blocked"
| "cont_ok (C_wait q) st W A now \<longleftrightarrow> A = {} \<and> W = (if st = Blocked then {q} else {})"
| "cont_ok (C_wait_until q) st W A now \<longleftrightarrow> A = {} \<and> W = (if st = Blocked then {q} else {})"
| "cont_ok (C_arm q) st W A now \<longleftrightarrow> W = {} \<and> st \<noteq> Blocked"
| "cont_ok (C_wait_timeout q) st W A now \<longleftrightarrow> W \<subseteq> {q} \<and> (st = Blocked \<longrightarrow> W = {q})"
| "cont_ok (C_wait_timeout_until q d) st W A now \<longleftrightarrow> W \<subseteq> {q} \<and> A \<subseteq> {d} \<and> (st = Blocked \<longrightarrow> W = {q}) \<and>
    (W \<noteq> {} \<longrightarrow> st \<noteq> Blocked \<longrightarrow> d \<le> now)"
| "cont_ok (C_until_checked q d) st W A now \<longleftrightarrow> W = {} \<and> A \<subseteq> {d} \<and> st \<noteq> Blocked"
| "cont_ok C_sleep st W A now \<longleftrightarrow> W = {} \<and> (A \<noteq> {} \<longleftrightarrow> st = Blocked)"
| "cont_ok (C_gc n) st W A now \<longleftrightarrow> W = {} \<and> A = {} \<and> st \<noteq> Blocked"

definition task_ok :: "('t, 's) kernel \<Rightarrow> 't \<Rightarrow> bool" where
  "task_ok k t \<longleftrightarrow> (k_in_wait_queue k t \<longleftrightarrow> queues k t \<noteq> {}) \<and> (k_in_timer_list k t \<longleftrightarrow> alarms k t \<noteq> {}) \<and>
    (k_state k t = Exited \<longrightarrow> k_cont k t = C_run) \<and>
    cont_ok (k_cont k t) (k_state k t) (queues k t) (alarms k t) (k_now k)"

definition lists_ok :: "('t, 's) kernel \<Rightarrow> bool" where
  "lists_ok k \<longleftrightarrow> (\<forall>q. distinct (k_waiters k q) \<and> set (k_waiters k q) \<subseteq> k_tasks k - {k_idle k}) \<and>
    distinct (map snd (k_timers k)) \<and> snd ` set (k_timers k) \<subseteq> k_tasks k - {k_idle k} \<and>
    timer_ok (k_timers k) \<and> k_cont k (k_idle k) = C_run"

text \<open>Nobody waits for a task that has exited, and the exited tasks are those kept for the
  garbage collector.\<close>

definition exits_ok :: "('t, 's) kernel \<Rightarrow> bool" where
  "exits_ok k \<longleftrightarrow> (\<forall>t. t \<notin> k_tasks k \<or> k_state k t = Exited \<longrightarrow> k_waiters k (Wait_for_exit t) = []) \<and>
    set (k_exited k) = {t \<in> k_tasks k. k_state k t = Exited} \<and> distinct (k_exited k)"

definition run_core :: "('s \<Rightarrow> bool) \<Rightarrow> ('s \<Rightarrow> 't set) \<Rightarrow> ('t, 's) kernel \<Rightarrow> bool" where
  "run_core sok rdy k \<longleftrightarrow> sok (k_sched k) \<and>
    rdy (k_sched k) = {t \<in> k_tasks k. k_state k t = Ready \<and> t \<noteq> k_idle k} \<and>
    k_current k \<in> k_tasks k \<and> k_idle k \<in> k_tasks k \<and> (\<forall>t\<in>k_tasks k. k_is_idle k t \<longleftrightarrow> t = k_idle k) \<and>
    (\<forall>t\<in>k_tasks k. k_state k t = Running \<longrightarrow> t = k_current k) \<and> k_state k (k_idle k) \<in> {Ready, Running}"

definition kernel_mid :: "('s \<Rightarrow> bool) \<Rightarrow> ('s \<Rightarrow> 't set) \<Rightarrow> ('t, 's) kernel \<Rightarrow> bool" where
  "kernel_mid sok rdy k \<longleftrightarrow> run_core sok rdy k \<and> (\<forall>t\<in>k_tasks k. task_ok k t) \<and> lists_ok k"

definition kernel_core :: "('s \<Rightarrow> bool) \<Rightarrow> ('s \<Rightarrow> 't set) \<Rightarrow> ('t, 's) kernel \<Rightarrow> bool" where
  "kernel_core sok rdy k \<longleftrightarrow> kernel_mid sok rdy k \<and> exits_ok k"

definition kernel_inv :: "('s \<Rightarrow> bool) \<Rightarrow> ('s \<Rightarrow> 't set) \<Rightarrow> ('t, 's) kernel \<Rightarrow> bool" where
  "kernel_inv sok rdy k \<longleftrightarrow> kernel_core sok rdy k \<and> k_state k (k_current k) = Running"

named_theorems kdefs \<open>updates of the kernel state\<close>

lemmas [kdefs] = set_state_def set_in_wait_queue_def set_in_timer_list_def set_preempt_pending_def
  set_cont_def is_running_def is_ready_def is_blocked_def can_preempt_def Let_def

lemma set_in_wait_queue_waiters:
  "(set_in_wait_queue t b k)\<lparr> k_waiters := w \<rparr> = set_in_wait_queue t b (k\<lparr> k_waiters := w \<rparr>)"
  "k_waiters (set_in_wait_queue t b k) = k_waiters k"
  by (cases k, simp add: set_in_wait_queue_def)+

text \<open>A task is fine as long as its own data are.\<close>

lemma cont_ok_state:
  "(st = Blocked \<longleftrightarrow> st' = Blocked) \<Longrightarrow> cont_ok c st W A n = cont_ok c st' W A n"
  by (cases c) auto

lemma cont_ok_later: "cont_ok c st W A n \<Longrightarrow> n \<le> n' \<Longrightarrow> cont_ok c st W A n'"
  by (cases c) auto

lemma task_ok_cong:
  assumes "queues k' t = queues k t" "alarms k' t = alarms k t" "k_in_wait_queue k' t = k_in_wait_queue k t"
    "k_in_timer_list k' t = k_in_timer_list k t" "k_cont k' t = k_cont k t" "k_now k' = k_now k"
    "k_state k' t = Blocked \<longleftrightarrow> k_state k t = Blocked" "k_state k' t = Exited \<longleftrightarrow> k_state k t = Exited"
  shows "task_ok k' t = task_ok k t"
  using assms cont_ok_state [OF assms(7), of "k_cont k t" "queues k t" "alarms k t" "k_now k"]
  by (simp add: task_ok_def)

text \<open>Waking a task after it has left the queue or the timer list it was in.\<close>

lemma cont_ok_unqueue: "cont_ok c st W A n \<Longrightarrow> W \<noteq> {} \<Longrightarrow> st' \<noteq> Blocked \<Longrightarrow> cont_ok c st' {} A n"
  by (cases c) (auto split: if_splits)

lemma cont_ok_alarm:
  "cont_ok c st W A n \<Longrightarrow> d \<in> A \<Longrightarrow> d \<le> n \<Longrightarrow> st' \<noteq> Blocked \<Longrightarrow> cont_ok c st' W {} n"
  by (cases c) (auto split: if_splits)

lemma cont_ok_unique: "cont_ok c st W A n \<Longrightarrow> q \<in> W \<Longrightarrow> W = {q}"
  by (cases c) (auto split: if_splits)

lemma cont_ok_left_queue: "cont_ok c st W A n \<Longrightarrow> W \<noteq> {} \<Longrightarrow> cont_ok c st' {} A' n' \<Longrightarrow> st' \<noteq> Blocked"
  by (cases c) (auto split: if_splits)

text \<open>The fields a switch does not touch, and the distinctions of states it keeps.\<close>

definition run_frame :: "('t, 's) kernel \<Rightarrow> ('t, 's) kernel \<Rightarrow> bool" where
  "run_frame k k' \<longleftrightarrow> k_tasks k' = k_tasks k \<and> k_in_wait_queue k' = k_in_wait_queue k \<and>
    k_in_timer_list k' = k_in_timer_list k \<and> k_preempt_count k' = k_preempt_count k \<and>
    k_exit_code k' = k_exit_code k \<and> k_cont k' = k_cont k \<and> k_waiters k' = k_waiters k \<and>
    k_timers k' = k_timers k \<and> k_exited k' = k_exited k \<and> k_idle k' = k_idle k \<and>
    k_init k' = k_init k \<and> k_halted k' = k_halted k \<and> k_now k' = k_now k \<and>
    (\<forall>t\<in>k_tasks k. (k_state k' t = Blocked \<longleftrightarrow> k_state k t = Blocked) \<and>
      (k_state k' t = Exited \<longleftrightarrow> k_state k t = Exited)) \<and>
    (\<forall>t. t \<notin> k_tasks k \<longrightarrow> k_state k' t = k_state k t)"

lemma run_frame_ok:
  assumes "run_frame k k'"
  shows "(\<forall>t\<in>k_tasks k'. task_ok k' t) = (\<forall>t\<in>k_tasks k. task_ok k t)" "lists_ok k' = lists_ok k"
    "exits_ok k' = exits_ok k"
proof -
  have "task_ok k' t = task_ok k t" if "t \<in> k_tasks k" for t
    by (rule task_ok_cong) (use assms that in \<open>auto simp: run_frame_def queues_def alarms_def\<close>)
  then show "(\<forall>t\<in>k_tasks k'. task_ok k' t) = (\<forall>t\<in>k_tasks k. task_ok k t)"
    using assms by (simp add: run_frame_def)
  show "lists_ok k' = lists_ok k" using assms by (simp add: run_frame_def lists_ok_def)
  have "{t \<in> k_tasks k'. k_state k' t = Exited} = {t \<in> k_tasks k. k_state k t = Exited}"
    "\<And>t. t \<notin> k_tasks k' \<or> k_state k' t = Exited \<longleftrightarrow> t \<notin> k_tasks k \<or> k_state k t = Exited"
    using assms by (auto simp: run_frame_def)
  then show "exits_ok k' = exits_ok k" using assms by (simp add: exits_ok_def run_frame_def)
qed

text \<open>Waking one task changes its state only.\<close>

definition wake_frame :: "('t, 's) kernel \<Rightarrow> ('t, 's) kernel \<Rightarrow> bool" where
  "wake_frame k k' \<longleftrightarrow> k_tasks k' = k_tasks k \<and> k_preempt_count k' = k_preempt_count k \<and>
    k_exit_code k' = k_exit_code k \<and> k_cont k' = k_cont k \<and> k_exited k' = k_exited k \<and>
    k_current k' = k_current k \<and> k_idle k' = k_idle k \<and> k_init k' = k_init k \<and> k_halted k' = k_halted k \<and>
    k_now k' = k_now k \<and> (\<forall>t. k_state k t \<noteq> Blocked \<longrightarrow> k_state k' t = k_state k t) \<and>
    (\<forall>t. k_state k' t = Exited \<longleftrightarrow> k_state k t = Exited)"

lemma wake_frame_refl [simp]: "wake_frame k k"
  by (simp add: wake_frame_def)

lemma wake_frame_trans: "wake_frame k k1 \<Longrightarrow> wake_frame k1 k2 \<Longrightarrow> wake_frame k k2"
  by (auto simp: wake_frame_def)

lemma exits_ok_wake:
  assumes "exits_ok k" "wake_frame k k'" "\<And>q. set (k_waiters k' q) \<subseteq> set (k_waiters k q)"
  shows "exits_ok k'"
proof -
  have "k_waiters k' q = []" if "k_waiters k q = []" for q using assms(3) [of q] that by simp
  then show ?thesis using assms(1,2) by (simp add: exits_ok_def wake_frame_def)
qed

section \<open>Rescheduling\<close>

locale run_queue = base_scheduler sched_ok ready room "so_add ops" "so_pick ops" "so_put ops" "so_tick ops" "so_prio ops"
  for sched_ok :: "'s \<Rightarrow> bool" and ready :: "'s \<Rightarrow> 't set" and room and ops :: "('t, 's) sched_ops"
begin

lemma run_coreD:
  assumes "run_core sched_ok ready k"
  shows "sched_ok (k_sched k)" "ready (k_sched k) = {t \<in> k_tasks k. k_state k t = Ready \<and> t \<noteq> k_idle k}"
    "k_current k \<in> k_tasks k" "k_idle k \<in> k_tasks k"
    "\<And>t. t \<in> k_tasks k \<Longrightarrow> k_state k t = Running \<Longrightarrow> t = k_current k"
    "k_state k (k_idle k) \<in> {Ready, Running}" "\<And>t. t \<in> k_tasks k \<Longrightarrow> is_idle t k \<longleftrightarrow> t = k_idle k"
  using assms by (simp_all add: run_core_def is_idle_def)

text \<open>\<open>resched\<close> always finds a task to run; it changes the states of the old and the new task
  only.\<close>

lemma resched_spec:
  assumes core: "run_core sched_ok ready k" and cur: "k_state k (k_current k) \<noteq> Ready"
    and room: "room (Suc n) (k_sched k)"
  obtains k' nxt where "resched ops p k = Some k'" "run_core sched_ok ready k'" "room n (k_sched k')"
    "k_current k' = nxt" "k_state k' nxt = Running" "nxt \<in> k_tasks k"
    "k_state k nxt = Ready \<or> nxt = k_current k \<and> k_state k nxt = Running"
    "k' = k\<lparr> k_state := (k_state k)(k_current k := if is_running (k_current k) k then Ready else k_state k (k_current k),
        nxt := Running), k_need_resched := (k_need_resched k)(nxt := False),
        k_sched := k_sched k', k_current := nxt \<rparr>"
proof -
  note result = that
  note c = run_coreD [OF core]
  define prev where "prev = k_current k"
  define st where "st = (k_state k)(prev := if is_running prev k then Ready else k_state k prev)"
  have idle: "is_idle prev k \<longleftrightarrow> prev = k_idle k" using c(7) [OF c(3)] by (simp add: prev_def)
  have st_idle: "st (k_idle k) = Ready"
    using c(5) [OF c(4)] c(6) cur by (auto simp: st_def prev_def is_running_def)
  have notrun: "t \<in> k_tasks k \<Longrightarrow> st t \<noteq> Running" for t
    using c(5) [of t] by (auto simp: st_def prev_def is_running_def)
  obtain k2 where k2: "(if is_running prev k
        then let k1 = set_state prev Ready k in
             if \<not> is_idle prev k
             then map_option (\<lambda>s. k1\<lparr> k_sched := s \<rparr>) (so_put ops prev p (k_sched k1))
             else Some k1
        else Some k) = Some k2"
    and upd: "k2 = k\<lparr> k_state := st, k_sched := k_sched k2 \<rparr>"
    and ok: "sched_ok (k_sched k2)" "room n (k_sched k2)"
    and rdy: "ready (k_sched k2) = {t \<in> k_tasks k. st t = Ready \<and> t \<noteq> k_idle k}"
  proof (cases "is_running prev k \<and> prev \<noteq> k_idle k")
    case True
    then have "prev \<notin> ready (k_sched k)" by (simp add: c(2) is_running_def)
    then obtain s where s: "so_put ops prev p (k_sched k) = Some s" "sched_ok s" "room n s"
      "ready s = insert prev (ready (k_sched k))"
      using put_law [OF c(1) room] by blast
    then have "ready s = {t \<in> k_tasks k. st t = Ready \<and> t \<noteq> k_idle k}"
      using True c(2,3) by (auto simp: st_def prev_def)
    then show ?thesis
      using that [of "k\<lparr> k_state := st, k_sched := s \<rparr>"] s True idle by (simp add: st_def kdefs)
  next
    case False
    have "ready (k_sched k) = {t \<in> k_tasks k. st t = Ready \<and> t \<noteq> k_idle k}"
      using False c(2) by (auto simp: st_def prev_def is_running_def)
    then show ?thesis
      using that [of "k\<lparr> k_state := st \<rparr>"] False idle c(1) room_less [OF room, of n]
      by (auto simp: st_def kdefs prev_def [symmetric])
  qed
  have finish: thesis if pick: "so_pick ops (k_sched k2) = Some (r, s)" and nxt: "nxt = (case r of Some t \<Rightarrow> t | None \<Rightarrow> k_idle k)"
    and s: "sched_ok s" "room n s" "ready s = {t \<in> k_tasks k. st t = Ready \<and> t \<noteq> k_idle k} - {nxt}"
    and n: "nxt \<in> k_tasks k" "st nxt = Ready" for r s nxt
  proof -
    define k' where "k' = k\<lparr> k_state := st(nxt := Running), k_need_resched := (k_need_resched k)(nxt := False),
        k_sched := s, k_current := nxt \<rparr>"
    have "switch_to prev nxt (k2\<lparr> k_sched := s \<rparr>) = k'"
      by (subst upd) (simp add: switch_to_def kdefs k'_def prev_def)
    then have eq: "resched ops p k = Some k'"
      unfolding resched_def Let_def prev_def [symmetric]
      using k2 [unfolded Let_def] pick nxt by simp
    have core': "run_core sched_ok ready k'"
      using s n c(4,7) st_idle notrun by (auto simp: run_core_def k'_def is_idle_def)
    have old: "k_state k nxt = Ready \<or> nxt = k_current k \<and> k_state k nxt = Running"
      using n(2) by (auto simp: st_def prev_def is_running_def split: if_splits)
    have k': "k_sched k' = s" "k_current k' = nxt" "k_state k' nxt = Running" by (simp_all add: k'_def)
    show thesis
      by (rule result [OF eq core' _ k'(2,3) n(1) old])
        (simp add: k'(1) s(2), unfold k'(1), unfold k'_def st_def prev_def, rule refl)
  qed
  show thesis
    using ok(1)
  proof (cases rule: pick_cases)
    case none
    show ?thesis
      by (rule finish [OF none(2) _ ok _ c(4) st_idle]) (use rdy in auto)
  next
    case (some t s')
    moreover have "t \<in> k_tasks k" "st t = Ready" using some(2) rdy by auto
    ultimately show ?thesis
      by (intro finish [OF some(1), of t]) (use ok rdy in auto)
  qed
qed

lemma resched_inv:
  assumes "kernel_core sched_ok ready k" "k_state k (k_current k) \<noteq> Ready" "room (Suc n) (k_sched k)"
  shows "\<exists>k'. resched ops p k = Some k' \<and> kernel_inv sched_ok ready k' \<and> room n (k_sched k') \<and> run_frame k k'"
proof -
  have core: "run_core sched_ok ready k" using assms(1) by (simp add: kernel_core_def kernel_mid_def)
  obtain k' nxt where k': "resched ops p k = Some k'" "run_core sched_ok ready k'" "room n (k_sched k')"
    "k_current k' = nxt" "k_state k' nxt = Running" "nxt \<in> k_tasks k"
    "k_state k nxt = Ready \<or> nxt = k_current k \<and> k_state k nxt = Running"
    and upd: "k' = k\<lparr> k_state := (k_state k)(k_current k := if is_running (k_current k) k then Ready else k_state k (k_current k),
        nxt := Running), k_need_resched := (k_need_resched k)(nxt := False),
        k_sched := k_sched k', k_current := nxt \<rparr>"
    by (rule resched_spec [OF core assms(2,3)])
  have st: "k_state k' = (k_state k)(k_current k := if is_running (k_current k) k then Ready else k_state k (k_current k),
        nxt := Running)"
    by (subst upd) simp
  have "run_frame k k'"
    using k'(6,7) run_coreD(3) [OF core]
    by (subst upd) (auto simp: run_frame_def is_running_def)
  then show ?thesis
    using k' assms(1) run_frame_ok [of k k'] by (auto simp: kernel_inv_def kernel_core_def kernel_mid_def)
qed

section \<open>Waking tasks\<close>

lemma unblock_spec:
  assumes core: "run_core sched_ok ready k" and t: "t \<in> k_tasks k" "t \<noteq> k_idle k" and room: "room (Suc n) (k_sched k)"
  shows "\<exists>k'. unblock_task ops t b k = Some k' \<and> run_core sched_ok ready k' \<and> room n (k_sched k')"
proof (cases "k_state k t = Blocked")
  case True
  note c = run_coreD [OF core]
  have "t \<notin> ready (k_sched k)" using True c(2) by simp
  then obtain s where s: "so_add ops t (k_sched k) = Some s" "sched_ok s" "room n s"
    "ready s = insert t (ready (k_sched k))"
    using add_law [OF c(1) room] by blast
  define k' where "k' = (if b then set_preempt_pending (k_current k) True else id) ((set_state t Ready k)\<lparr> k_sched := s \<rparr>)"
  have eq: "unblock_task ops t b k = Some k'"
    using True s(1) by (simp add: unblock_task_def k'_def kdefs)
  have "k_sched k' = s" by (simp add: k'_def kdefs)
  moreover have "run_core sched_ok ready k'"
    using unblock_task_frame [OF eq] \<open>k_sched k' = s\<close> s core t True by (auto simp: run_core_def)
  ultimately show ?thesis using eq s by blast
next
  case False
  then show ?thesis
    using core room_less [OF room, of n] by (simp add: unblock_task_def is_blocked_def)
qed

lemma kernel_midD:
  assumes "kernel_mid sched_ok ready k"
  shows "run_core sched_ok ready k" "\<And>t. t \<in> k_tasks k \<Longrightarrow> task_ok k t" "lists_ok k"
  using assms by (simp_all add: kernel_mid_def)

lemma wake_from_queue:
  assumes mid: "kernel_mid sched_ok ready k" and t: "t \<in> set (k_waiters k q)"
    and ts: "set ts = set (k_waiters k q) - {t}" "distinct ts" and room: "room (Suc n) (k_sched k)"
    and k1: "k1 = set_in_wait_queue t False (k\<lparr> k_waiters := (k_waiters k)(q := ts) \<rparr>)"
  shows "\<exists>k'. unblock_task ops t b k1 = Some k' \<and> kernel_mid sched_ok ready k' \<and> room n (k_sched k') \<and>
    wake_frame k k' \<and> k_waiters k' = (k_waiters k)(q := ts)"
proof -
  note m = kernel_midD [OF mid]
  have tt: "t \<in> k_tasks k" "t \<noteq> k_idle k" using m(3) t by (auto simp: lists_ok_def)
  have "run_core sched_ok ready k1" using m(1) by (simp add: k1 run_core_def kdefs)
  then obtain k' where k': "unblock_task ops t b k1 = Some k'" "run_core sched_ok ready k'" "room n (k_sched k')"
    using unblock_spec [of k1 t n b] tt room by (auto simp: k1 kdefs)
  note f = unblock_task_frame [OF k'(1)]
  have w: "k_waiters k' = (k_waiters k)(q := ts)" by (simp add: f k1 kdefs)
  have co: "cont_ok (k_cont k t) (k_state k t) (queues k t) (alarms k t) (k_now k)"
    using m(2) [OF tt(1)] by (simp add: task_ok_def)
  have "q \<in> queues k t" using t by (simp add: queues_def)
  with co have q: "queues k t = {q}" by (rule cont_ok_unique)
  have qs: "queues k' u = (if u = t then {} else queues k u)" for u
    using ts q by (auto simp: queues_def w)
  have al: "alarms k' u = alarms k u" for u by (simp add: alarms_def f k1 kdefs)
  have st: "k_state k' t \<noteq> Blocked" "k_state k' t = Exited \<longleftrightarrow> k_state k t = Exited"
    "\<And>u. u \<noteq> t \<Longrightarrow> k_state k' u = k_state k u" "k_state k t \<noteq> Blocked \<Longrightarrow> k_state k' t = k_state k t"
    by (auto simp: f k1 kdefs)
  have "task_ok k' u" if "u \<in> k_tasks k" for u
  proof (cases "u = t")
    case True
    have "cont_ok (k_cont k t) (k_state k' t) {} (alarms k t) (k_now k)"
      by (rule cont_ok_unqueue [OF co]) (use st(1) q in auto)
    moreover have "k_cont k' = k_cont k" "k_now k' = k_now k" "k_in_wait_queue k' t = False"
      "k_in_timer_list k' t = k_in_timer_list k t"
      by (simp_all add: f k1 kdefs)
    ultimately show ?thesis
      using True m(2) [OF tt(1)] st(2) by (simp add: task_ok_def qs al)
  next
    case False
    then have "task_ok k' u = task_ok k u"
      by (intro task_ok_cong) (simp_all add: qs al st f k1 kdefs)
    then show ?thesis using m(2) that by simp
  qed
  moreover have "lists_ok k'"
  proof -
    have "k_timers k' = k_timers k" "k_tasks k' = k_tasks k" "k_idle k' = k_idle k" "k_cont k' = k_cont k"
      by (simp_all add: f k1 kdefs)
    then show ?thesis using m(3) ts by (auto simp: lists_ok_def w)
  qed
  moreover have "wake_frame k k'"
  proof -
    have "k_state k' u = k_state k u" if "k_state k u \<noteq> Blocked" for u using that st by (cases "u = t") auto
    moreover have "k_state k' u = Exited \<longleftrightarrow> k_state k u = Exited" for u using st by (cases "u = t") auto
    ultimately show ?thesis by (simp add: wake_frame_def f(1,4-6,9-14)) (simp add: k1 kdefs)
  qed
  moreover have "k_tasks k' = k_tasks k" by (simp add: f k1 kdefs)
  ultimately show ?thesis using k' w by (auto simp: kernel_mid_def)
qed

lemma notify_one_locked_spec:
  assumes mid: "kernel_mid sched_ok ready k" and room: "room (Suc n) (k_sched k)"
  shows "\<exists>k'. notify_one_locked ops q b k = Some (k_waiters k q \<noteq> [], k') \<and> kernel_mid sched_ok ready k' \<and>
    room n (k_sched k') \<and> wake_frame k k' \<and> k_waiters k' = (k_waiters k)(q := tl (k_waiters k q))"
proof (cases "k_waiters k q")
  case Nil
  then show ?thesis
    using mid room_less [OF room, of n] by (simp add: notify_one_locked_def fun_upd_idem)
next
  case (Cons t ts)
  then have "t \<in> set (k_waiters k q)" "set ts = set (k_waiters k q) - {t}" "distinct ts"
    using kernel_midD(3) [OF mid] by (auto simp: lists_ok_def dest: spec [of _ q])
  from wake_from_queue [OF mid this room refl, of b] show ?thesis
    using Cons by (auto simp: notify_one_locked_def)
qed

lemma notify_all_spec:
  "kernel_mid sched_ok ready k \<Longrightarrow> room (Suc (length (k_waiters k q) + n)) (k_sched k) \<Longrightarrow>
    \<exists>k'. notify_all ops q b k = Some k' \<and> kernel_mid sched_ok ready k' \<and> room n (k_sched k') \<and>
      wake_frame k k' \<and> k_waiters k' = (k_waiters k)(q := [])"
proof (induction "length (k_waiters k q)" arbitrary: k)
  case 0
  then show ?case
    using notify_one_locked_spec [of k n q b] by (subst notify_all.simps) auto
next
  case (Suc m)
  obtain k1 where k1: "notify_one_locked ops q b k = Some (True, k1)" "kernel_mid sched_ok ready k1"
    "room (Suc (m + n)) (k_sched k1)" "wake_frame k k1" "k_waiters k1 = (k_waiters k)(q := tl (k_waiters k q))"
    using notify_one_locked_spec [OF Suc.prems(1), of "Suc (m + n)" q b] Suc.prems(2) Suc.hyps(2)
    by (cases "k_waiters k q") auto
  then have "m = length (k_waiters k1 q)" using Suc.hyps(2) by simp
  then show ?case
    using Suc.hyps(1) [of k1] k1 wake_frame_trans by (subst notify_all.simps) fastforce
qed

lemma notify_task_spec:
  assumes mid: "kernel_mid sched_ok ready k" and room: "room (Suc n) (k_sched k)"
  shows "\<exists>k'. notify_task ops q b t k = Some (t \<in> set (k_waiters k q), k') \<and> kernel_mid sched_ok ready k' \<and>
    room n (k_sched k') \<and> wake_frame k k' \<and> k_waiters k' = (k_waiters k)(q := remove1 t (k_waiters k q))"
proof (cases "t \<in> set (k_waiters k q)")
  case False
  then have "position (\<lambda>u. u = t) (k_waiters k q) = None" by (auto simp: position_None)
  then show ?thesis
    using False mid room_less [OF room, of n] by (simp add: notify_task_def remove1_idem fun_upd_idem)
next
  case True
  then obtain us vs where w: "k_waiters k q = us @ t # vs" "t \<notin> set us" by (meson split_list_first)
  then have r: "remove1 t (k_waiters k q) = us @ vs" by (simp add: remove1_append)
  have "distinct (k_waiters k q)" using kernel_midD(3) [OF mid] by (simp add: lists_ok_def)
  then have "set (us @ vs) = set (k_waiters k q) - {t}" "distinct (us @ vs)" using w by auto
  from wake_from_queue [OF mid True this room refl, of b] show ?thesis
    using w r by (simp add: notify_task_def position_split vec_remove_def Let_def set_in_wait_queue_waiters)
qed

text \<open>The callback of an expired alarm.\<close>

lemma wake_from_timer:
  assumes mid: "kernel_mid sched_ok ready k" and e: "timer_expire_one (k_now k) (k_timers k) = (Some (d, t), q)"
    and room: "room (Suc n) (k_sched k)"
  shows "\<exists>k'. TaskWakeupEvent_callback ops t (k\<lparr> k_timers := q \<rparr>) = Some k' \<and> kernel_mid sched_ok ready k' \<and>
    room n (k_sched k') \<and> wake_frame k k' \<and> k_waiters k' = k_waiters k \<and> k_timers k' = q"
proof -
  note m = kernel_midD [OF mid]
  define k1 where "k1 = set_in_timer_list t False (k\<lparr> k_timers := q \<rparr>)"
  have tm: "k_timers k = (d, t) # q" "d \<le> k_now k"
    using e by (auto simp: timer_expire_one_def split: list.splits if_splits)
  have tt: "t \<in> k_tasks k" "t \<noteq> k_idle k" "t \<notin> snd ` set q"
    using m(3) tm by (auto simp: lists_ok_def)
  have "run_core sched_ok ready k1" using m(1) by (simp add: k1_def run_core_def kdefs)
  then obtain k' where k': "unblock_task ops t True k1 = Some k'" "run_core sched_ok ready k'" "room n (k_sched k')"
    using unblock_spec [of k1 t n True] tt room by (auto simp: k1_def kdefs)
  note f = unblock_task_frame [OF k'(1)]
  have fr: "k_timers k' = q" "k_tasks k' = k_tasks k" "k_idle k' = k_idle k" "k_cont k' = k_cont k"
    "k_waiters k' = k_waiters k" "k_now k' = k_now k" "k_in_wait_queue k' = k_in_wait_queue k"
    "k_in_timer_list k' = (k_in_timer_list k)(t := False)"
    by (simp_all add: f(1-14)) (simp_all add: k1_def kdefs)
  have qs: "queues k' u = queues k u" for u by (simp add: queues_def fr)
  have al: "alarms k' u = (if u = t then {} else alarms k u)" for u
    using tm tt(3) by (force simp: alarms_def fr)
  have st: "k_state k' t \<noteq> Blocked" "k_state k' t = Exited \<longleftrightarrow> k_state k t = Exited"
    "\<And>u. u \<noteq> t \<Longrightarrow> k_state k' u = k_state k u" "k_state k t \<noteq> Blocked \<Longrightarrow> k_state k' t = k_state k t"
    by (auto simp: f(15) k1_def kdefs)
  have "task_ok k' u" if "u \<in> k_tasks k" for u
  proof (cases "u = t")
    case True
    have co: "cont_ok (k_cont k t) (k_state k t) (queues k t) (alarms k t) (k_now k)"
      using m(2) [OF tt(1)] by (simp add: task_ok_def)
    have "cont_ok (k_cont k t) (k_state k' t) (queues k t) {} (k_now k)"
      by (rule cont_ok_alarm [OF co _ tm(2) st(1)]) (simp add: alarms_def tm)
    then show ?thesis
      using True m(2) [OF tt(1)] st(2) by (simp add: task_ok_def qs al fr)
  next
    case False
    then have "task_ok k' u = task_ok k u"
      by (intro task_ok_cong) (simp_all add: qs al st fr)
    then show ?thesis using m(2) that by simp
  qed
  moreover have "lists_ok k'" using m(3) tm by (auto simp: lists_ok_def fr timer_ok_def)
  moreover have "wake_frame k k'"
  proof -
    have "k_state k' u = k_state k u" if "k_state k u \<noteq> Blocked" for u using that st by (cases "u = t") auto
    moreover have "k_state k' u = Exited \<longleftrightarrow> k_state k u = Exited" for u using st by (cases "u = t") auto
    ultimately show ?thesis by (simp add: wake_frame_def f(1,4-6,9-14)) (simp add: k1_def kdefs)
  qed
  ultimately show ?thesis
    using k' fr by (auto simp: kernel_mid_def TaskWakeupEvent_callback_def k1_def [symmetric])
qed

lemma check_events_spec:
  "kernel_mid sched_ok ready k \<Longrightarrow> room (length (k_timers k) + n) (k_sched k) \<Longrightarrow>
    \<exists>k'. check_events ops k = Some k' \<and> kernel_mid sched_ok ready k' \<and> room n (k_sched k') \<and>
      wake_frame k k' \<and> k_waiters k' = k_waiters k \<and>
      k_timers k' = filter (\<lambda>x. k_now k < fst x) (k_timers k)"
proof (induction "length (k_timers k)" arbitrary: k)
  case 0
  then have "check_events ops k = Some k" by (subst check_events.simps) (simp add: timer_expire_one_def)
  then show ?case using 0 by simp
next
  case (Suc m)
  have ok: "timer_ok (k_timers k)" using kernel_midD(3) [OF Suc.prems(1)] by (simp add: lists_ok_def)
  obtain x q where x: "timer_expire_one (k_now k) (k_timers k) = (x, q)" by (metis surj_pair)
  show ?case
  proof (cases x)
    case None
    then have "q = k_timers k" "\<forall>y\<in>set (k_timers k). k_now k < fst y"
      using timer_expire_None [OF ok] x by auto
    then show ?thesis
      using Suc.prems x None room_less [OF Suc.prems(2), of n]
      by (subst check_events.simps) (simp add: filter_id_conv)
  next
    case (Some p)
    obtain d t where p: "p = (d, t)" by (cases p)
    have tm: "k_timers k = (d, t) # q" "d \<le> k_now k"
      using x Some p by (auto simp: timer_expire_one_def split: list.splits if_splits)
    obtain k1 where k1: "TaskWakeupEvent_callback ops t (k\<lparr> k_timers := q \<rparr>) = Some k1"
      "kernel_mid sched_ok ready k1" "room (m + n) (k_sched k1)" "wake_frame k k1" "k_waiters k1 = k_waiters k"
      "k_timers k1 = q"
      using wake_from_timer [OF Suc.prems(1), of d t q "m + n"] x Some p Suc.prems(2) Suc.hyps(2) tm
      by auto
    moreover have "m = length (k_timers k1)" "k_now k1 = k_now k"
      using Suc.hyps(2) tm k1 by (simp_all add: wake_frame_def)
    ultimately show ?thesis
      using Suc.hyps(1) [of k1] x Some p tm wake_frame_trans [of k k1]
      by (subst check_events.simps) auto
  qed
qed

section \<open>Operations of the running task\<close>

lemma kernel_invD:
  assumes "kernel_inv sched_ok ready k"
  shows "kernel_mid sched_ok ready k" "exits_ok k" "k_state k (k_current k) = Running"
    "k_current k \<in> k_tasks k" "task_ok k (k_current k)"
proof -
  show "kernel_mid sched_ok ready k" "exits_ok k" "k_state k (k_current k) = Running"
    using assms by (simp_all add: kernel_inv_def kernel_core_def)
  then show "k_current k \<in> k_tasks k" "task_ok k (k_current k)"
    by (simp_all add: kernel_mid_def run_core_def)
qed

lemma current_idle: "kernel_inv sched_ok ready k \<Longrightarrow> is_idle (k_current k) k \<longleftrightarrow> k_current k = k_idle k"
  using run_coreD(7) [OF kernel_midD(1) [OF kernel_invD(1)]] kernel_invD(4) by blast

text \<open>A change of the data of the running task only.\<close>

lemma current_changed:
  assumes inv: "kernel_inv sched_ok ready k"
    and fr: "k_tasks k' = k_tasks k" "k_sched k' = k_sched k" "k_current k' = k_current k" "k_idle k' = k_idle k \<and> k_is_idle k' = k_is_idle k"
      "k_now k' = k_now k" "k_exited k' = k_exited k"
    and st: "k_state k' = (k_state k)(k_current k := st)" "st \<in> {Running, Blocked}"
    and u: "\<And>u. u \<noteq> k_current k \<Longrightarrow> queues k' u = queues k u \<and> alarms k' u = alarms k u \<and>
      k_in_wait_queue k' u = k_in_wait_queue k u \<and> k_in_timer_list k' u = k_in_timer_list k u \<and> k_cont k' u = k_cont k u"
    and ok: "task_ok k' (k_current k)" "lists_ok k'" and idle: "st = Running \<or> k_current k \<noteq> k_idle k"
    and ex: "\<And>t. t \<notin> k_tasks k \<or> k_state k t = Exited \<Longrightarrow> k_waiters k' (Wait_for_exit t) = []"
  shows "kernel_core sched_ok ready k'"
proof -
  note i = kernel_invD [OF inv]
  have st_eq: "k_state k' t = Exited \<longleftrightarrow> k_state k t = Exited" "k_state k' t = Ready \<longleftrightarrow> k_state k t = Ready" for t
    using st i(3) by auto
  note c = run_coreD [OF kernel_midD(1) [OF i(1)]]
  have "t = k_current k" if "t \<in> k_tasks k" "k_state k' t = Running" for t
  proof (rule ccontr)
    assume ne: "t \<noteq> k_current k"
    then have "k_state k t = Running" using that(2) st(1) by simp
    then show False using c(5) [OF that(1)] ne by blast
  qed
  moreover have "k_state k' (k_idle k) \<in> {Ready, Running}"
    using c(6) st idle by (cases "k_current k = k_idle k") auto
  ultimately have "run_core sched_ok ready k'"
    using c(1-4,7) i(3) by (simp add: run_core_def fr st_eq is_idle_def)
  moreover have "task_ok k' t" if "t \<in> k_tasks k" for t
  proof (cases "t = k_current k")
    case False
    then have "task_ok k' t = task_ok k t"
      by (intro task_ok_cong) (use u [of t] st fr in auto)
    then show ?thesis using kernel_midD(2) [OF i(1) that] by simp
  qed (use ok in simp)
  moreover have "exits_ok k'"
    using i(2) ex by (auto simp: exits_ok_def fr st_eq)
  ultimately show ?thesis using ok fr by (simp add: kernel_core_def kernel_mid_def)
qed

lemma block_spec:
  assumes inv: "kernel_inv sched_ok ready k" and cur: "k_current k \<noteq> k_idle k" "k_preempt_count k (k_current k) = 0"
    and W: "queues k (k_current k) = {}"
    and c: "cont_ok c Blocked {q} (alarms k (k_current k)) (k_now k)"
    and q: "\<And>u. q = Wait_for_exit u \<Longrightarrow> u \<in> k_tasks k \<and> k_state k u \<noteq> Exited"
    and room: "room (Suc n) (k_sched k)"
  shows "\<exists>k'. block_current ops (\<lambda>t. set_cont t c \<circ> wq_push q t) k = Some k' \<and> kernel_inv sched_ok ready k' \<and>
    room n (k_sched k')"
proof -
  note i = kernel_invD [OF inv]
  let ?t = "k_current k"
  define k1 where "k1 = set_cont ?t c (wq_push q ?t (set_state ?t Blocked k))"
  have eq: "block_current ops (\<lambda>t. set_cont t c \<circ> wq_push q t) k = resched ops False k1"
    using cur i(3) current_idle [OF inv] by (simp add: block_current_def is_running_def can_preempt_def k1_def Let_def)
  have fr: "k_tasks k1 = k_tasks k" "k_sched k1 = k_sched k" "k_current k1 = ?t" "k_idle k1 = k_idle k \<and> k_is_idle k1 = k_is_idle k"
    "k_now k1 = k_now k" "k_exited k1 = k_exited k" "k_state k1 = (k_state k)(?t := Blocked)"
    "k_timers k1 = k_timers k" "k_waiters k1 = (k_waiters k)(q := k_waiters k q @ [?t])"
    "k_in_wait_queue k1 = (k_in_wait_queue k)(?t := True)" "k_in_timer_list k1 = k_in_timer_list k"
    "k_cont k1 = (k_cont k)(?t := c)"
    by (simp_all add: k1_def wq_push_def kdefs)
  have W': "?t \<notin> set (k_waiters k p)" for p using W by (auto simp: queues_def)
  have qs: "queues k1 u = (if u = ?t then {q} else queues k u)" for u
    using W' by (auto simp: queues_def fr)
  have al: "alarms k1 u = alarms k u" for u by (simp add: alarms_def fr)
  have "kernel_core sched_ok ready k1"
  proof (rule current_changed [OF inv fr(1-7)])
    show "task_ok k1 ?t"
      using i(5) c by (simp add: task_ok_def qs al fr)
    show "lists_ok k1"
      using kernel_midD(3) [OF i(1)] W' cur i(4) by (auto simp: lists_ok_def fr)
    show "k_waiters k1 (Wait_for_exit t) = []" if "t \<notin> k_tasks k \<or> k_state k t = Exited" for t
      using that q [of t] i(2) by (auto simp: fr exits_ok_def)
  qed (use cur in \<open>auto simp: qs al fr\<close>)
  then show ?thesis
    using resched_inv [of k1 n False] room by (auto simp: eq fr)
qed

lemma cancel_events_spec:
  assumes inv: "kernel_inv sched_ok ready k" and W: "queues k (k_current k) \<subseteq> {q}"
  shows "kernel_inv sched_ok ready (wait_resume q k)"
    and "k_sched (wait_resume q k) = k_sched k" "k_current (wait_resume q k) = k_current k"
proof -
  note i = kernel_invD [OF inv]
  let ?t = "k_current k" and ?k = "wait_resume q k"
  have in_q: "k_in_wait_queue k ?t \<longleftrightarrow> queues k ?t \<noteq> {}" and in_t: "k_in_timer_list k ?t \<longleftrightarrow> alarms k ?t \<noteq> {}"
    using i(5) by (auto simp: task_ok_def)
  have fr: "k_tasks ?k = k_tasks k" "k_sched ?k = k_sched k" "k_current ?k = ?t" "k_idle ?k = k_idle k \<and> k_is_idle ?k = k_is_idle k"
    "k_now ?k = k_now k" "k_exited ?k = k_exited k" "k_state ?k = (k_state k)(?t := Running)"
    "k_cont ?k = (k_cont k)(?t := C_run)" "k_in_wait_queue ?k = (k_in_wait_queue k)(?t := False)"
    "k_in_timer_list ?k = (k_in_timer_list k)(?t := False)"
    using i(3) in_q in_t
    by (auto simp: wait_resume_def cancel_events_def cancel_alarm_def kdefs fun_upd_idem)
  have w: "k_waiters ?k = (k_waiters k)(q := filter (\<lambda>u. u \<noteq> ?t) (k_waiters k q))"
  proof (cases "k_in_wait_queue k ?t")
    case False
    then have "filter (\<lambda>u. u \<noteq> ?t) (k_waiters k q) = k_waiters k q"
      using in_q by (auto simp: queues_def filter_id_conv)
    then show ?thesis
      using False by (auto simp: wait_resume_def cancel_events_def cancel_alarm_def kdefs fun_upd_idem)
  qed (auto simp: wait_resume_def cancel_events_def cancel_alarm_def kdefs eq_commute)
  have tm: "k_timers ?k = filter (\<lambda>x. snd x \<noteq> ?t) (k_timers k)"
  proof (cases "k_in_timer_list k ?t")
    case False
    then have "filter (\<lambda>x. snd x \<noteq> ?t) (k_timers k) = k_timers k"
      using in_t by (auto simp: alarms_def filter_id_conv)
    then show ?thesis
      using False by (auto simp: wait_resume_def cancel_events_def cancel_alarm_def kdefs)
  qed (auto simp: wait_resume_def cancel_events_def cancel_alarm_def timer_cancel_def kdefs)
  have qs: "queues ?k u = (if u = ?t then {} else queues k u)" for u
    using W by (auto simp: queues_def w)
  have al: "alarms ?k u = (if u = ?t then {} else alarms k u)" for u
    by (auto simp: alarms_def tm)
  have "kernel_core sched_ok ready ?k"
  proof (rule current_changed [OF inv fr(1-7)])
    show "task_ok ?k ?t" by (simp add: task_ok_def qs al fr)
    have l: "\<And>p. distinct (k_waiters k p)" "\<And>p. set (k_waiters k p) \<subseteq> k_tasks k - {k_idle k}"
      "distinct (map snd (k_timers k))" "snd ` set (k_timers k) \<subseteq> k_tasks k - {k_idle k}"
      "timer_ok (k_timers k)" "k_cont k (k_idle k) = C_run"
      using kernel_midD(3) [OF i(1)] by (simp_all add: lists_ok_def)
    have "distinct (k_waiters ?k p)" "set (k_waiters ?k p) \<subseteq> k_tasks k - {k_idle k}" for p
      using l(1,2) [of p] by (auto simp: w)
    moreover have "distinct (map snd (k_timers ?k))" "snd ` set (k_timers ?k) \<subseteq> k_tasks k - {k_idle k}"
      "timer_ok (k_timers ?k)"
      using l(3-5) by (auto simp: tm distinct_map_filter timer_ok_def intro: sorted_filter)
    ultimately show "lists_ok ?k"
      using l(6) by (simp add: lists_ok_def fr)
    show "k_waiters ?k (Wait_for_exit t) = []" if "t \<notin> k_tasks k \<or> k_state k t = Exited" for t
      using that i(2) by (auto simp: w exits_ok_def)
  qed (auto simp: qs al fr)
  then show "kernel_inv sched_ok ready ?k" by (simp add: kernel_inv_def fr)
  show "k_sched ?k = k_sched k" "k_current ?k = k_current k" by (rule fr)+
qed

lemma kernel_inv_core: "kernel_inv sched_ok ready k \<Longrightarrow> kernel_core sched_ok ready k"
  by (simp add: kernel_inv_def)

lemma yield_spec:
  assumes "kernel_inv sched_ok ready k" "room (Suc n) (k_sched k)"
  shows "\<exists>k'. yield_current ops k = Some k' \<and> kernel_inv sched_ok ready k' \<and> room n (k_sched k')"
  using resched_inv [OF kernel_inv_core [OF assms(1)] _ assms(2), of False] kernel_invD(3) [OF assms(1)]
  by (auto simp: yield_current_def is_running_def)

text \<open>A change of the scheduler state or of \<open>need_resched\<close> that the scheduler contract covers.\<close>

lemma sched_changed:
  assumes inv: "kernel_inv sched_ok ready k"
    and s: "sched_ok s" "ready s = ready (k_sched k)"
  shows "kernel_inv sched_ok ready (k\<lparr> k_sched := s \<rparr>)"
    and "kernel_inv sched_ok ready (set_preempt_pending t b (k\<lparr> k_sched := s \<rparr>))"
proof -
  have "run_frame k (k\<lparr> k_sched := s \<rparr>)" "run_frame k (set_preempt_pending t b (k\<lparr> k_sched := s \<rparr>))"
    by (simp_all add: run_frame_def kdefs)
  from this [THEN run_frame_ok(1)] this [THEN run_frame_ok(2)] this [THEN run_frame_ok(3)]
  show "kernel_inv sched_ok ready (k\<lparr> k_sched := s \<rparr>)"
    and "kernel_inv sched_ok ready (set_preempt_pending t b (k\<lparr> k_sched := s \<rparr>))"
    using inv s by (simp_all add: kernel_inv_def kernel_core_def kernel_mid_def run_core_def kdefs)
qed

lemma preempt_pending_inv:
  "kernel_inv sched_ok ready k \<Longrightarrow> kernel_inv sched_ok ready (set_preempt_pending t b k)"
  using sched_changed(2) [of k "k_sched k" t b]
  by (simp add: kernel_inv_def kernel_core_def kernel_mid_def run_core_def)

lemma preempt_resched_spec:
  assumes "kernel_inv sched_ok ready k" "room (Suc n) (k_sched k)"
  shows "\<exists>k'. preempt_resched ops k = Some k' \<and> kernel_inv sched_ok ready k' \<and> room n (k_sched k')"
proof (cases "can_preempt (k_current k) 0 k")
  case True
  then show ?thesis
    using resched_inv [OF kernel_inv_core [OF assms(1)] _ assms(2), of True] kernel_invD(3) [OF assms(1)]
    by (auto simp: preempt_resched_def is_running_def Let_def)
next
  case False
  then show ?thesis
    using preempt_pending_inv [OF assms(1)] kernel_invD(3) [OF assms(1)] room_less [OF assms(2), of n]
    by (auto simp: preempt_resched_def is_running_def Let_def) (auto simp: kdefs)
qed

lemma set_current_priority_spec:
  assumes "kernel_inv sched_ok ready k" "room n (k_sched k)"
  shows "\<exists>b k'. set_current_priority ops prio k = Some (b, k') \<and> kernel_inv sched_ok ready k' \<and> room n (k_sched k')"
proof -
  have "sched_ok (k_sched k)" using assms(1) by (simp add: kernel_inv_def kernel_core_def kernel_mid_def run_core_def)
  from prio_law [OF this, of "k_current k" prio] show ?thesis
    using assms sched_changed(1) [OF assms(1)] by (auto simp: set_current_priority_def)
qed

lemma scheduler_timer_tick_spec:
  assumes "kernel_inv sched_ok ready k" "room n (k_sched k)"
  shows "\<exists>k'. scheduler_timer_tick ops k = Some k' \<and> kernel_inv sched_ok ready k' \<and> room n (k_sched k')"
proof -
  have "sched_ok (k_sched k)" using assms(1) by (simp add: kernel_inv_def kernel_core_def kernel_mid_def run_core_def)
  from tick_law [OF this, of "k_current k"] obtain b s where
    "so_tick ops (k_current k) (k_sched k) = Some (b, s)" "sched_ok s" "room n s" "ready s = ready (k_sched k)"
    using assms(2) by blast
  then show ?thesis
    using assms sched_changed [OF assms(1), of s] by (auto simp: scheduler_timer_tick_def Let_def) (simp add: kdefs)
qed

lemma wake_inv:
  assumes "kernel_inv sched_ok ready k" "kernel_mid sched_ok ready k'" "wake_frame k k'"
    "\<And>q. set (k_waiters k' q) \<subseteq> set (k_waiters k q)"
  shows "kernel_inv sched_ok ready k'"
  using assms exits_ok_wake [OF kernel_invD(2) [OF assms(1)] assms(3,4)] kernel_invD(3) [OF assms(1)]
  by (auto simp: kernel_inv_def kernel_core_def wake_frame_def)

lemma on_timer_tick_spec:
  assumes "kernel_inv sched_ok ready k" "room (length (k_timers k) + n) (k_sched k)"
  shows "\<exists>k'. on_timer_tick ops k = Some k' \<and> kernel_inv sched_ok ready k' \<and> room n (k_sched k')"
proof -
  obtain k1 where k1: "check_events ops k = Some k1" "kernel_mid sched_ok ready k1" "room n (k_sched k1)"
    "wake_frame k k1" "k_waiters k1 = k_waiters k"
    using check_events_spec [OF kernel_invD(1) [OF assms(1)] assms(2)] by blast
  then have "kernel_inv sched_ok ready k1" using wake_inv [OF assms(1)] by simp
  then show ?thesis
    using scheduler_timer_tick_spec [of k1 n] k1 by (simp add: on_timer_tick_def)
qed

lemma notify_spec:
  assumes "kernel_inv sched_ok ready k"
  shows "room (Suc n) (k_sched k) \<Longrightarrow>
      \<exists>b k'. notify_one ops q r k = Some (b, k') \<and> kernel_inv sched_ok ready k' \<and> room n (k_sched k')"
    and "room (Suc (length (k_waiters k q) + n)) (k_sched k) \<Longrightarrow>
      \<exists>k'. notify_all ops q r k = Some k' \<and> kernel_inv sched_ok ready k' \<and> room n (k_sched k')"
    and "room (Suc n) (k_sched k) \<Longrightarrow>
      \<exists>b k'. notify_task ops q r t k = Some (b, k') \<and> kernel_inv sched_ok ready k' \<and> room n (k_sched k')"
proof -
  note mid = kernel_invD(1) [OF assms]
  show "\<exists>b k'. notify_one ops q r k = Some (b, k') \<and> kernel_inv sched_ok ready k' \<and> room n (k_sched k')"
    if room: "room (Suc n) (k_sched k)"
  proof -
    obtain k' where "notify_one_locked ops q r k = Some (k_waiters k q \<noteq> [], k')" "kernel_mid sched_ok ready k'"
      "room n (k_sched k')" "wake_frame k k'" and w: "k_waiters k' = (k_waiters k)(q := tl (k_waiters k q))"
      using notify_one_locked_spec [OF mid room, of q r] by blast
    moreover have "set (k_waiters k' p) \<subseteq> set (k_waiters k p)" for p
      using w by (cases "k_waiters k q") auto
    ultimately show ?thesis
      using assms wake_inv [OF assms, of k'] room_less [OF room, of n] by (auto simp: notify_one_def)
  qed
  show "\<exists>k'. notify_all ops q r k = Some k' \<and> kernel_inv sched_ok ready k' \<and> room n (k_sched k')"
    if room: "room (Suc (length (k_waiters k q) + n)) (k_sched k)"
  proof -
    obtain k' where "notify_all ops q r k = Some k'" "kernel_mid sched_ok ready k'" "room n (k_sched k')"
      "wake_frame k k'" and w: "k_waiters k' = (k_waiters k)(q := [])"
      using notify_all_spec [OF mid room, of r] by blast
    moreover have "set (k_waiters k' p) \<subseteq> set (k_waiters k p)" for p by (simp add: w)
    ultimately show ?thesis using wake_inv [OF assms, of k'] by blast
  qed
  show "\<exists>b k'. notify_task ops q r t k = Some (b, k') \<and> kernel_inv sched_ok ready k' \<and> room n (k_sched k')"
    if room: "room (Suc n) (k_sched k)"
  proof -
    obtain k' where "notify_task ops q r t k = Some (t \<in> set (k_waiters k q), k')" "kernel_mid sched_ok ready k'"
      "room n (k_sched k')" "wake_frame k k'" and w: "k_waiters k' = (k_waiters k)(q := remove1 t (k_waiters k q))"
      using notify_task_spec [OF mid room, of q r t] by blast
    moreover have "set (k_waiters k' p) \<subseteq> set (k_waiters k p)" for p by (simp add: w set_remove1_subset)
    ultimately show ?thesis using wake_inv [OF assms, of k'] by blast
  qed
qed

text \<open>Setting an alarm for the running task.\<close>

lemma alarm_spec:
  assumes inv: "kernel_inv sched_ok ready k" and run: "k_cont k (k_current k) = C_run"
    and k1: "k1 = set_cont (k_current k) c (set_state (k_current k) st (set_alarm_wakeup d (k_current k) k))"
    and c: "cont_ok c st {} {d} (k_now k)" "st \<in> {Running, Blocked}" and cur: "k_current k \<noteq> k_idle k"
  shows "kernel_core sched_ok ready k1" "k_sched k1 = k_sched k" "k_current k1 = k_current k"
    "k_state k1 (k_current k) = st"
proof -
  note i = kernel_invD [OF inv]
  let ?t = "k_current k"
  have fr: "k_tasks k1 = k_tasks k" "k_sched k1 = k_sched k" "k_current k1 = ?t" "k_idle k1 = k_idle k \<and> k_is_idle k1 = k_is_idle k"
    "k_now k1 = k_now k" "k_exited k1 = k_exited k" "k_state k1 = (k_state k)(?t := st)"
    "k_cont k1 = (k_cont k)(?t := c)" "k_in_wait_queue k1 = k_in_wait_queue k"
    "k_in_timer_list k1 = (k_in_timer_list k)(?t := True)" "k_waiters k1 = k_waiters k"
    "k_timers k1 = timer_set d ?t (k_timers k)"
    by (simp_all add: k1 set_alarm_wakeup_def kdefs)
  have none: "queues k ?t = {}" "alarms k ?t = {}" using i(5) run by (auto simp: task_ok_def)
  have qs: "queues k1 u = queues k u" for u by (simp add: queues_def fr)
  have al: "alarms k1 u = (if u = ?t then {d} else alarms k u)" for u
    using none(2) by (auto simp: alarms_def fr)
  have ms: "mset (map snd (timer_set d ?t (k_timers k))) = mset (?t # map snd (k_timers k))"
    by simp
  show "kernel_core sched_ok ready k1"
  proof (rule current_changed [OF inv fr(1-7) c(2)])
    show "task_ok k1 ?t" using c none i(5) by (auto simp: task_ok_def qs al fr)
    have "?t \<notin> snd ` set (k_timers k)" using none(2) by (auto simp: alarms_def)
    then have "distinct (map snd (k_timers k1))"
      using kernel_midD(3) [OF i(1)] mset_eq_imp_distinct_iff [OF ms] by (simp add: lists_ok_def fr)
    then show "lists_ok k1"
      using kernel_midD(3) [OF i(1)] cur i(4) by (auto simp: lists_ok_def fr timer_ok_set)
    show "k_waiters k1 (Wait_for_exit t) = []" if "t \<notin> k_tasks k \<or> k_state k t = Exited" for t
      using that i(2) by (auto simp: fr exits_ok_def)
  qed (use cur in \<open>auto simp: qs al fr\<close>)
  show "k_sched k1 = k_sched k" "k_current k1 = k_current k" "k_state k1 (k_current k) = st" by (simp_all add: fr)
qed

lemma sleep_until_spec:
  assumes inv: "kernel_inv sched_ok ready k" and run: "k_cont k (k_current k) = C_run"
    and cur: "k_current k \<noteq> k_idle k" and room: "room (Suc n) (k_sched k)"
  shows "\<exists>k'. sleep_until ops d k = Some k' \<and> kernel_inv sched_ok ready k' \<and> room n (k_sched k')"
proof -
  note a = alarm_spec [OF inv run refl, of C_sleep Blocked d]
  show ?thesis
    using resched_inv [OF a(1), of n False] a(2-) inv kernel_invD(3) [OF inv] cur room room_less [OF room, of n]
    by (auto simp: sleep_until_def is_running_def current_idle [OF inv] Let_def)
qed

lemma arm_spec:
  assumes inv: "kernel_inv sched_ok ready k" and run: "k_cont k (k_current k) = C_run" and cur: "k_current k \<noteq> k_idle k"
  shows "kernel_inv sched_ok ready (wait_timeout_arm q dur k)"
    and "kernel_inv sched_ok ready (wait_timeout_until_arm q dur k)"
proof -
  have st: "set_state (k_current k) Running (set_alarm_wakeup d (k_current k) k) = set_alarm_wakeup d (k_current k) k" for d
    using kernel_invD(3) [OF inv] by (cases k) (simp add: set_alarm_wakeup_def kdefs fun_upd_idem)
  show "kernel_inv sched_ok ready (wait_timeout_arm q dur k)"
    using alarm_spec [OF inv run refl, of "C_arm q" Running "k_now k + dur"] cur
    by (simp add: wait_timeout_arm_def kernel_inv_def st Let_def)
  show "kernel_inv sched_ok ready (wait_timeout_until_arm q dur k)"
    using alarm_spec [OF inv run refl, of "C_wait_timeout_until q (k_now k + dur)" Running "k_now k + dur"] cur
    by (simp add: wait_timeout_until_arm_def kernel_inv_def st Let_def)
qed

text \<open>The running task goes on to another part of the call it is in.\<close>

lemma cont_changed:
  assumes inv: "kernel_inv sched_ok ready k" and idle: "k_current k = k_idle k \<Longrightarrow> c = C_run"
    and c: "cont_ok c Running (queues k (k_current k)) (alarms k (k_current k)) (k_now k)"
  shows "kernel_inv sched_ok ready (set_cont (k_current k) c k)"
proof -
  note i = kernel_invD [OF inv]
  let ?k = "set_cont (k_current k) c k"
  have fr: "k_tasks ?k = k_tasks k" "k_sched ?k = k_sched k" "k_current ?k = k_current k" "k_idle ?k = k_idle k \<and> k_is_idle ?k = k_is_idle k"
    "k_now ?k = k_now k" "k_exited ?k = k_exited k" "k_state ?k = (k_state k)(k_current k := Running)"
    "k_waiters ?k = k_waiters k" "k_timers ?k = k_timers k" "k_cont ?k = (k_cont k)(k_current k := c)"
    "k_in_wait_queue ?k = k_in_wait_queue k" "k_in_timer_list ?k = k_in_timer_list k"
    using i(3) by (simp_all add: set_cont_def fun_upd_idem)
  have q: "queues ?k u = queues k u" "alarms ?k u = alarms k u" for u
    by (simp_all add: queues_def alarms_def fr)
  have "kernel_core sched_ok ready ?k"
  proof (rule current_changed [OF inv fr(1-7)])
    show "task_ok ?k (k_current k)" using i(3,5) c by (simp add: task_ok_def q fr)
    show "lists_ok ?k" using kernel_midD(3) [OF i(1)] idle by (auto simp: lists_ok_def fr)
    show "k_waiters ?k (Wait_for_exit t) = []" if "t \<notin> k_tasks k \<or> k_state k t = Exited" for t
      using that i(2) by (auto simp: fr exits_ok_def)
  qed (simp_all add: q fr)
  then show ?thesis by (simp add: kernel_inv_def fr)
qed

text \<open>A turn of the garbage collector: the exited task is in no queue, so dropping it leaves nothing behind.\<close>

lemma gc_turn_spec:
  assumes inv: "kernel_inv sched_ok ready k" and c: "k_cont k (k_current k) = C_gc m" "k_current k \<noteq> k_idle k"
  shows "kernel_inv sched_ok ready (gc_turn refs n k)" "k_sched (gc_turn refs n k) = k_sched k"
proof -
  note i = kernel_invD [OF inv]
  define k1 where "k1 = (case k_exited k of [] \<Rightarrow> k | t # ts \<Rightarrow>
    if refs t = 1 then k\<lparr> k_exited := ts, k_tasks := k_tasks k - {t} \<rparr> else k\<lparr> k_exited := ts @ [t] \<rparr>)"
  have fr: "k_sched k1 = k_sched k" "k_current k1 = k_current k" "k_cont k1 = k_cont k" "k_idle k1 = k_idle k"
    "queues k1 u = queues k u" "alarms k1 u = alarms k u" "k_now k1 = k_now k" "task_ok k1 u = task_ok k u" for u
    by (simp_all add: k1_def queues_def alarms_def task_ok_def split: list.split)
  have "kernel_inv sched_ok ready k1"
  proof (cases "k_exited k")
    case Nil
    then show ?thesis using inv by (simp add: k1_def)
  next
    case (Cons t ts)
    have t: "t \<in> k_tasks k" "k_state k t = Exited" using Cons i(2) by (auto simp: exits_ok_def)
    have "task_ok k t" by (rule kernel_midD(2) [OF i(1) t(1)])
    then have none: "t \<notin> set (k_waiters k q)" "t \<notin> snd ` set (k_timers k)" for q
      using t(2) by (auto simp: task_ok_def queues_def alarms_def)
    note r = run_coreD [OF kernel_midD(1) [OF i(1)]]
    have ne: "t \<noteq> k_current k" "t \<noteq> k_idle k" using t(2) i(3) r(6) by auto
    have k1: "k_tasks k1 = (if refs t = 1 then k_tasks k - {t} else k_tasks k)"
      "k_exited k1 = (if refs t = 1 then ts else ts @ [t])" "k_state k1 = k_state k" "k_is_idle k1 = k_is_idle k"
      "k_waiters k1 = k_waiters k" "k_timers k1 = k_timers k"
      by (simp_all add: k1_def Cons)
    have "{u \<in> k_tasks k1. k_state k u = Ready \<and> u \<noteq> k_idle k} = {u \<in> k_tasks k. k_state k u = Ready \<and> u \<noteq> k_idle k}"
      using t(2) by (auto simp: k1)
    moreover have "k_tasks k1 \<subseteq> k_tasks k" "k_current k \<in> k_tasks k1" "k_idle k \<in> k_tasks k1" using r(3,4) ne by (auto simp: k1)
    ultimately have "run_core sched_ok ready k1"
      using kernel_midD(1) [OF i(1)] unfolding run_core_def k1(3,4) fr by blast
    moreover have "\<forall>u\<in>k_tasks k1. task_ok k1 u"
      using kernel_midD(2) [OF i(1)] fr(8) k1(1) by (metis DiffD1)
    moreover have "lists_ok k1"
    proof -
      have "set (k_waiters k q) \<subseteq> k_tasks k1 - {k_idle k}" for q
        using kernel_midD(3) [OF i(1)] none(1) [of q] by (auto simp: lists_ok_def k1(1))
      moreover have "snd ` set (k_timers k) \<subseteq> k_tasks k1 - {k_idle k}"
        using kernel_midD(3) [OF i(1)] none(2) by (auto simp: lists_ok_def k1(1))
      ultimately show ?thesis using kernel_midD(3) [OF i(1)] by (simp add: lists_ok_def k1(5,6) fr)
    qed
    moreover have "exits_ok k1"
    proof -
      have "{u \<in> k_tasks k1. k_state k u = Exited} = set (k_exited k1)" "distinct (k_exited k1)"
        using i(2) t Cons by (auto simp: exits_ok_def k1)
      moreover have "k_waiters k (Wait_for_exit u) = []" if "u \<notin> k_tasks k1 \<or> k_state k u = Exited" for u
        using that i(2) t(2) by (auto simp: exits_ok_def k1 split: if_splits)
      ultimately show ?thesis by (simp add: exits_ok_def k1(3,5))
    qed
    ultimately show ?thesis
      using i(3) Cons by (simp add: kernel_inv_def kernel_core_def kernel_mid_def) (simp add: k1_def)
  qed
  from cont_changed [OF this, of "C_gc n"] show "kernel_inv sched_ok ready (gc_turn refs n k)"
    using i(3,5) c by (simp add: fr gc_turn_def k1_def [symmetric] task_ok_def)
  show "k_sched (gc_turn refs n k) = k_sched k" by (simp add: gc_turn_def k1_def [symmetric] set_cont_def fr)
qed

lemma spawn_spec:
  assumes inv: "kernel_inv sched_ok ready k" and new: "t \<notin> k_tasks k" and name: "name \<noteq> ''idle''"
    and room: "room (Suc n) (k_sched k)"
  shows "\<exists>k'. spawn_raw ops t name k = Some k' \<and> kernel_inv sched_ok ready k' \<and> room n (k_sched k')"
proof -
  note i = kernel_invD [OF inv]
  note c = run_coreD [OF kernel_midD(1) [OF i(1)]]
  note l = kernel_midD(3) [OF i(1)]
  have "t \<notin> ready (k_sched k)" using new c(2) by auto
  then obtain s where s: "so_add ops t (k_sched k) = Some s" "sched_ok s" "room n s" "ready s = insert t (ready (k_sched k))"
    using add_law [OF c(1) room] by blast
  define k' where "k' = (new_common t name k)\<lparr> k_sched := s \<rparr>"
  have eq: "spawn_raw ops t name k = Some k'"
    using name by (simp add: spawn_raw_def task_new_def rq_add_task_def is_ready_def new_common_def s k'_def)
  have fr: "k_tasks k' = insert t (k_tasks k)" "k_state k' = (k_state k)(t := Ready)" "k_current k' = k_current k"
    "k_idle k' = k_idle k" "k_timers k' = k_timers k" "k_exited k' = k_exited k" "k_now k' = k_now k" "k_sched k' = s"
    by (simp_all add: k'_def new_common_def)
  have tne: "t \<noteq> k_idle k" "t \<noteq> k_current k" using new c(3,4) by auto
  have w: "k_waiters k' = k_waiters k" using i(2) new by (simp add: k'_def new_common_def exits_ok_def fun_upd_idem)
  have qs: "queues k' u = queues k u" "alarms k' u = alarms k u" for u by (simp_all add: queues_def alarms_def fr w)
  have none: "queues k t = {}" "alarms k t = {}" using l new by (auto simp: lists_ok_def queues_def alarms_def)
  have "task_ok k' u" if "u \<in> k_tasks k'" for u
  proof (cases "u = t")
    case True
    then show ?thesis by (simp add: task_ok_def qs none fr) (simp add: k'_def new_common_def)
  next
    case False
    then have "task_ok k' u = task_ok k u"
      by (intro task_ok_cong) (simp_all add: qs fr, simp_all add: k'_def new_common_def)
    then show ?thesis using kernel_midD(2) [OF i(1), of u] that False fr by simp
  qed
  moreover have "lists_ok k'"
    using l tne by (auto simp: lists_ok_def fr w) (simp add: k'_def new_common_def)
  moreover have "exits_ok k'" using i(2) new by (auto simp: exits_ok_def fr w)
  moreover have "run_core sched_ok ready k'"
  proof -
    have "u = k_current k" if "u \<in> k_tasks k'" "k_state k' u = Running" for u
      using that c(5) [of u] fr(1,2) by (cases "u = t") auto
    moreover have "k_is_idle k' = (k_is_idle k)(t := False)" by (simp add: k'_def new_common_def)
    ultimately show ?thesis using c(1-4,6,7) tne s by (auto simp: run_core_def fr is_idle_def)
  qed
  ultimately show ?thesis
    using eq s i(3) tne by (simp add: kernel_inv_def kernel_core_def kernel_mid_def fr)
qed

text \<open>The running task marked as exited, before its waiters are woken.\<close>

lemma exit_mid:
  assumes inv: "kernel_inv sched_ok ready k" and run: "k_cont k (k_current k) = C_run"
    and cur: "k_current k \<noteq> k_idle k"
    and k1: "k1 = (set_state (k_current k) Exited k)\<lparr> k_exit_code := (k_exit_code k)(k_current k := code) \<rparr>"
  shows "kernel_mid sched_ok ready k1"
proof -
  note i = kernel_invD [OF inv]
  note c = run_coreD [OF kernel_midD(1) [OF i(1)]]
  let ?t = "k_current k"
  have fr: "k_tasks k1 = k_tasks k" "k_sched k1 = k_sched k" "k_current k1 = ?t" "k_idle k1 = k_idle k \<and> k_is_idle k1 = k_is_idle k"
    "k_now k1 = k_now k" "k_state k1 = (k_state k)(?t := Exited)"
    "k_waiters k1 = k_waiters k" "k_timers k1 = k_timers k" "k_cont k1 = k_cont k"
    "k_in_wait_queue k1 = k_in_wait_queue k" "k_in_timer_list k1 = k_in_timer_list k"
    by (simp_all add: k1 set_state_def)
  have q: "queues k1 u = queues k u" "alarms k1 u = alarms k u" for u
    by (simp_all add: queues_def alarms_def fr)
  have "k_state k1 u \<noteq> Running" if "u \<in> k_tasks k" for u
    using that c(5) [of u] fr(6) by (cases "u = ?t") auto
  moreover have "{t \<in> k_tasks k. k_state k1 t = Ready \<and> t \<noteq> k_idle k} = {t \<in> k_tasks k. k_state k t = Ready \<and> t \<noteq> k_idle k}"
    using i(3) by (auto simp: fr)
  moreover have "k_state k (k_idle k) = Ready" using c(5) [OF c(4)] c(6) cur by auto
  ultimately have "run_core sched_ok ready k1"
    using c(1-4,7) cur by (simp add: run_core_def fr(1-4) is_idle_def) (simp add: fr(6))
  moreover have "task_ok k1 u" if "u \<in> k_tasks k" for u
  proof (cases "u = ?t")
    case True
    then show ?thesis using i(5) run by (simp add: task_ok_def q fr)
  next
    case False
    then have "task_ok k1 u = task_ok k u" by (intro task_ok_cong) (simp_all add: q fr)
    then show ?thesis using kernel_midD(2) [OF i(1) that] by simp
  qed
  moreover have "lists_ok k1" using kernel_midD(3) [OF i(1)] by (simp add: lists_ok_def fr)
  ultimately show ?thesis by (simp add: kernel_mid_def fr)
qed

lemma exit_spec:
  assumes inv: "kernel_inv sched_ok ready k" and run: "k_cont k (k_current k) = C_run"
    and cur: "k_current k \<noteq> k_idle k" "k_current k \<noteq> k_init k"
    and room: "room (Suc (length (k_waiters k (Wait_for_exit (k_current k))) + Suc (Suc n))) (k_sched k)"
  shows "\<exists>k'. exit_current ops code k = Some k' \<and> kernel_inv sched_ok ready k' \<and> room n (k_sched k') \<and>
    k_state k' (k_current k) = Exited \<and> k_exit_code k' (k_current k) = code \<and> k_tasks k' = k_tasks k \<and>
    k_cont k' = k_cont k \<and> (\<forall>q. set (k_waiters k' q) \<subseteq> set (k_waiters k q))"
proof -
  note i = kernel_invD [OF inv]
  let ?t = "k_current k"
  let ?q = "Wait_for_exit ?t"
  define k1 where "k1 = (set_state ?t Exited k)\<lparr> k_exit_code := (k_exit_code k)(?t := code) \<rparr>"
  have fr: "k_tasks k1 = k_tasks k" "k_sched k1 = k_sched k" "k_current k1 = ?t" "k_exited k1 = k_exited k"
    "k_state k1 = (k_state k)(?t := Exited)" "k_waiters k1 = k_waiters k" "k_exit_code k1 = (k_exit_code k)(?t := code)"
    "k_cont k1 = k_cont k"
    by (simp_all add: k1_def set_state_def)
  have mid1: "kernel_mid sched_ok ready k1" by (rule exit_mid [OF inv run cur(1) k1_def])
  obtain k2 where k2: "notify_all ops ?q False k1 = Some k2" "kernel_mid sched_ok ready k2"
    "room (Suc (Suc n)) (k_sched k2)" "wake_frame k1 k2" "k_waiters k2 = (k_waiters k1)(?q := [])"
    using notify_all_spec [OF mid1, of ?q "Suc (Suc n)" False] room by (auto simp: fr)
  define k3 where "k3 = k2\<lparr> k_exited := k_exited k2 @ [?t] \<rparr>"
  have f2: "k_tasks k2 = k_tasks k" "k_exited k2 = k_exited k" "\<And>u. k_state k2 u = Exited \<longleftrightarrow> u = ?t \<or> k_state k u = Exited"
    "k_exit_code k2 = k_exit_code k1"
    using k2(4) by (auto simp: wake_frame_def fr)
  have "task_ok k3 u = task_ok k2 u" for u
    by (intro task_ok_cong) (simp_all add: k3_def queues_def alarms_def)
  then have mid3: "kernel_mid sched_ok ready k3"
    using k2(2) by (simp add: kernel_mid_def k3_def run_core_def lists_ok_def)
  have "k_waiters k2 (Wait_for_exit u) = []" if "u \<notin> k_tasks k \<or> u = ?t \<or> k_state k u = Exited" for u
    using that i(2) by (auto simp: k2(5) fr exits_ok_def)
  moreover have "?t \<notin> set (k_exited k)" "set (k_exited k) = {u \<in> k_tasks k. k_state k u = Exited}" "distinct (k_exited k)"
    using i(2,3) by (auto simp: exits_ok_def)
  ultimately have ex3: "exits_ok k3"
    using i(4) by (auto simp: exits_ok_def k3_def f2)
  obtain b k4 where k4: "notify_one_locked ops WAIT_FOR_EXIT False k3 = Some (b, k4)" "kernel_mid sched_ok ready k4"
    "room (Suc n) (k_sched k4)" "wake_frame k3 k4" "k_waiters k4 = (k_waiters k3)(WAIT_FOR_EXIT := tl (k_waiters k3 WAIT_FOR_EXIT))"
    using notify_one_locked_spec [OF mid3, of "Suc n" WAIT_FOR_EXIT False] k2(3) by (auto simp: k3_def)
  have w4: "set (k_waiters k4 p) \<subseteq> set (k_waiters k3 p)" for p
    using k4(5) by (cases "k_waiters k3 WAIT_FOR_EXIT") auto
  moreover have "set (k_waiters k3 p) \<subseteq> set (k_waiters k p)" for p by (simp add: k3_def k2(5) fr)
  ultimately have w: "set (k_waiters k4 p) \<subseteq> set (k_waiters k p)" for p by blast
  have core4: "kernel_core sched_ok ready k4"
    using k4(2) exits_ok_wake [OF ex3 k4(4) w4] by (simp add: kernel_core_def)
  have cur4: "k_current k4 = ?t" "k_state k4 ?t = Exited" "k_exit_code k4 ?t = code" "k_tasks k4 = k_tasks k"
    "k_cont k4 = k_cont k"
    using k4(4) k2(4) by (auto simp: wake_frame_def k3_def fr)
  obtain k5 where k5: "resched ops False k4 = Some k5" "kernel_inv sched_ok ready k5" "room n (k_sched k5)" "run_frame k4 k5"
    using resched_inv [OF core4 _ k4(3), of False] cur4 by auto
  have "(set_state ?t Exited k)\<lparr> k_exit_code := (k_exit_code (set_state ?t Exited k))(?t := code) \<rparr> = k1"
    by (simp add: k1_def set_state_def)
  then have "exit_current ops code k = Some k5"
    using cur i(3) k2(1) k4(1) k5(1) current_idle [OF inv]
    by (simp add: exit_current_def is_running_def notify_exit_def Let_def k3_def [symmetric])
  moreover have "k_state k5 ?t = Exited" "k_exit_code k5 ?t = code" "k_tasks k5 = k_tasks k" "k_cont k5 = k_cont k"
    "k_waiters k5 = k_waiters k4"
    using k5(4) cur4 i(4) by (auto simp: run_frame_def)
  ultimately show ?thesis using k5(2,3) w by auto
qed

text \<open>Exit wakes every task that has joined the exiting one.\<close>

lemma exit_wakes_joiners:
  assumes inv: "kernel_inv sched_ok ready k" and run: "k_cont k (k_current k) = C_run"
    and cur: "k_current k \<noteq> k_idle k" "k_current k \<noteq> k_init k"
    and room: "room (Suc (length (k_waiters k (Wait_for_exit (k_current k))) + Suc (Suc n))) (k_sched k)"
  shows "\<exists>k'. exit_current ops code k = Some k' \<and> kernel_inv sched_ok ready k' \<and>
    k_state k' (k_current k) = Exited \<and> k_exit_code k' (k_current k) = code \<and>
    k_waiters k' (Wait_for_exit (k_current k)) = [] \<and>
    (\<forall>j\<in>set (k_waiters k (Wait_for_exit (k_current k))). k_state k' j \<in> {Ready, Running})"
proof -
  let ?q = "Wait_for_exit (k_current k)"
  obtain k' where k': "exit_current ops code k = Some k'" "kernel_inv sched_ok ready k'"
    "k_state k' (k_current k) = Exited" "k_exit_code k' (k_current k) = code" "k_tasks k' = k_tasks k"
    "k_cont k' = k_cont k" "\<And>q. set (k_waiters k' q) \<subseteq> set (k_waiters k q)"
    using exit_spec [OF inv run cur room, of code] by blast
  have nobody: "k_waiters k' ?q = []" using kernel_invD(2) [OF k'(2)] k'(3) by (simp add: exits_ok_def)
  have "k_state k' j \<in> {Ready, Running}" if j: "j \<in> set (k_waiters k ?q)" for j
  proof -
    note m = kernel_invD(1) [OF inv]
    have jt: "j \<in> k_tasks k" using kernel_midD(3) [OF m] j unfolding lists_ok_def by blast
    have co: "cont_ok (k_cont k j) (k_state k j) (queues k j) (alarms k j) (k_now k)"
      using kernel_midD(2) [OF m jt] by (simp add: task_ok_def)
    have "?q \<in> queues k j" using j by (simp add: queues_def)
    then have q: "queues k j = {?q}" by (rule cont_ok_unique [OF co])
    have none: "queues k' j = {}"
    proof (rule equals0I)
      fix p assume "p \<in> queues k' j"
      then have "j \<in> set (k_waiters k' p)" "p \<in> queues k j"
        using subsetD [OF k'(7) [of p], of j] by (simp_all add: queues_def)
      then show False using q nobody by simp
    qed
    have ok: "task_ok k' j"
      by (rule kernel_midD(2) [OF kernel_invD(1) [OF k'(2)]]) (simp add: jt k'(5))
    then have "cont_ok (k_cont k j) (k_state k' j) {} (alarms k' j) (k_now k')"
      using none by (simp add: task_ok_def k'(6))
    then have "k_state k' j \<noteq> Blocked" by (rule cont_ok_left_queue [OF co, rotated]) (simp add: q)
    moreover have "k_cont k j \<noteq> C_run"
    proof
      assume "k_cont k j = C_run"
      then show False using co unfolding q by simp
    qed
    then have "k_state k' j \<noteq> Exited" using ok by (simp add: task_ok_def k'(6))
    ultimately show ?thesis by (cases "k_state k' j") auto
  qed
  then show ?thesis using k'(1-4) nobody by blast
qed

text \<open>A sleeping task whose deadline has passed is made ready by the next timer interrupt.\<close>

lemma check_events_wakes:
  assumes inv: "kernel_inv sched_ok ready k" and d: "(d, t) \<in> set (k_timers k)" "d \<le> k_now k"
    and c: "k_cont k t = C_sleep" and room: "room (length (k_timers k)) (k_sched k)"
  shows "\<exists>k'. check_events ops k = Some k' \<and> k_state k t = Blocked \<and> k_state k' t = Ready \<and> t \<in> ready (k_sched k')"
proof -
  note m = kernel_invD(1) [OF inv]
  obtain k' where k': "check_events ops k = Some k'" "kernel_mid sched_ok ready k'" "wake_frame k k'"
    "k_timers k' = filter (\<lambda>x. k_now k < fst x) (k_timers k)"
    using check_events_spec [OF m, of 0] room by auto
  have tt: "t \<in> k_tasks k" "t \<noteq> k_idle k" using kernel_midD(3) [OF m] d by (auto simp: lists_ok_def)
  have a: "d \<in> alarms k t" using d by (simp add: alarms_def)
  then have bl: "k_state k t = Blocked" using kernel_midD(2) [OF m tt(1)] c by (auto simp: task_ok_def)
  have "distinct (map snd (k_timers k))" using kernel_midD(3) [OF m] by (simp add: lists_ok_def)
  then have "inj_on snd (set (k_timers k))" by (simp add: distinct_map)
  then have "x = d" if "(x, t) \<in> set (k_timers k)" for x
    using inj_onD [of snd "set (k_timers k)" "(x, t)" "(d, t)"] that d(1) by simp
  then have "alarms k t \<subseteq> {d}" by (auto simp: alarms_def)
  then have "alarms k' t = {}" using d(2) by (auto simp: alarms_def k'(4))
  moreover have fr: "k_tasks k' = k_tasks k" "k_cont k' t = C_sleep" "k_current k' = k_current k" "k_idle k' = k_idle k"
    "k_state k' t \<noteq> Exited" using k'(3) c bl by (auto simp: wake_frame_def)
  ultimately have "k_state k' t \<noteq> Blocked" using kernel_midD(2) [OF k'(2), of t] tt by (auto simp: task_ok_def)
  moreover have "k_state k' t \<noteq> Running"
    using run_coreD(5) [OF kernel_midD(1) [OF k'(2)], of t] fr tt bl kernel_invD(3) [OF inv] by auto
  ultimately have "k_state k' t = Ready" using fr(5) by (cases "k_state k' t") auto
  then show ?thesis
    using k' bl tt fr run_coreD(2) [OF kernel_midD(1) [OF k'(2)]] by auto
qed

lemma init_spec:
  assumes "sched_ok s0" "ready s0 = {}" "room (Suc n) s0" "distinct [idle, main, gc]"
  shows "\<exists>k. sched_init ops s0 idle main gc = Some k \<and> kernel_inv sched_ok ready k \<and> \<not> k_halted k"
proof -
  obtain s where s: "so_add ops gc s0 = Some s" "sched_ok s" "ready s = {gc}"
    using add_law [OF assms(1,3), of gc] assms(2) by auto
  then show ?thesis
    using assms(4)
    by (auto simp: sched_init_def Let_def kernel_inv_def kernel_core_def kernel_mid_def run_core_def task_ok_def
        queues_def alarms_def lists_ok_def exits_ok_def task_new_def task_new_init_def new_common_def set_state_def
        timer_new_def timer_ok_def)
qed

end

section \<open>Runs\<close>

text \<open>What happens next in the system: a timer interrupt or a check for a pending preemption, a call of the
  running task, or the next part of the call it was switched out in. A condition passed to a wait
  enters with its value, the strong counts of the garbage collector with theirs.\<close>

datatype 't call = Timer_irq | Check_preempt | Disable_preempt | Enable_preempt bool | Yield_now
  | Set_priority int | Spawn 't string | Sleep_until nat | Sleep_return
  | Wait "'t wait_queue" | Wait_return "'t wait_queue" | Wait_until "'t wait_queue" bool | Join 't
  | Timeout_arm "'t wait_queue" nat | Timeout_block "'t wait_queue" | Timeout_return "'t wait_queue"
  | Until_arm "'t wait_queue" nat | Until_check "'t wait_queue" nat | Until_turn "'t wait_queue" nat bool
  | Notify_one "'t wait_queue" bool | Notify_all "'t wait_queue" bool | Notify_task "'t wait_queue" bool 't
  | Exit_task int | Gc_begin | Gc_turn "'t \<Rightarrow> nat" nat | Gc_wait

fun run_call :: "('t, 's) sched_ops \<Rightarrow> 't call \<Rightarrow> ('t, 's) kernel \<Rightarrow> ('t, 's) kernel option" where
  "run_call ops Timer_irq k = on_timer_tick ops k"
| "run_call ops Check_preempt k = current_check_preempt_pending ops k"
| "run_call ops Disable_preempt k = Some (disable_preempt (k_current k) k)"
| "run_call ops (Enable_preempt r) k = enable_preempt ops (k_current k) r k"
| "run_call ops Yield_now k = yield_current ops k"
| "run_call ops (Set_priority p) k = map_option snd (set_current_priority ops p k)"
| "run_call ops (Spawn t name) k = spawn_raw ops t name k"
| "run_call ops (Sleep_until d) k = sleep_until ops d k"
| "run_call ops Sleep_return k = Some (set_cont (k_current k) C_run k)"
| "run_call ops (Wait q) k = wait_block ops q k"
| "run_call ops (Wait_return q) k = Some (wait_resume q k)"
| "run_call ops (Wait_until q c) k = wait_until_turn ops q c k"
| "run_call ops (Join t) k = join_turn ops t k"
| "run_call ops (Timeout_arm q d) k = Some (wait_timeout_arm q d k)"
| "run_call ops (Timeout_block q) k = wait_timeout_block ops q k"
| "run_call ops (Timeout_return q) k = Some (snd (wait_timeout_resume q k))"
| "run_call ops (Until_arm q d) k = Some (wait_timeout_until_arm q d k)"
| "run_call ops (Until_check q d) k = Some (snd (wait_timeout_until_check q d k))"
| "run_call ops (Until_turn q d c) k = map_option snd (wait_timeout_until_turn ops q d c k)"
| "run_call ops (Notify_one q r) k = map_option snd (notify_one ops q r k)"
| "run_call ops (Notify_all q r) k = notify_all ops q r k"
| "run_call ops (Notify_task q r t) k = map_option snd (notify_task ops q r t k)"
| "run_call ops (Exit_task code) k = exit_current ops code k"
| "run_call ops Gc_begin k = Some (gc_begin k)"
| "run_call ops (Gc_turn refs n) k = Some (gc_turn refs n k)"
| "run_call ops Gc_wait k = gc_wait ops k"

text \<open>Where the running task must be for it: outside any call to start one, in the right part of a call
  to go on with it. The idle task runs \<open>run_idle\<close>, which makes no timed wait, and only the collector runs
  \<open>gc_entry\<close>. The exit queues are private to \<open>join\<close>, a task that waits in \<open>join\<close> holds a
  reference of the joined one, and \<open>N\<close> is the set of names given to new tasks.\<close>

definition public_queue :: "'t wait_queue \<Rightarrow> bool" where
  "public_queue q \<longleftrightarrow> (\<forall>t. q \<noteq> Wait_for_exit t)"

fun call_at :: "string set \<Rightarrow> 't call \<Rightarrow> ('t, 's) kernel \<Rightarrow> bool" where
  "call_at N (Spawn t name) k \<longleftrightarrow> t \<notin> k_tasks k \<and> name \<in> N"
| "call_at N Yield_now k \<longleftrightarrow> k_cont k (k_current k) = C_run"
| "call_at N (Sleep_until d) k \<longleftrightarrow> k_cont k (k_current k) = C_run"
| "call_at N Sleep_return k \<longleftrightarrow> k_cont k (k_current k) = C_sleep"
| "call_at N (Wait q) k \<longleftrightarrow> k_cont k (k_current k) = C_run \<and> public_queue q"
| "call_at N (Wait_return q) k \<longleftrightarrow> k_cont k (k_current k) = C_wait q"
| "call_at N (Wait_until q c) k \<longleftrightarrow> k_cont k (k_current k) \<in> {C_run, C_wait_until q} \<and> public_queue q"
| "call_at N (Join t) k \<longleftrightarrow> k_cont k (k_current k) \<in> {C_run, C_wait_until (Wait_for_exit t)} \<and> t \<in> k_tasks k"
| "call_at N (Timeout_arm q d) k \<longleftrightarrow> k_cont k (k_current k) = C_run \<and> k_current k \<noteq> k_idle k \<and> public_queue q"
| "call_at N (Timeout_block q) k \<longleftrightarrow> k_cont k (k_current k) = C_arm q \<and> public_queue q"
| "call_at N (Timeout_return q) k \<longleftrightarrow> k_cont k (k_current k) = C_wait_timeout q"
| "call_at N (Until_arm q d) k \<longleftrightarrow> k_cont k (k_current k) = C_run \<and> k_current k \<noteq> k_idle k \<and> public_queue q"
| "call_at N (Until_check q d) k \<longleftrightarrow> k_cont k (k_current k) = C_wait_timeout_until q d \<and> public_queue q"
| "call_at N (Until_turn q d c) k \<longleftrightarrow> k_cont k (k_current k) = C_until_checked q d \<and> public_queue q"
| "call_at N (Exit_task code) k \<longleftrightarrow> k_cont k (k_current k) = C_run"
| "call_at N Gc_begin k \<longleftrightarrow> k_cont k (k_current k) = C_run \<and> k_current k = k_gc k \<and> k_current k \<noteq> k_idle k"
| "call_at N (Gc_turn refs n) k \<longleftrightarrow> k_cont k (k_current k) = C_gc (Suc n) \<and>
    (\<forall>t u. k_cont k u = C_wait_until (Wait_for_exit t) \<longrightarrow> refs t \<noteq> 1)"
| "call_at N Gc_wait k \<longleftrightarrow> k_cont k (k_current k) = C_gc 0"
| "call_at N _ k \<longleftrightarrow> True"

text \<open>The conditions that the assertions of a call check.\<close>

definition can_block :: "('t, 's) kernel \<Rightarrow> bool" where
  "can_block k \<longleftrightarrow> \<not> is_idle (k_current k) k \<and> can_preempt (k_current k) 0 k"

fun call_asserts :: "'t call \<Rightarrow> ('t, 's) kernel \<Rightarrow> bool" where
  "call_asserts (Sleep_until d) k \<longleftrightarrow> \<not> is_idle (k_current k) k"
| "call_asserts (Wait q) k \<longleftrightarrow> can_block k"
| "call_asserts (Wait_until q c) k \<longleftrightarrow> c \<or> can_block k"
| "call_asserts (Join t) k \<longleftrightarrow> k_state k t = Exited \<or> can_block k"
| "call_asserts (Timeout_block q) k \<longleftrightarrow> can_block k"
| "call_asserts (Until_turn q d c) k \<longleftrightarrow> c \<or> can_block k"
| "call_asserts (Exit_task code) k \<longleftrightarrow> \<not> is_idle (k_current k) k"
| "call_asserts Gc_wait k \<longleftrightarrow> can_block k"
| "call_asserts _ k \<longleftrightarrow> True"

text \<open>How many tasks a call may hand to the scheduler: those it wakes, and the one it switches away from.\<close>

definition call_room :: "'t call \<Rightarrow> ('t, 's) kernel \<Rightarrow> nat" where
  "call_room c k = 3 + (case c of Timer_irq \<Rightarrow> length (k_timers k) | Notify_all q r \<Rightarrow> length (k_waiters k q)
    | Exit_task code \<Rightarrow> length (k_waiters k (Wait_for_exit (k_current k))) | _ \<Rightarrow> 0)"

inductive kstep :: "('t, 's) sched_ops \<Rightarrow> string set \<Rightarrow> ('t, 's) kernel \<Rightarrow> ('t, 's) kernel \<Rightarrow> bool" for ops N where
  time: "k_now k \<le> now \<Longrightarrow> kstep ops N k (k\<lparr> k_now := now \<rparr>)"
| call: "call_at N c k \<Longrightarrow> run_call ops c k = Some k' \<Longrightarrow> kstep ops N k k'"

inductive kreach :: "('t, 's) sched_ops \<Rightarrow> string set \<Rightarrow> ('t, 's) kernel \<Rightarrow> ('t, 's) kernel \<Rightarrow> bool" for ops N k0 where
  start: "kreach ops N k0 k0"
| step: "kreach ops N k0 k \<Longrightarrow> \<not> k_halted k \<Longrightarrow> kstep ops N k k' \<Longrightarrow> kreach ops N k0 k'"

lemma task_ok_later:
  assumes "k_now k \<le> now"
  shows "task_ok k t \<Longrightarrow> task_ok (k\<lparr> k_now := now \<rparr>) t"
  using cont_ok_later [OF _ assms, of "k_cont k t" "k_state k t" "queues k t" "alarms k t"]
  by (simp add: task_ok_def queues_def alarms_def)

lemma kernel_inv_preempt_count: "kernel_inv sok rdy (k\<lparr> k_preempt_count := f \<rparr>) = kernel_inv sok rdy k"
  by (simp add: kernel_inv_def kernel_core_def kernel_mid_def run_core_def task_ok_def lists_ok_def exits_ok_def
      queues_def alarms_def)

lemma block_None: "\<not> can_block k \<Longrightarrow> block_current ops f k = None"
  by (auto simp: block_current_def can_block_def Let_def)

text \<open>A call returns exactly when a condition holds, and then a state with a property.\<close>

definition returns_iff :: "bool \<Rightarrow> ('k \<Rightarrow> bool) \<Rightarrow> 'k option \<Rightarrow> bool" where
  "returns_iff a P r \<longleftrightarrow> (case r of None \<Rightarrow> \<not> a | Some k' \<Rightarrow> a \<and> P k')"

lemma returns_iff_simps [simp]: "returns_iff a P None \<longleftrightarrow> \<not> a" "returns_iff a P (Some k) \<longleftrightarrow> a \<and> P k"
  by (simp_all add: returns_iff_def)

lemma returns_iff_mono: "returns_iff a P r \<Longrightarrow> (\<And>k. P k \<Longrightarrow> Q k) \<Longrightarrow> returns_iff a Q r"
  by (cases r) auto

context run_queue
begin

lemma preempt_pending_spec:
  assumes "kernel_inv sched_ok ready k" "room (Suc n) (k_sched k)"
  shows "\<exists>k'. current_check_preempt_pending ops k = Some k' \<and> kernel_inv sched_ok ready k'"
  using preempt_resched_spec [OF assms] assms(1) by (auto simp: current_check_preempt_pending_def Let_def)

text \<open>The queues and alarms of the running task.\<close>

lemma current_cont:
  assumes "kernel_inv sched_ok ready k"
  shows "cont_ok (k_cont k (k_current k)) Running (queues k (k_current k)) (alarms k (k_current k)) (k_now k)"
    "k_current k = k_idle k \<Longrightarrow> k_cont k (k_current k) = C_run"
  using kernel_invD(3,5) [OF assms] kernel_midD(3) [OF kernel_invD(1) [OF assms]] by (simp_all add: task_ok_def lists_ok_def)

lemma block_call:
  assumes "kernel_inv sched_ok ready k" "queues k (k_current k) = {}"
    "cont_ok c Blocked {q} (alarms k (k_current k)) (k_now k)"
    "\<And>u. q = Wait_for_exit u \<Longrightarrow> u \<in> k_tasks k \<and> k_state k u \<noteq> Exited" "room (Suc n) (k_sched k)"
  shows "returns_iff (can_block k) (kernel_inv sched_ok ready) (block_current ops (\<lambda>t. set_cont t c \<circ> wq_push q t) k)"
proof (cases "can_block k")
  case True
  then have "k_current k \<noteq> k_idle k" "k_preempt_count k (k_current k) = 0"
    using current_idle [OF assms(1)] by (auto simp: can_block_def can_preempt_def)
  from block_spec [OF assms(1) this assms(2-5)] show ?thesis using True by auto
qed (simp add: block_None)

lemma wait_until_call:
  assumes inv: "kernel_inv sched_ok ready k" and c: "k_cont k (k_current k) \<in> {C_run, C_wait_until q}"
    and q: "\<And>u. q = Wait_for_exit u \<Longrightarrow> \<not> c \<Longrightarrow> u \<in> k_tasks k \<and> k_state k u \<noteq> Exited" and room: "room (Suc n) (k_sched k)"
  shows "returns_iff (c \<or> can_block k) (kernel_inv sched_ok ready) (wait_until_turn ops q c k)"
proof -
  have none: "queues k (k_current k) = {}" "alarms k (k_current k) = {}" using current_cont(1) [OF inv] c by auto
  then show ?thesis
    using cancel_events_spec(1) [OF inv] block_call [OF inv none(1) _ _ room, of "C_wait_until q" q] q
    by (cases c) (simp_all add: wait_until_turn_def)
qed

lemma enable_preempt_spec:
  assumes "kernel_inv sched_ok ready k" "room (Suc n) (k_sched k)"
  shows "\<exists>k'. enable_preempt ops t r k = Some k' \<and> kernel_inv sched_ok ready k'"
  using preempt_pending_spec [of "k\<lparr> k_preempt_count := f \<rparr>" n for f] assms kernel_inv_preempt_count [where k = k and sok = sched_ok and rdy = ready]
  by (simp add: enable_preempt_def Let_def)

lemma until_check_spec:
  assumes inv: "kernel_inv sched_ok ready k" and c: "k_cont k (k_current k) = C_wait_timeout_until q d"
  shows "kernel_inv sched_ok ready (snd (wait_timeout_until_check q d k))"
proof -
  have "queues k (k_current k) \<subseteq> {q}" "alarms k (k_current k) \<subseteq> {d}" "k_now k < d \<Longrightarrow> queues k (k_current k) = {}"
    using current_cont(1) [OF inv] c by auto
  moreover have "k_current k \<noteq> k_idle k" using current_cont(2) [OF inv] c by auto
  ultimately show ?thesis
    using cont_changed [OF inv, of "C_until_checked q d"] cancel_events_spec(1) [OF inv, of q]
    by (simp add: wait_timeout_until_check_def)
qed

lemma until_turn_call:
  assumes inv: "kernel_inv sched_ok ready k" and c: "k_cont k (k_current k) = C_until_checked q d" "public_queue q"
    and room: "room (Suc n) (k_sched k)"
  shows "returns_iff (c \<or> can_block k) (kernel_inv sched_ok ready) (map_option snd (wait_timeout_until_turn ops q d c k))"
proof -
  have none: "queues k (k_current k) = {}" "alarms k (k_current k) \<subseteq> {d}" using current_cont(1) [OF inv] c by auto
  then have "returns_iff (can_block k) (kernel_inv sched_ok ready)
      (block_current ops (\<lambda>t. set_cont t (C_wait_timeout_until q d) \<circ> wq_push q t) k)"
    using block_call [OF inv none(1) _ _ room, of "C_wait_timeout_until q d" q] c(2) by (auto simp: public_queue_def)
  then show ?thesis
    using cancel_events_spec(1) [OF inv] none(1)
    by (cases c) (simp_all add: wait_timeout_until_turn_def option.map_comp comp_def option.map_ident)
qed

lemma wait_call:
  assumes inv: "kernel_inv sched_ok ready k" and c: "k_cont k (k_current k) \<in> {C_run, C_gc m}" "public_queue q"
    and room: "room (Suc n) (k_sched k)"
  shows "returns_iff (can_block k) (kernel_inv sched_ok ready) (wait_block ops q k)"
proof -
  have none: "queues k (k_current k) = {}" "alarms k (k_current k) = {}" using current_cont(1) [OF inv] c(1) by auto
  then show ?thesis
    using block_call [OF inv none(1) _ _ room, of "C_wait q" q] c(2) by (simp add: wait_block_def public_queue_def)
qed

lemma timeout_call:
  assumes inv: "kernel_inv sched_ok ready k" and c: "k_cont k (k_current k) = C_arm q" "public_queue q"
    and room: "room (Suc n) (k_sched k)"
  shows "returns_iff (can_block k) (kernel_inv sched_ok ready) (wait_timeout_block ops q k)"
proof -
  have "queues k (k_current k) = {}" using current_cont(1) [OF inv] c(1) by auto
  then show ?thesis
    using block_call [OF inv _ _ _ room, of "C_wait_timeout q" q] c(2) by (simp add: wait_timeout_block_def public_queue_def)
qed

lemma exit_call:
  assumes inv: "kernel_inv sched_ok ready k" and run: "k_cont k (k_current k) = C_run"
    and room: "room (Suc (length (k_waiters k (Wait_for_exit (k_current k))) + Suc (Suc n))) (k_sched k)"
  shows "returns_iff (\<not> is_idle (k_current k) k) (\<lambda>k'. k_halted k' \<or> kernel_inv sched_ok ready k') (exit_current ops code k)"
proof (cases "is_idle (k_current k) k \<or> k_current k = k_init k")
  case True
  then show ?thesis using kernel_invD(3) [OF inv] by (auto simp: exit_current_def is_running_def Let_def)
next
  case False
  then show ?thesis using exit_spec [OF inv run _ _ room, of code] current_idle [OF inv] by auto
qed

text \<open>Every step of the system returns exactly when the conditions it asserts hold, and keeps the invariant.\<close>

lemma call_spec:
  assumes inv: "kernel_inv sched_ok ready k" and at: "call_at N c k" and N: "''idle'' \<notin> N"
    and room: "room (call_room c k) (k_sched k)"
  shows "returns_iff (call_asserts c k) (\<lambda>k'. k_halted k' \<or> kernel_inv sched_ok ready k') (run_call ops c k)"
proof -
  let ?I = "kernel_inv sched_ok ready"
  note weak = returns_iff_mono [where P = "?I" and Q = "\<lambda>k'. k_halted k' \<or> ?I k'", OF _ disjI2]
  have r: "room (Suc 0) (k_sched k)" using room_less [OF room, of "Suc 0"] by (simp add: call_room_def)
  have q: "public_queue WAIT_FOR_EXIT" by (simp add: public_queue_def)
  show ?thesis
  proof (cases c)
    case Timer_irq
    then show ?thesis using on_timer_tick_spec [OF inv, of 3] room by (auto simp: call_room_def add.commute)
  next
    case (Notify_all q r)
    then show ?thesis using notify_spec(2) [OF inv, of q 2 r] room by (auto simp: call_room_def numeral_3_eq_3)
  next
    case (Exit_task code)
    then show ?thesis using exit_call [OF inv, of 0 code] at room by (simp add: call_room_def add.commute numeral_3_eq_3)
  next
    case (Join t)
    then show ?thesis using weak [OF wait_until_call [OF inv, of "Wait_for_exit t", OF _ _ r]] at by (simp add: join_turn_def)
  next
    case (Wait_until q c)
    then show ?thesis using weak [OF wait_until_call [OF inv, of q, OF _ _ r]] at by (simp add: public_queue_def)
  next
    case (Spawn t name)
    then have "name \<noteq> ''idle''" using at N by auto
    then show ?thesis using spawn_spec [OF inv _ _ r, of t name] Spawn at by auto
  next
    case (Gc_turn refs n)
    then have "k_current k \<noteq> k_idle k" using current_cont(2) [OF inv] at by fastforce
    then show ?thesis using gc_turn_spec(1) [OF inv, of "Suc n" refs n] Gc_turn at by simp
  next
    case Gc_begin
    then have "k_cont k (k_current k) = C_run" "k_current k \<noteq> k_idle k"
      using at unfolding Gc_begin call_at.simps by blast+
    then show ?thesis
      using cont_changed [OF inv, of "C_gc (length (k_exited k))"] current_cont(1) [OF inv] Gc_begin by (simp add: gc_begin_def)
  next
    case Sleep_return
    then show ?thesis using cont_changed [OF inv, of C_run] current_cont(1) [OF inv] at by simp
  next
    case (Wait_return q)
    then show ?thesis using cancel_events_spec(1) [OF inv, of q] current_cont(1) [OF inv] at by simp
  next
    case (Timeout_return q)
    then show ?thesis
      using cancel_events_spec(1) [OF inv, of q] current_cont(1) [OF inv] at by (simp add: wait_timeout_resume_def)
  next
    case (Sleep_until d)
    then show ?thesis
      using sleep_until_spec [OF inv _ _ r, of d] current_idle [OF inv] at
      by (cases "is_idle (k_current k) k") (simp add: sleep_until_def Let_def, auto)
  next
    case (Set_priority p)
    then show ?thesis using set_current_priority_spec [OF inv r, of p] by auto
  next
    case (Notify_one q b)
    then show ?thesis using notify_spec(1) [OF inv r, of q b] by auto
  next
    case (Notify_task q b t)
    then show ?thesis using notify_spec(3) [OF inv r, of q b t] by auto
  next
    case (Enable_preempt b)
    then show ?thesis using enable_preempt_spec [OF inv r, of "k_current k" b] by auto
  next
    case Disable_preempt
    then show ?thesis using inv by (simp add: disable_preempt_def kernel_inv_preempt_count)
  qed (use at preempt_pending_spec [OF inv r] yield_spec [OF inv r]
      weak [OF wait_call [OF inv _ _ r]] weak [OF timeout_call [OF inv _ _ r]] weak [OF until_turn_call [OF inv _ _ r]]
      arm_spec [OF inv] until_check_spec [OF inv] q in \<open>auto simp: gc_wait_def\<close>)
qed

end

text \<open>Schedulers that never run out of room: the invariant holds in every run in which no new task is named
  like the idle one.\<close>

locale endless_run_queue = run_queue +
  assumes always_room: "room n s"
begin

lemma kstep_inv:
  assumes "kstep ops N k k'" "''idle'' \<notin> N" "kernel_inv sched_ok ready k"
  shows "k_halted k' \<or> kernel_inv sched_ok ready k'"
  using assms
proof (induction rule: kstep.induct)
  case (time k now)
  then show ?case
    using task_ok_later [OF time(1)]
    by (simp add: kernel_inv_def kernel_core_def kernel_mid_def run_core_def lists_ok_def exits_ok_def)
next
  case (call c k k')
  then show ?case using call_spec [OF call(4,1,3) always_room] by simp
qed

lemma kreach_inv:
  assumes "kreach ops N k0 k" "''idle'' \<notin> N" "kernel_inv sched_ok ready k0"
  shows "k_halted k \<or> kernel_inv sched_ok ready k"
  using assms by (induction rule: kreach.induct) (auto dest: kstep_inv)

end

end
