(* ===== verification/Task_Properties.thy ===== *)
theory Task_Properties
  imports Task_Invariants
begin

text \<open>
  The run queue over the three schedulers a build can choose (\<open>api.rs\<close>), and the properties of
  the task system.
\<close>

definition fifo_ops :: "('t, 't fifo) sched_ops" where
  "fifo_ops = \<lparr> so_add = fifo_add_task, so_pick = fifo_pick_next_task, so_put = fifo_put_prev_task,
    so_tick = fifo_task_tick, so_prio = fifo_set_priority \<rparr>"

definition MAX_TIME_SLICE :: nat where
  "MAX_TIME_SLICE = 5"

definition rr_ops :: "('t, 't rr) sched_ops" where
  "rr_ops = \<lparr> so_add = rr_add_task, so_pick = rr_pick_next_task, so_put = rr_put_prev_task MAX_TIME_SLICE,
    so_tick = rr_task_tick, so_prio = rr_set_priority \<rparr>"

definition cfs_ops :: "('t, 't cfs) sched_ops" where
  "cfs_ops = \<lparr> so_add = cfs_add_task, so_pick = cfs_pick_next_task, so_put = cfs_put_prev_task,
    so_tick = cfs_task_tick, so_prio = cfs_set_priority \<rparr>"

interpretation fifo_rq: endless_run_queue fifo_ok fifo_ready "\<lambda>_ _. True" fifo_ops
  by (intro endless_run_queue.intro run_queue.intro endless_run_queue_axioms.intro)
    (simp_all add: fifo_ops_def fifo.base_scheduler_axioms)

interpretation rr_rq: endless_run_queue rr_ok rr_ready "\<lambda>_ _. True" rr_ops
  by (intro endless_run_queue.intro run_queue.intro endless_run_queue_axioms.intro)
    (simp_all add: rr_ops_def rr.base_scheduler_axioms)

interpretation cfs_rq: run_queue cfs_ok cfs_ready cfs_room cfs_ops
  by (intro run_queue.intro) (simp add: cfs_ops_def cfs.base_scheduler_axioms)

text \<open>What the invariant says of a state.\<close>

definition no_task_lost :: "('s \<Rightarrow> 't set) \<Rightarrow> ('t, 's) kernel \<Rightarrow> bool" where
  "no_task_lost rdy k \<longleftrightarrow>
    (\<forall>t\<in>k_tasks k. k_state k t = Running \<longleftrightarrow> t = k_current k) \<and> k_current k \<in> k_tasks k \<and>
    rdy (k_sched k) = {t \<in> k_tasks k. k_state k t = Ready} - {k_idle k} \<and>
    (\<forall>t\<in>k_tasks k. k_state k t = Blocked \<longrightarrow> (\<exists>q. t \<in> set (k_waiters k q)) \<or> (\<exists>d. (d, t) \<in> set (k_timers k))) \<and>
    (\<forall>t\<in>k_tasks k. k_state k t = Exited \<longrightarrow> t \<in> set (k_exited k) \<and> k_waiters k (Wait_for_exit t) = [])"

lemma cont_ok_blocked: "cont_ok c Blocked W A n \<Longrightarrow> W \<noteq> {} \<or> A \<noteq> {}"
  by (cases c) auto

lemma inv_no_task_lost:
  assumes "kernel_inv sok rdy k"
  shows "no_task_lost rdy k"
proof -
  have "(\<exists>q. t \<in> set (k_waiters k q)) \<or> (\<exists>d. (d, t) \<in> set (k_timers k))"
    if "t \<in> k_tasks k" "k_state k t = Blocked" for t
  proof -
    have "cont_ok (k_cont k t) Blocked (queues k t) (alarms k t) (k_now k)"
      using assms that by (auto simp: kernel_inv_def kernel_core_def kernel_mid_def task_ok_def)
    then show ?thesis using cont_ok_blocked by (fastforce simp: queues_def alarms_def)
  qed
  then show ?thesis
    using assms by (auto simp: no_task_lost_def kernel_inv_def kernel_core_def kernel_mid_def run_core_def exits_ok_def)
qed

section \<open>Properties\<close>

text \<open>C1: In every state the task system reaches from its initial one, with the FIFO and the round
  robin scheduler, until it is shut down and as long as no new task is named \<open>idle\<close>: exactly
  the current task is running, the scheduler holds exactly the ready tasks (the idle task apart), every
  blocked task is in a wait queue or in the timer list, and every exited task that has not been
  dropped waits for the garbage collector with nobody left waiting for its exit.\<close>

theorem task_system_invariant:
  assumes "distinct [idle, main, gc]" "''idle'' \<notin> N"
  shows "(\<exists>k0. sched_init fifo_ops (fifo_new h) idle main gc = Some k0 \<and>
      (\<forall>k. kreach fifo_ops N k0 k \<longrightarrow> k_halted k \<or> no_task_lost fifo_ready k)) \<and>
    (\<exists>k0. sched_init rr_ops (rr_new slices) idle main gc = Some k0 \<and>
      (\<forall>k. kreach rr_ops N k0 k \<longrightarrow> k_halted k \<or> no_task_lost rr_ready k))"
proof (rule conjI)
  have "list_repr (fifo_new h) ([] :: 'a list)" by (simp add: fifo_new_def list_new_def)
  then have "fifo_ok (fifo_new h :: 'a fifo)" "fifo_ready (fifo_new h :: 'a fifo) = {}"
    by (auto simp: fifo_okI fifo_ready_repr simp del: list_repr_Nil)
  then show "\<exists>k0. sched_init fifo_ops (fifo_new h) idle main gc = Some k0 \<and>
      (\<forall>k. kreach fifo_ops N k0 k \<longrightarrow> k_halted k \<or> no_task_lost fifo_ready k)"
    using fifo_rq.init_spec [OF _ _ TrueI assms(1)] fifo_rq.kreach_inv [OF _ assms(2)] inv_no_task_lost by blast
  have "rr_ok (rr_new slices)" "rr_ready (rr_new slices) = {}" by (simp_all add: rr_ok_def rr_new_def rr_ready_def)
  then show "\<exists>k0. sched_init rr_ops (rr_new slices) idle main gc = Some k0 \<and>
      (\<forall>k. kreach rr_ops N k0 k \<longrightarrow> k_halted k \<or> no_task_lost rr_ready k)"
    using rr_rq.init_spec [OF _ _ TrueI assms(1)] rr_rq.kreach_inv [OF _ assms(2)] inv_no_task_lost by blast
qed

theorem task_system_invariant_witness:
  "\<exists>k0. sched_init fifo_ops (fifo_new (\<lambda>_. None)) 0 1 (2::nat) = Some k0 \<and>
    (\<forall>k. kreach fifo_ops {''worker''} k0 k \<longrightarrow> k_halted k \<or> no_task_lost fifo_ready k)"
proof -
  have "distinct [0, 1, 2::nat]" "''idle'' \<notin> {''worker''}" by simp_all
  from task_system_invariant [OF this, THEN conjunct1, of "\<lambda>_. None"] show ?thesis .
qed



text \<open>C17: A task that exits leaves its exit code behind and wakes every task that joined it; none is
  left in its queue.\<close>

theorem exit_wakes_joiners_fifo:
  assumes "kernel_inv fifo_ok fifo_ready k" "k_cont k (k_current k) = C_run"
    "k_current k \<noteq> k_idle k" "k_current k \<noteq> k_init k"
  shows "\<exists>k'. exit_current fifo_ops code k = Some k' \<and> kernel_inv fifo_ok fifo_ready k' \<and>
    k_state k' (k_current k) = Exited \<and> k_exit_code k' (k_current k) = code \<and>
    k_waiters k' (Wait_for_exit (k_current k)) = [] \<and>
    (\<forall>j\<in>set (k_waiters k (Wait_for_exit (k_current k))). k_state k' j \<in> {Ready, Running})"
  by (rule fifo_rq.exit_wakes_joiners [OF assms TrueI])

theorem exit_wakes_joiners_fifo_witness:
  "\<exists>k k'. kernel_inv fifo_ok fifo_ready k \<and> k_current k = (2::nat) \<and> exit_current fifo_ops 3 k = Some k' \<and> k_exit_code k' 2 = 3"
proof -
  have l: "list_repr (fifo_new (\<lambda>_. None)) ([] :: nat list)" by (simp add: fifo_new_def list_new_def)
  then have s: "fifo_ok (fifo_new (\<lambda>_. None) :: nat fifo)" "fifo_ready (fifo_new (\<lambda>_. None) :: nat fifo) = {}"
    by (auto simp: fifo_okI fifo_ready_repr simp del: list_repr_Nil)
  obtain k0 where k0: "sched_init fifo_ops (fifo_new (\<lambda>_. None)) 0 1 (2::nat) = Some k0" "kernel_inv fifo_ok fifo_ready k0"
    using fifo_rq.init_spec [OF s TrueI, of 0 1 2] by auto
  obtain k where k: "yield_current fifo_ops k0 = Some k" "kernel_inv fifo_ok fifo_ready k"
    using fifo_rq.yield_spec [OF k0(2) TrueI] by blast
  have "Option.bind (sched_init fifo_ops (fifo_new (\<lambda>_. None)) 0 1 (2::nat)) (\<lambda>k0. map_option
      (\<lambda>k. (k_current k, k_cont k 2, k_idle k, k_init k)) (yield_current fifo_ops k0)) = Some (2, C_run, 0, 1)"
    by code_simp
  then have "k_current k = 2" "k_cont k 2 = C_run" "k_idle k = 0" "k_init k = 1" using k0(1) k(1) by auto
  then show ?thesis using exit_wakes_joiners_fifo [OF k(2), of 3] k(2) by auto
qed

text \<open>C18: A sleeping task whose deadline has passed is blocked before the next check of the timer list
  and ready, in the scheduler, after it.\<close>

theorem sleeper_wakes:
  assumes "kernel_inv rr_ok rr_ready k" "(d, t) \<in> set (k_timers k)" "d \<le> k_now k" "k_cont k t = C_sleep"
  shows "\<exists>k'. check_events rr_ops k = Some k' \<and> k_state k t = Blocked \<and> k_state k' t = Ready \<and> t \<in> rr_ready (k_sched k')"
  by (rule rr_rq.check_events_wakes [OF assms TrueI])

theorem sleeper_wakes_witness:
  "\<exists>k k'. k_state k (1::nat) = Blocked \<and> check_events rr_ops (k\<lparr> k_now := 7 \<rparr>) = Some k' \<and> k_state k' 1 = Ready"
proof -
  have s: "rr_ok (rr_new (\<lambda>_. 5) :: nat rr)" "rr_ready (rr_new (\<lambda>_. 5) :: nat rr) = {}"
    by (simp_all add: rr_ok_def rr_new_def rr_ready_def)
  obtain k0 where k0: "sched_init rr_ops (rr_new (\<lambda>_. 5)) 0 1 (2::nat) = Some k0" "kernel_inv rr_ok rr_ready k0"
    using rr_rq.init_spec [OF s TrueI, of 0 1 2] by auto
  have cur: "k_current k0 = 1" "k_idle k0 = 0" "k_cont k0 1 = C_run"
    using k0(1) by (auto simp: sched_init_def Let_def task_new_def task_new_init_def new_common_def set_state_def)
  obtain k where k: "sleep_until rr_ops 7 k0 = Some k" "kernel_inv rr_ok rr_ready k"
    using rr_rq.sleep_until_spec [OF k0(2) _ _ TrueI, of 7] cur by auto
  have "Option.bind (sched_init rr_ops (rr_new (\<lambda>_. 5)) 0 1 (2::nat)) (\<lambda>k0. map_option
      (\<lambda>k. (k_timers k, k_cont k 1, k_now k, k_halted k)) (sleep_until rr_ops 7 k0)) = Some ([(7, 1)], C_sleep, 0, False)"
    by code_simp
  then have f: "k_timers k = [(7, 1)]" "k_cont k 1 = C_sleep" "k_now k = 0" "\<not> k_halted k" using k0(1) k(1) by auto
  then have "kernel_inv rr_ok rr_ready (k\<lparr> k_now := 7 \<rparr>)"
    using rr_rq.kstep_inv [OF kstep.time [of k 7 rr_ops "{}"] _ k(2)] by simp
  from sleeper_wakes [OF this, of 7 1] f show ?thesis by auto
qed

text \<open>A pass of the garbage collector over the tasks that had exited when it began drops exactly those
  nobody else holds.\<close>

primrec gc_pass :: "('t \<Rightarrow> nat) \<Rightarrow> nat \<Rightarrow> ('t, 's) kernel \<Rightarrow> ('t, 's) kernel" where
  "gc_pass refs 0 k = k"
| "gc_pass refs (Suc n) k = gc_pass refs n (gc_turn refs n k)"

lemma gc_pass_spec:
  "k_exited k = xs @ ys \<Longrightarrow> k_exited (gc_pass refs (length xs) k) = ys @ filter (\<lambda>t. refs t \<noteq> 1) xs \<and>
    k_tasks (gc_pass refs (length xs) k) = k_tasks k - {t \<in> set xs. refs t = 1}"
proof (induction xs arbitrary: ys k)
  case (Cons x xs)
  let ?k = "gc_turn refs (length xs) k"
  have "k_exited ?k = xs @ ys @ (if refs x = 1 then [] else [x])" "k_tasks ?k = k_tasks k - {t \<in> {x}. refs t = 1}"
    using Cons.prems by (simp_all add: gc_turn_def set_cont_def) blast
  from Cons.IH [OF this(1)] this(2) show ?case by auto
qed simp

text \<open>The alarm of \<open>wait_timeout\<close> is set before \<open>RUN_QUEUE\<close> is locked: when it expires in
  between, the task blocks afterwards with no alarm left.\<close>

lemma wait_timeout_lost_alarm:
  "Option.bind (sched_init fifo_ops (fifo_new (\<lambda>_. None)) 0 1 (2::nat)) (\<lambda>k.
    Option.bind (on_timer_tick fifo_ops ((wait_timeout_arm (User_queue 0) 5 k)\<lparr> k_now := 5 \<rparr>)) (\<lambda>k.
      map_option (\<lambda>k. (k_state k 1, k_timers k)) (wait_timeout_block fifo_ops (User_queue 0) k))) = Some (Blocked, [])"
  by code_simp

lemma wait_timeout_until_lost_alarm:
  "Option.bind (sched_init fifo_ops (fifo_new (\<lambda>_. None)) 0 1 (2::nat)) (\<lambda>k.
    Option.bind (on_timer_tick fifo_ops ((snd (wait_timeout_until_check (User_queue 0) 5
        (wait_timeout_until_arm (User_queue 0) 5 k)))\<lparr> k_now := 5 \<rparr>)) (\<lambda>k.
      map_option (\<lambda>(_, k). (k_state k 1, k_timers k)) (wait_timeout_until_turn fifo_ops (User_queue 0) 5 False k)))
    = Some (Blocked, [])"
  by code_simp

text \<open>Names are chosen by the caller of \<open>spawn_raw\<close>, and a task named \<open>idle\<close> counts as an idle task: when
  it yields, it stays ready but nothing holds it any more, and it never runs again.\<close>

lemma idle_name_loses_task:
  "\<exists>k0 k. sched_init rr_ops (rr_new (\<lambda>_. 5)) 0 1 (2::nat) = Some k0 \<and> kreach rr_ops {''idle''} k0 k \<and>
    k_state k 3 = Ready \<and> 3 \<noteq> k_idle k \<and> 3 \<notin> rr_ready (k_sched k)"
proof -
  let ?init = "sched_init rr_ops (rr_new (\<lambda>_. 5)) 0 1 (2::nat)"
  let ?spawn = "\<lambda>k. run_call rr_ops (Spawn 3 ''idle'') k" and ?yield = "\<lambda>k. run_call rr_ops Yield_now k"
  have "map_option (\<lambda>k. (k_halted k, 3 \<in> k_tasks k)) ?init = Some (False, False)"
    "map_option (\<lambda>k. (k_halted k, k_cont k (k_current k))) (Option.bind ?init ?spawn) = Some (False, C_run)"
    "map_option (\<lambda>k. (k_halted k, k_cont k (k_current k))) (Option.bind (Option.bind ?init ?spawn) ?yield) = Some (False, C_run)"
    "map_option (\<lambda>k. (k_halted k, k_cont k (k_current k)))
      (Option.bind (Option.bind (Option.bind ?init ?spawn) ?yield) ?yield) = Some (False, C_run)"
    "map_option (\<lambda>k. (k_state k 3, k_idle k, fst (k_sched k)))
      (Option.bind (Option.bind (Option.bind (Option.bind ?init ?spawn) ?yield) ?yield) ?yield) = Some (Ready, 0, [2])"
    by code_simp+
  then obtain k0 k1 k2 k3 k4 where i: "?init = Some k0" and k: "?spawn k0 = Some k1" "?yield k1 = Some k2" "?yield k2 = Some k3"
      "?yield k3 = Some k4"
    and on: "\<not> k_halted k0" "\<not> k_halted k1" "\<not> k_halted k2" "\<not> k_halted k3"
    and at: "3 \<notin> k_tasks k0" "k_cont k1 (k_current k1) = C_run" "k_cont k2 (k_current k2) = C_run" "k_cont k3 (k_current k3) = C_run"
    and lost: "k_state k4 3 = Ready" "k_idle k4 = 0" "fst (k_sched k4) = [2]"
    by (auto simp del: run_call.simps simp: bind_eq_Some_conv)
  note go = kreach.step [OF _ _ kstep.call]
  have "kreach rr_ops {''idle''} k0 k1" by (rule go [OF kreach.start on(1) _ k(1)]) (simp add: at)
  then have "kreach rr_ops {''idle''} k0 k2" by (rule go [OF _ on(2) _ k(2)]) (simp add: at)
  then have "kreach rr_ops {''idle''} k0 k3" by (rule go [OF _ on(3) _ k(3)]) (simp add: at)
  then have "kreach rr_ops {''idle''} k0 k4" by (rule go [OF _ on(4) _ k(4)]) (simp add: at)
  then show ?thesis using i lost by (auto simp: rr_ready_def)
qed

end
