(* ===== verification/Axerrno.thy ===== *)
theory Axerrno
  imports Prelude
begin

text \<open>
  The error codes of \<open>src/crates/axerrno\<close> and the capabilities of \<open>src/crates/capability\<close>.
  \<open>LinuxError\<close> is generated from the C headers when the crate is built; the conversion to it
  gives the name of the variant.
\<close>

datatype AxError = AddrInUse | AlreadyExists | BadAddress | BadState | ConnectionRefused | ConnectionReset
  | DirectoryNotEmpty | InvalidData | InvalidInput | Io | IsADirectory | NoMemory | NotADirectory
  | NotConnected | NotFound | PermissionDenied | ResourceBusy | StorageFull | UnexpectedEof | Unsupported
  | WouldBlock | WriteZero

fun ax_as_str :: "AxError \<Rightarrow> string" where
  "ax_as_str AddrInUse = ''Address in use''"
| "ax_as_str BadAddress = ''Bad address''"
| "ax_as_str BadState = ''Bad internal state''"
| "ax_as_str AlreadyExists = ''Entity already exists''"
| "ax_as_str ConnectionRefused = ''Connection refused''"
| "ax_as_str ConnectionReset = ''Connection reset''"
| "ax_as_str DirectoryNotEmpty = ''Directory not empty''"
| "ax_as_str InvalidData = ''Invalid data''"
| "ax_as_str InvalidInput = ''Invalid input parameter''"
| "ax_as_str Io = ''I/O error''"
| "ax_as_str IsADirectory = ''Is a directory''"
| "ax_as_str NoMemory = ''Out of memory''"
| "ax_as_str NotADirectory = ''Not a directory''"
| "ax_as_str NotConnected = ''Not connected''"
| "ax_as_str NotFound = ''Entity not found''"
| "ax_as_str PermissionDenied = ''Permission denied''"
| "ax_as_str ResourceBusy = ''Resource busy''"
| "ax_as_str StorageFull = ''No storage space''"
| "ax_as_str UnexpectedEof = ''Unexpected end of file''"
| "ax_as_str Unsupported = ''Operation not supported''"
| "ax_as_str WouldBlock = ''Operation would block''"
| "ax_as_str WriteZero = ''Write zero''"

text \<open>The variants in the order of their discriminants, which start at one.\<close>

definition ax_variants :: "AxError list" where
  "ax_variants = [AddrInUse, AlreadyExists, BadAddress, BadState, ConnectionRefused, ConnectionReset,
    DirectoryNotEmpty, InvalidData, InvalidInput, Io, IsADirectory, NoMemory, NotADirectory,
    NotConnected, NotFound, PermissionDenied, ResourceBusy, StorageFull, UnexpectedEof, Unsupported,
    WouldBlock, WriteZero]"

fun ax_code :: "AxError \<Rightarrow> int" where
  "ax_code AddrInUse = 1"
| "ax_code AlreadyExists = 2"
| "ax_code BadAddress = 3"
| "ax_code BadState = 4"
| "ax_code ConnectionRefused = 5"
| "ax_code ConnectionReset = 6"
| "ax_code DirectoryNotEmpty = 7"
| "ax_code InvalidData = 8"
| "ax_code InvalidInput = 9"
| "ax_code Io = 10"
| "ax_code IsADirectory = 11"
| "ax_code NoMemory = 12"
| "ax_code NotADirectory = 13"
| "ax_code NotConnected = 14"
| "ax_code NotFound = 15"
| "ax_code PermissionDenied = 16"
| "ax_code ResourceBusy = 17"
| "ax_code StorageFull = 18"
| "ax_code UnexpectedEof = 19"
| "ax_code Unsupported = 20"
| "ax_code WouldBlock = 21"
| "ax_code WriteZero = 22"

definition ax_try_from :: "int \<Rightarrow> (AxError, int) outcome" where
  "ax_try_from v = (if v > 0 \<and> v \<le> int (length ax_variants) then Ok (ax_variants ! nat (v - 1)) else Err v)"

fun ax_to_linux :: "AxError \<Rightarrow> string" where
  "ax_to_linux AddrInUse = ''EADDRINUSE''"
| "ax_to_linux AlreadyExists = ''EEXIST''"
| "ax_to_linux BadAddress = ''EFAULT''"
| "ax_to_linux BadState = ''EFAULT''"
| "ax_to_linux ConnectionRefused = ''ECONNREFUSED''"
| "ax_to_linux ConnectionReset = ''ECONNRESET''"
| "ax_to_linux DirectoryNotEmpty = ''ENOTEMPTY''"
| "ax_to_linux InvalidInput = ''EINVAL''"
| "ax_to_linux InvalidData = ''EINVAL''"
| "ax_to_linux Io = ''EIO''"
| "ax_to_linux IsADirectory = ''EISDIR''"
| "ax_to_linux NoMemory = ''ENOMEM''"
| "ax_to_linux NotADirectory = ''ENOTDIR''"
| "ax_to_linux NotConnected = ''ENOTCONN''"
| "ax_to_linux NotFound = ''ENOENT''"
| "ax_to_linux PermissionDenied = ''EACCES''"
| "ax_to_linux ResourceBusy = ''EBUSY''"
| "ax_to_linux StorageFull = ''ENOSPC''"
| "ax_to_linux Unsupported = ''ENOSYS''"
| "ax_to_linux UnexpectedEof = ''EIO''"
| "ax_to_linux WriteZero = ''EIO''"
| "ax_to_linux WouldBlock = ''EAGAIN''"

text \<open>The numeric codes of the errors are exactly 1 to 22, and converting a number gives back
  the error with that code, or the number itself when no error has it.\<close>

theorem ax_code_roundtrip:
  "ax_try_from v = Ok e \<longleftrightarrow> ax_code e = v"
proof
  assume "ax_try_from v = Ok e"
  then have v: "0 < v" "v \<le> 22" and e: "e = ax_variants ! nat (v - 1)"
    by (auto simp: ax_try_from_def ax_variants_def split: if_splits)
  have "\<forall>i<22. ax_code (ax_variants ! i) = int (Suc i)"
    by code_simp
  then have "ax_code (ax_variants ! nat (v - 1)) = int (Suc (nat (v - 1)))" using v by simp
  then show "ax_code e = v" using v e by simp
next
  assume "ax_code e = v"
  then show "ax_try_from v = Ok e"
    by (cases e) (auto simp: ax_try_from_def ax_variants_def)
qed

section \<open>Capabilities\<close>

type_synonym Cap = "32 word"

definition CAP_READ :: Cap where "CAP_READ = push_bit 0 1"
definition CAP_WRITE :: Cap where "CAP_WRITE = push_bit 1 1"
definition CAP_EXECUTE :: Cap where "CAP_EXECUTE = push_bit 2 1"

text \<open>\<open>contains\<close> of the flag types.\<close>

definition flags_contain :: "'a::len word \<Rightarrow> 'a word \<Rightarrow> bool" where
  "flags_contain a b \<longleftrightarrow> a AND b = b"

record 'a WithCap =
  wc_inner :: 'a
  wc_cap :: Cap

definition withcap_new :: "'a \<Rightarrow> Cap \<Rightarrow> 'a WithCap" where
  "withcap_new x c = \<lparr> wc_inner = x, wc_cap = c \<rparr>"

definition can_access :: "Cap \<Rightarrow> 'a WithCap \<Rightarrow> bool" where
  "can_access c w = flags_contain (wc_cap w) c"

text \<open>\<open>CapError\<close> becomes \<open>PermissionDenied\<close> wherever it is propagated.\<close>

definition cap_access :: "Cap \<Rightarrow> 'a WithCap \<Rightarrow> ('a, AxError) outcome" where
  "cap_access c w = (if can_access c w then Ok (wc_inner w) else Err PermissionDenied)"

definition access_or_err :: "Cap \<Rightarrow> 'e \<Rightarrow> 'a WithCap \<Rightarrow> ('a, 'e) outcome" where
  "access_or_err c err w = (if can_access c w then Ok (wc_inner w) else Err err)"

end
