(* ===== verification/Vfs.thy ===== *)
theory Vfs
  imports Axerrno
begin

text \<open>
  The interface of file systems, \<open>src/crates/axfs_vfs\<close>: attributes, permissions and directory
  entries (\<open>structs.rs\<close>), and canonical paths (\<open>path.rs\<close>). A string is the list of its UTF-8
  bytes. What the code does with a path it does at the ASCII characters \<open>/\<close> and \<open>.\<close>, where
  bytes and characters agree; the one place where it depends on the boundaries of characters is
  written out.
\<close>

type_synonym bytes = "u8 list"

section \<open>Attributes\<close>

datatype VfsNodeType = Fifo | CharDevice | Dir | BlockDevice | File | SymLink | Socket

type_synonym VfsNodePerm = "16 word"

definition OWNER_READ :: VfsNodePerm where "OWNER_READ = 0x100"
definition OWNER_WRITE :: VfsNodePerm where "OWNER_WRITE = 0x80"
definition OWNER_EXEC :: VfsNodePerm where "OWNER_EXEC = 0x40"
definition GROUP_READ :: VfsNodePerm where "GROUP_READ = 0x20"
definition GROUP_WRITE :: VfsNodePerm where "GROUP_WRITE = 0x10"
definition GROUP_EXEC :: VfsNodePerm where "GROUP_EXEC = 0x8"
definition OTHER_READ :: VfsNodePerm where "OTHER_READ = 0x4"
definition OTHER_WRITE :: VfsNodePerm where "OTHER_WRITE = 0x2"
definition OTHER_EXEC :: VfsNodePerm where "OTHER_EXEC = 0x1"

text \<open>\<open>from_bits_truncate\<close> keeps the bits of the known flags.\<close>

definition perm_truncate :: "16 word \<Rightarrow> VfsNodePerm" where
  "perm_truncate b = b AND 0x1FF"

definition default_file :: VfsNodePerm where
  "default_file = perm_truncate 0x1B6"

definition default_dir :: VfsNodePerm where
  "default_dir = perm_truncate 0x1ED"

definition perm_mode :: "VfsNodePerm \<Rightarrow> 32 word" where
  "perm_mode p = ucast p"

definition rwx_buf :: "VfsNodePerm \<Rightarrow> u8 list" where
  "rwx_buf p =
    (let set_at = (\<lambda>flag i c buf. if flags_contain p flag then buf[i := c] else buf);
         b0 = replicate 9 0x2D;
         b1 = set_at OWNER_READ 0 0x72 b0;
         b2 = set_at OWNER_WRITE 1 0x77 b1;
         b3 = set_at OWNER_EXEC 2 0x78 b2;
         b4 = set_at GROUP_READ 3 0x72 b3;
         b5 = set_at GROUP_WRITE 4 0x77 b4;
         b6 = set_at GROUP_EXEC 5 0x78 b5;
         b7 = set_at OTHER_READ 6 0x72 b6;
         b8 = set_at OTHER_WRITE 7 0x77 b7
     in set_at OTHER_EXEC 8 0x78 b8)"

definition owner_readable :: "VfsNodePerm \<Rightarrow> bool" where
  "owner_readable p = flags_contain p OWNER_READ"

definition owner_writable :: "VfsNodePerm \<Rightarrow> bool" where
  "owner_writable p = flags_contain p OWNER_WRITE"

definition owner_executable :: "VfsNodePerm \<Rightarrow> bool" where
  "owner_executable p = flags_contain p OWNER_EXEC"

fun node_type_as_char :: "VfsNodeType \<Rightarrow> char" where
  "node_type_as_char Fifo = CHR ''p''"
| "node_type_as_char CharDevice = CHR ''c''"
| "node_type_as_char Dir = CHR ''d''"
| "node_type_as_char BlockDevice = CHR ''b''"
| "node_type_as_char File = CHR ''-''"
| "node_type_as_char SymLink = CHR ''l''"
| "node_type_as_char Socket = CHR ''s''"

record VfsNodeAttr =
  attr_mode :: VfsNodePerm
  attr_ty :: VfsNodeType
  attr_size :: u64
  attr_blocks :: u64

definition attr_new :: "VfsNodePerm \<Rightarrow> VfsNodeType \<Rightarrow> u64 \<Rightarrow> u64 \<Rightarrow> VfsNodeAttr" where
  "attr_new m t s b = \<lparr> attr_mode = m, attr_ty = t, attr_size = s, attr_blocks = b \<rparr>"

definition attr_new_file :: "u64 \<Rightarrow> u64 \<Rightarrow> VfsNodeAttr" where
  "attr_new_file s b = \<lparr> attr_mode = default_file, attr_ty = File, attr_size = s, attr_blocks = b \<rparr>"

definition attr_new_dir :: "u64 \<Rightarrow> u64 \<Rightarrow> VfsNodeAttr" where
  "attr_new_dir s b = \<lparr> attr_mode = default_dir, attr_ty = Dir, attr_size = s, attr_blocks = b \<rparr>"

definition attr_is_file :: "VfsNodeAttr \<Rightarrow> bool" where
  "attr_is_file a = (attr_ty a = File)"

definition attr_is_dir :: "VfsNodeAttr \<Rightarrow> bool" where
  "attr_is_dir a = (attr_ty a = Dir)"

record VfsDirEntry =
  d_type :: VfsNodeType
  d_name :: bytes

definition dirent_default :: VfsDirEntry where
  "dirent_default = \<lparr> d_type = File, d_name = replicate 63 0 \<rparr>"

text \<open>A name that is too long only causes a warning; the slice of the next statement then panics
  (\<open>None\<close>).\<close>

definition dirent_new :: "bytes \<Rightarrow> VfsNodeType \<Rightarrow> VfsDirEntry option" where
  "dirent_new name ty = (if length name \<le> 63
    then Some \<lparr> d_type = ty, d_name = name @ replicate (63 - length name) 0 \<rparr> else None)"

definition name_as_bytes :: "VfsDirEntry \<Rightarrow> bytes" where
  "name_as_bytes e = takeWhile (\<lambda>c. c \<noteq> 0) (d_name e)"

lemma dirent_name:
  assumes "length name \<le> 63" "0 \<notin> set name"
  shows "\<exists>e. dirent_new name ty = Some e \<and> name_as_bytes e = name \<and> d_type e = ty"
proof -
  have "takeWhile (\<lambda>c. c \<noteq> 0) (name @ replicate n 0) = name" for n
    using assms(2) by (auto simp: takeWhile_append takeWhile_replicate)
  then show ?thesis using assms(1) by (simp add: dirent_new_def name_as_bytes_def)
qed

section \<open>Canonical paths\<close>

definition SLASH :: u8 where "SLASH = 0x2F"
definition DOT :: u8 where "DOT = 0x2E"

text \<open>\<open>str::split('/')\<close>.\<close>

fun split_slash :: "bytes \<Rightarrow> bytes list" where
  "split_slash [] = [[]]"
| "split_slash (c # cs) = (if c = SLASH then [] # split_slash cs
    else (case split_slash cs of [] \<Rightarrow> [[c]] | p # ps \<Rightarrow> (c # p) # ps))"

text \<open>The loop that drops the last component.\<close>

function canon_pop :: "bytes \<Rightarrow> bytes" where
  "canon_pop buf = (if buf = [] then []
    else if buf = [SLASH] then buf
    else if last buf = SLASH then butlast buf
    else canon_pop (butlast buf))"
  by pat_completeness auto
termination
  by (relation "measure length") auto

declare canon_pop.simps [simp del]

text \<open>Slicing \<open>&buf[buf.len() - 1..]\<close> panics (\<open>None\<close>) when the last byte is a continuation
  byte of a longer character.\<close>

definition is_continuation :: "u8 \<Rightarrow> bool" where
  "is_continuation c \<longleftrightarrow> c AND 0xC0 = 0x80"

definition canon_part :: "bool \<Rightarrow> bytes \<Rightarrow> bytes \<Rightarrow> bytes option" where
  "canon_part is_absolute buf part =
    (if part = [] \<or> part = [DOT] then Some buf
     else if part = [DOT, DOT] then Some (canon_pop buf)
     else if buf = [] then Some ((if is_absolute then [SLASH] else []) @ part)
     else if is_continuation (last buf) then None
     else if last buf \<noteq> SLASH then Some (buf @ SLASH # part)
     else Some (buf @ part))"

fun canon_parts :: "bool \<Rightarrow> bytes \<Rightarrow> bytes list \<Rightarrow> bytes option" where
  "canon_parts is_absolute buf [] = Some buf"
| "canon_parts is_absolute buf (p # ps) = (case canon_part is_absolute buf p of
     None \<Rightarrow> None
   | Some buf' \<Rightarrow> canon_parts is_absolute buf' ps)"

definition starts_with_slash :: "bytes \<Rightarrow> bool" where
  "starts_with_slash path = (case path of c # _ \<Rightarrow> c = SLASH | [] \<Rightarrow> False)"

definition canonicalize :: "bytes \<Rightarrow> bytes option" where
  "canonicalize path =
    (let is_absolute = starts_with_slash path in
     map_option (\<lambda>buf. if is_absolute \<and> buf = [] then [SLASH] else buf)
       (canon_parts is_absolute [] (split_slash path)))"

subsection \<open>The reference: a stack of components\<close>

definition norm_part :: "bytes list \<Rightarrow> bytes \<Rightarrow> bytes list" where
  "norm_part st p = (if p = [] \<or> p = [DOT] then st else if p = [DOT, DOT] then butlast st else st @ [p])"

fun join_slash :: "bytes list \<Rightarrow> bytes" where
  "join_slash [] = []"
| "join_slash [p] = p"
| "join_slash (p # ps) = p @ SLASH # join_slash ps"

definition render_path :: "bool \<Rightarrow> bytes list \<Rightarrow> bytes" where
  "render_path is_absolute st = (if is_absolute then [SLASH] else []) @ join_slash st"

definition proper_name :: "bytes \<Rightarrow> bool" where
  "proper_name p \<longleftrightarrow> p \<noteq> [] \<and> p \<noteq> [DOT] \<and> p \<noteq> [DOT, DOT] \<and> SLASH \<notin> set p"

lemma SLASH_neq_DOT [simp]: "SLASH \<noteq> DOT" "DOT \<noteq> SLASH"
  by (simp_all add: SLASH_def DOT_def)

lemma SLASH_not_continuation [simp]: "\<not> is_continuation SLASH"
  by (simp add: is_continuation_def SLASH_def)

lemma join_slash_Cons: "ps \<noteq> [] \<Longrightarrow> join_slash (p # ps) = p @ SLASH # join_slash ps"
  by (cases ps) simp_all

lemma join_slash_snoc: "st \<noteq> [] \<Longrightarrow> join_slash (st @ [p]) = join_slash st @ SLASH # p"
proof (induction st)
  case (Cons q st)
  then show ?case by (cases st) (simp_all add: join_slash_Cons)
qed simp

lemma split_slash_nonempty [simp]: "split_slash p \<noteq> []"
  by (induction p) (auto split: list.splits)

lemma split_slash_no_slash: "q \<in> set (split_slash p) \<Longrightarrow> SLASH \<notin> set q"
proof (induction p arbitrary: q)
  case (Cons c p)
  then show ?case by (cases "split_slash p") (auto split: if_splits)
qed simp

lemma canon_pop_only: "SLASH \<notin> set p \<Longrightarrow> canon_pop p = []"
proof (induction p rule: rev_induct)
  case (snoc c p)
  then show ?case by (subst canon_pop.simps) auto
qed (simp add: canon_pop.simps)

lemma canon_pop_last:
  "SLASH \<notin> set p \<Longrightarrow> canon_pop (buf @ SLASH # p) = (if buf = [] then [SLASH] else buf)"
proof (induction p rule: rev_induct)
  case Nil
  show ?case by (subst canon_pop.simps) simp
next
  case (snoc c p)
  then have "canon_pop (buf @ SLASH # p @ [c]) = canon_pop (buf @ SLASH # p)"
    by (subst canon_pop.simps) (auto simp: butlast_append)
  then show ?case using snoc by simp
qed

text \<open>The buffer of the loop is the rendering of the stack, except that an absolute path may not
  have got its leading slash yet.\<close>

definition canon_shape :: "bool \<Rightarrow> bytes list \<Rightarrow> bytes \<Rightarrow> bool" where
  "canon_shape is_absolute st buf \<longleftrightarrow>
    (\<forall>p\<in>set st. proper_name p) \<and> (buf = render_path is_absolute st \<or> is_absolute \<and> st = [] \<and> buf = [])"

lemma join_slash_last: "st \<noteq> [] \<Longrightarrow> last st \<noteq> [] \<Longrightarrow> join_slash st \<noteq> [] \<and> last (join_slash st) = last (last st)"
  by (cases st rule: rev_cases; cases "butlast st = []") (auto simp: join_slash_snoc)

lemma canon_shape_last:
  assumes "canon_shape a st buf" "st \<noteq> []"
  shows "buf = render_path a st" "buf \<noteq> []" "last buf = last (last st)" "last buf \<noteq> SLASH"
proof -
  have p: "proper_name (last st)" using assms by (auto simp: canon_shape_def)
  show buf: "buf = render_path a st" using assms by (auto simp: canon_shape_def)
  have j: "join_slash st \<noteq> []" "last (join_slash st) = last (last st)"
    using join_slash_last [OF assms(2)] p by (auto simp: proper_name_def)
  then show "buf \<noteq> []" "last buf = last (last st)" by (auto simp: buf render_path_def)
  moreover have "last (last st) \<noteq> SLASH" using p last_in_set unfolding proper_name_def by metis
  ultimately show "last buf \<noteq> SLASH" by simp
qed

lemma canon_pop_shape:
  assumes "canon_shape a st buf"
  shows "canon_shape a (butlast st) (canon_pop buf)"
proof (cases st rule: rev_cases)
  case Nil
  then show ?thesis
    using assms by (auto simp: canon_shape_def render_path_def canon_pop.simps [of "[]"] canon_pop.simps [of "[SLASH]"])
next
  case (snoc st' p)
  have buf: "buf = render_path a st" using canon_shape_last(1) [OF assms] snoc by simp
  have p: "SLASH \<notin> set p" and st': "\<forall>p\<in>set st'. proper_name p"
    using assms snoc by (auto simp: canon_shape_def proper_name_def)
  have "canon_pop buf = render_path a st' \<or> a \<and> st' = [] \<and> canon_pop buf = []"
  proof (cases "st' = []")
    case True
    then show ?thesis
      using buf snoc canon_pop_only [OF p] canon_pop_last [OF p, of "[]"] by (auto simp: render_path_def)
  next
    case False
    moreover have "join_slash st' \<noteq> []"
      using join_slash_last [OF False] st' False by (auto simp: proper_name_def)
    ultimately show ?thesis
      using buf snoc canon_pop_last [OF p, of "render_path a st'"] by (auto simp: render_path_def join_slash_snoc)
  qed
  then show ?thesis using st' snoc by (auto simp: canon_shape_def)
qed

lemma canon_part_shape:
  assumes "canon_shape a st buf" "SLASH \<notin> set p" "canon_part a buf p = Some buf'"
  shows "canon_shape a (norm_part st p) buf'"
proof (cases "proper_name p")
  case False
  then have "p = [] \<or> p = [DOT] \<or> p = [DOT, DOT]" using assms(2) by (auto simp: proper_name_def)
  then show ?thesis
    using assms(1,3) canon_pop_shape [OF assms(1)] by (auto simp: canon_part_def norm_part_def)
next
  case True
  have new: "\<forall>q\<in>set (st @ [p]). proper_name q"
    using assms True by (auto simp: canon_shape_def proper_name_def)
  have norm: "norm_part st p = st @ [p]" using True by (auto simp: norm_part_def proper_name_def)
  have "buf' = render_path a (st @ [p])"
  proof (cases "st = []")
    case True
    then have "buf = [] \<or> a \<and> buf = [SLASH]" using assms(1) by (auto simp: canon_shape_def render_path_def split: if_splits)
    then show ?thesis
      using \<open>proper_name p\<close> assms(3) True by (auto simp: canon_part_def proper_name_def render_path_def)
  next
    case False
    note l = canon_shape_last [OF assms(1) False]
    show ?thesis
      using l(2,4) True assms(3) unfolding l(1)
      by (auto simp: canon_part_def proper_name_def render_path_def join_slash_snoc [OF False] split: if_splits)
  qed
  then show ?thesis using new norm by (auto simp: canon_shape_def)
qed

lemma canon_part_some:
  assumes "canon_shape a st buf" "\<forall>q\<in>set st. \<not> is_continuation (last q)"
  shows "\<exists>buf'. canon_part a buf p = Some buf'"
proof (cases "st = []")
  case True
  then have "buf = [] \<or> buf = [SLASH]" using assms(1) by (auto simp: canon_shape_def render_path_def split: if_splits)
  then show ?thesis by (auto simp: canon_part_def)
next
  case False
  then have "\<not> is_continuation (last buf)" using canon_shape_last(3) [OF assms(1) False] assms(2) by simp
  then show ?thesis by (auto simp: canon_part_def)
qed

lemma canon_parts_shape:
  "canon_shape a st buf \<Longrightarrow> \<forall>p\<in>set ps. SLASH \<notin> set p \<Longrightarrow> canon_parts a buf ps = Some buf' \<Longrightarrow>
    canon_shape a (foldl norm_part st ps) buf'"
proof (induction ps arbitrary: st buf)
  case (Cons p ps)
  then show ?case using canon_part_shape [of a st buf p] by (auto split: option.splits)
qed simp

lemma norm_part_last:
  assumes "\<forall>q\<in>set st. \<not> is_continuation (last q)" "p = [] \<or> \<not> is_continuation (last p)"
  shows "\<forall>q\<in>set (norm_part st p). \<not> is_continuation (last q)"
  using assms by (auto simp: norm_part_def dest: in_set_butlastD)

lemma canon_parts_some:
  "canon_shape a st buf \<Longrightarrow> \<forall>q\<in>set st. \<not> is_continuation (last q) \<Longrightarrow>
    \<forall>p\<in>set ps. SLASH \<notin> set p \<and> (p = [] \<or> \<not> is_continuation (last p)) \<Longrightarrow> \<exists>buf'. canon_parts a buf ps = Some buf'"
proof (induction ps arbitrary: st buf)
  case (Cons p ps)
  obtain buf1 where b: "canon_part a buf p = Some buf1" using canon_part_some [OF Cons.prems(1,2)] by blast
  have "canon_shape a (norm_part st p) buf1" using canon_part_shape [OF Cons.prems(1) _ b] Cons.prems(3) by simp
  moreover have "\<forall>q\<in>set (norm_part st p). \<not> is_continuation (last q)"
    using norm_part_last [OF Cons.prems(2), of p] Cons.prems(3) by simp
  ultimately show ?case using Cons.IH Cons.prems(3) b by simp
qed simp

text \<open>The components of a rendered stack.\<close>

lemma split_slash_append: "SLASH \<notin> set p \<Longrightarrow> split_slash (p @ SLASH # q) = p # split_slash q"
  by (induction p) auto

lemma split_slash_single: "SLASH \<notin> set p \<Longrightarrow> split_slash p = [p]"
  by (induction p) auto

lemma split_join: "st \<noteq> [] \<Longrightarrow> \<forall>p\<in>set st. SLASH \<notin> set p \<Longrightarrow> split_slash (join_slash st) = st"
proof (induction st)
  case (Cons p st)
  then show ?case by (cases "st = []") (simp_all add: join_slash_Cons split_slash_append split_slash_single)
qed simp

lemma foldl_norm_proper: "\<forall>p\<in>set ps. proper_name p \<Longrightarrow> foldl norm_part st ps = st @ ps"
  by (induction ps arbitrary: st) (auto simp: norm_part_def proper_name_def)

lemma foldl_norm_render:
  assumes "\<forall>p\<in>set st. proper_name p"
  shows "foldl norm_part [] (split_slash (render_path a st)) = st"
    "starts_with_slash (render_path a st) = a"
    "set (split_slash (render_path a st)) \<subseteq> insert [] (set st)"
proof -
  have j: "split_slash (join_slash st) = (if st = [] then [[]] else st)"
    using split_join [of st] assms by (auto simp: proper_name_def)
  then have s: "split_slash (render_path a st) = (if a then [[]] else []) @ (if st = [] then [[]] else st)"
    by (simp add: render_path_def)
  show "foldl norm_part [] (split_slash (render_path a st)) = st"
    using foldl_norm_proper [OF assms, of "[]"] by (auto simp: s norm_part_def)
  show "set (split_slash (render_path a st)) \<subseteq> insert [] (set st)" by (auto simp: s)
  show "starts_with_slash (render_path a st) = a"
  proof (cases "st = []")
    case False
    then obtain c p' ps where "st = (c # p') # ps" "c \<noteq> SLASH"
      using assms by (cases st; cases "hd st") (auto simp: proper_name_def)
    then show ?thesis by (cases ps) (auto simp: starts_with_slash_def render_path_def)
  qed (simp add: starts_with_slash_def render_path_def)
qed

section \<open>Properties\<close>

lemma canonicalize_shape:
  assumes "canonicalize path = Some c"
  shows "c = render_path (starts_with_slash path) (foldl norm_part [] (split_slash path))"
    "\<forall>p\<in>set (foldl norm_part [] (split_slash path)). proper_name p"
proof -
  let ?a = "starts_with_slash path"
  obtain buf where b: "canon_parts ?a [] (split_slash path) = Some buf" and c: "c = (if ?a \<and> buf = [] then [SLASH] else buf)"
    using assms by (auto simp: canonicalize_def Let_def)
  have "canon_shape ?a [] []" by (simp add: canon_shape_def render_path_def)
  then have "canon_shape ?a (foldl norm_part [] (split_slash path)) buf"
    using canon_parts_shape [OF _ _ b] split_slash_no_slash by blast
  then show "c = render_path ?a (foldl norm_part [] (split_slash path))"
    "\<forall>p\<in>set (foldl norm_part [] (split_slash path)). proper_name p"
    using c by (auto simp: canon_shape_def render_path_def)
qed

lemma foldl_norm_last:
  "\<forall>q\<in>set st. \<not> is_continuation (last q) \<Longrightarrow> \<forall>p\<in>set ps. p = [] \<or> \<not> is_continuation (last p) \<Longrightarrow>
    \<forall>q\<in>set (foldl norm_part st ps). \<not> is_continuation (last q)"
proof (induction ps arbitrary: st)
  case (Cons p ps)
  have "\<forall>q\<in>set (norm_part st p). \<not> is_continuation (last q)"
    using norm_part_last [OF Cons.prems(1), of p] Cons.prems(2) by simp
  from Cons.IH [OF this] show ?case using Cons.prems(2) by simp
qed simp

lemma canonicalize_rel:
  assumes "\<forall>p\<in>set (split_slash path). p = [] \<or> \<not> is_continuation (last p)"
  shows "canonicalize path = Some (render_path (starts_with_slash path) (foldl norm_part [] (split_slash path)))"
    "\<forall>p\<in>set (foldl norm_part [] (split_slash path)). proper_name p \<and> \<not> is_continuation (last p)"
proof -
  have "\<forall>p\<in>set (split_slash path). SLASH \<notin> set p \<and> (p = [] \<or> \<not> is_continuation (last p))"
    using assms split_slash_no_slash by blast
  then have "\<exists>buf. canon_parts (starts_with_slash path) [] (split_slash path) = Some buf"
    by (intro canon_parts_some [of _ "[]"]) (simp_all add: canon_shape_def render_path_def)
  then obtain c where c: "canonicalize path = Some c" by (auto simp: canonicalize_def Let_def)
  show "canonicalize path = Some (render_path (starts_with_slash path) (foldl norm_part [] (split_slash path)))"
    "\<forall>p\<in>set (foldl norm_part [] (split_slash path)). proper_name p \<and> \<not> is_continuation (last p)"
    using c canonicalize_shape [OF c] foldl_norm_last [of "[]" "split_slash path"] assms by simp_all
qed

text \<open>C25: Canonicalising a path, when no component ends in a multi-byte character, never panics and
  equals the reference that keeps a stack of components: empty components and \<open>.\<close> are dropped,
  \<open>..\<close> drops the last one (and stays at the root), and the rest are joined by single slashes,
  with a leading slash exactly for absolute paths. The result is canonical: canonicalising it
  again changes nothing.\<close>

theorem canonicalize_reference:
  assumes "\<forall>p\<in>set (split_slash path). p = [] \<or> \<not> is_continuation (last p)"
  shows "\<exists>c. canonicalize path = Some c \<and>
    c = render_path (starts_with_slash path) (foldl norm_part [] (split_slash path)) \<and> canonicalize c = Some c"
proof -
  let ?st = "foldl norm_part [] (split_slash path)" and ?a = "starts_with_slash path"
  note r = canonicalize_rel [OF assms]
  note f = foldl_norm_render [of ?st ?a]
  have "\<forall>p\<in>set (split_slash (render_path ?a ?st)). p = [] \<or> \<not> is_continuation (last p)"
    using f(3) r(2) by blast
  from canonicalize_rel(1) [OF this] show ?thesis using r f by simp
qed

theorem canonicalize_reference_witness:
  "canonicalize [SLASH, 0x61, SLASH, DOT, DOT, SLASH, SLASH, 0x62, SLASH] = Some [SLASH, 0x62]"
proof -
  let ?p = "[SLASH, 0x61, SLASH, DOT, DOT, SLASH, SLASH, 0x62, SLASH]"
  have "\<forall>p\<in>set (split_slash ?p). p = [] \<or> \<not> is_continuation (last p)"
    "render_path (starts_with_slash ?p) (foldl norm_part [] (split_slash ?p)) = [SLASH, 0x62]"
    by code_simp+
  then show ?thesis using canonicalize_reference [of ?p] by simp
qed

text \<open>A component that ends in a multi-byte character makes the next one panic, as in
  \<open>/\<close>U+00E9\<open>/a\<close>.\<close>

lemma canonicalize_panics: "canonicalize [SLASH, 0xC3, 0xA9, SLASH, 0x61] = None"
  by code_simp

text \<open>A directory entry built from a name of at most 63 bytes without zero bytes gives back the
  name and the type.\<close>

theorem dirent_roundtrip:
  assumes "length name \<le> 63" "0 \<notin> set name"
  shows "\<exists>e. dirent_new name ty = Some e \<and> name_as_bytes e = name \<and> d_type e = ty \<and> length (d_name e) = 63"
  using dirent_name [OF assms, of ty] assms(1) by (auto simp: dirent_new_def)

theorem dirent_roundtrip_witness: "map_option name_as_bytes (dirent_new [0x61, 0x62] Dir) = Some [0x61, 0x62]"
  using dirent_roundtrip [of "[0x61, 0x62]" Dir] by auto

end
