(* ===== verification/Fs_Nodes.thy ===== *)
theory Fs_Nodes
  imports Vfs Btree_Map "HOL-Library.List_Lexorder"
begin

text \<open>
  The nodes of the RAM file system (\<open>src/crates/axfs_ramfs\<close>) and of the device file system
  (\<open>src/crates/axfs_devfs\<close>), and the calls through the trait \<open>VfsNodeOps\<close>
  (\<open>src/crates/axfs_vfs/src/lib.rs\<close>, \<open>macros.rs\<close>), which dispatch on the kind of node. A
  reference to a node is a number, and a store gives the nodes; a node that is removed from its
  directory stays in the store, like one that is still held by an open file. The weak reference to
  the parent of a directory is a plain one. A panic is the outcome \<open>Panic\<close>, and so is a
  reference outside the store.
\<close>

datatype node =
    RamDir (node_parent: "nat option") (node_children: "(bytes, nat) btree_map")
  | RamFile (node_content: bytes)
  | DevDir (node_parent: "nat option") (node_children: "(bytes, nat) btree_map")
  | NullDev
  | ZeroDev

record fs_store =
  fs_nodes :: "nat \<Rightarrow> node option"
  fs_next :: nat

definition fs_empty :: fs_store where
  "fs_empty = \<lparr> fs_nodes = (\<lambda>_. None), fs_next = 0 \<rparr>"

text \<open>Placing a new object in the store.\<close>

definition fs_alloc :: "node \<Rightarrow> fs_store \<Rightarrow> nat \<times> fs_store" where
  "fs_alloc nd st = (fs_next st, st\<lparr> fs_nodes := (fs_nodes st)(fs_next st \<mapsto> nd), fs_next := Suc (fs_next st) \<rparr>)"

definition fs_put :: "nat \<Rightarrow> node \<Rightarrow> fs_store \<Rightarrow> fs_store" where
  "fs_put n nd st = st\<lparr> fs_nodes := (fs_nodes st)(n \<mapsto> nd) \<rparr>"

section \<open>Paths\<close>

definition split_path :: "bytes \<Rightarrow> bytes \<times> bytes option" where
  "split_path path =
    (let trimmed = dropWhile (\<lambda>c. c = SLASH) path in
     if SLASH \<in> set trimmed
     then (takeWhile (\<lambda>c. c \<noteq> SLASH) trimmed, Some (tl (dropWhile (\<lambda>c. c \<noteq> SLASH) trimmed)))
     else (trimmed, None))"

lemma split_path_shorter: "split_path path = (name, Some rest) \<Longrightarrow> length rest < length path"
proof -
  assume s: "split_path path = (name, Some rest)"
  define t where "t = dropWhile (\<lambda>c. c = SLASH) path"
  have r: "rest = tl (dropWhile (\<lambda>c. c \<noteq> SLASH) t)" "SLASH \<in> set t"
    using s by (auto simp: split_path_def t_def Let_def split: if_splits)
  then have "dropWhile (\<lambda>c. c \<noteq> SLASH) t \<noteq> []" by (simp add: dropWhile_eq_Nil_conv)
  then have "length rest < length (dropWhile (\<lambda>c. c \<noteq> SLASH) t)" by (simp add: r(1))
  also have "\<dots> \<le> length path" 
    using length_dropWhile_le [of "\<lambda>c. c \<noteq> SLASH" t] length_dropWhile_le [of "\<lambda>c. c = SLASH" path]
    unfolding t_def [symmetric] by linarith
  finally show ?thesis .
qed

definition is_dot_name :: "bytes \<Rightarrow> bool" where
  "is_dot_name name \<longleftrightarrow> name = [] \<or> name = [DOT]"

definition is_dotdot :: "bytes \<Rightarrow> bool" where
  "is_dotdot name \<longleftrightarrow> name = [DOT, DOT]"

section \<open>Directories\<close>

definition dir_node_new :: "nat option \<Rightarrow> node" where
  "dir_node_new parent = RamDir parent []"

definition dev_dir_new :: "nat option \<Rightarrow> node" where
  "dev_dir_new parent = DevDir parent []"

text \<open>\<open>set_parent\<close> of both kinds of directory.\<close>

fun set_parent :: "nat option \<Rightarrow> node \<Rightarrow> node" where
  "set_parent p (RamDir _ c) = RamDir p c"
| "set_parent p (DevDir _ c) = DevDir p c"
| "set_parent p nd = nd"

definition dir_exist :: "bytes \<Rightarrow> node \<Rightarrow> bool" where
  "dir_exist name nd = (btree_get name (node_children nd) \<noteq> None)"

definition get_entries :: "node \<Rightarrow> bytes list" where
  "get_entries nd = map fst (node_children nd)"

definition create_node :: "fs_store \<Rightarrow> nat \<Rightarrow> nat option \<Rightarrow> (bytes, nat) btree_map \<Rightarrow> bytes \<Rightarrow> VfsNodeType \<Rightarrow>
    (fs_store, AxError) outcome" where
  "create_node st n parent children name ty =
    (if dir_exist name (RamDir parent children) then Err AlreadyExists
     else bind_outcome
       (case ty of File \<Rightarrow> Ok (RamFile []) | Dir \<Rightarrow> Ok (dir_node_new (Some n)) | _ \<Rightarrow> Err Unsupported)
       (\<lambda>nd. case fs_alloc nd st of (m, st1) \<Rightarrow>
          Ok (fs_put n (RamDir parent (btree_insert name m children)) st1)))"

definition remove_node :: "fs_store \<Rightarrow> nat \<Rightarrow> nat option \<Rightarrow> (bytes, nat) btree_map \<Rightarrow> bytes \<Rightarrow>
    (fs_store, AxError) outcome" where
  "remove_node st n parent children name =
    bind_outcome (ok_or (btree_get name children) NotFound)
      (\<lambda>m. case fs_nodes st m of
         Some (RamDir _ cs) \<Rightarrow> if cs \<noteq> [] then Err DirectoryNotEmpty
           else Ok (fs_put n (RamDir parent (btree_remove name children)) st)
       | _ \<Rightarrow> Ok (fs_put n (RamDir parent (btree_remove name children)) st))"

text \<open>Adding nodes to a device directory when the file system is set up.\<close>

definition dev_add :: "fs_store \<Rightarrow> nat \<Rightarrow> bytes \<Rightarrow> nat \<Rightarrow> (fs_store, AxError) outcome" where
  "dev_add st n name m = (case fs_nodes st n of
     Some (DevDir p cs) \<Rightarrow> Ok (fs_put n (DevDir p (btree_insert name m cs)) st)
   | _ \<Rightarrow> Panic)"

definition dev_mkdir :: "fs_store \<Rightarrow> nat \<Rightarrow> bytes \<Rightarrow> (nat \<times> fs_store, AxError) outcome" where
  "dev_mkdir st n name = (case fs_alloc (dev_dir_new (Some n)) st of (m, st1) \<Rightarrow>
    bind_outcome (dev_add st1 n name m) (\<lambda>st2. Ok (m, st2)))"

section \<open>Calls through the trait\<close>

definition vfs_parent :: "fs_store \<Rightarrow> nat \<Rightarrow> nat option" where
  "vfs_parent st n = (case fs_nodes st n of
     Some (RamDir p _) \<Rightarrow> p
   | Some (DevDir p _) \<Rightarrow> p
   | _ \<Rightarrow> None)"

definition dir_step :: "fs_store \<Rightarrow> nat \<Rightarrow> nat option \<Rightarrow> (bytes, nat) btree_map \<Rightarrow> bytes \<Rightarrow> (nat, AxError) outcome" where
  "dir_step st n parent children name =
    (if is_dot_name name then Ok n
     else if is_dotdot name then ok_or parent NotFound
     else ok_or (btree_get name children) NotFound)"

text \<open>The children and parent of a directory of either kind.\<close>

fun dir_view :: "node \<Rightarrow> (nat option \<times> (bytes, nat) btree_map) option" where
  "dir_view (RamDir p cs) = Some (p, cs)"
| "dir_view (DevDir p cs) = Some (p, cs)"
| "dir_view _ = None"

function vfs_lookup :: "fs_store \<Rightarrow> nat \<Rightarrow> bytes \<Rightarrow> (nat, AxError) outcome" where
  "vfs_lookup st n path = (case fs_nodes st n of
     None \<Rightarrow> Panic
   | Some nd \<Rightarrow> (case dir_view nd of
       None \<Rightarrow> Err NotADirectory
     | Some (p, cs) \<Rightarrow> (case split_path path of
         (name, rest) \<Rightarrow> (case dir_step st n p cs name of
            Ok m \<Rightarrow> (case rest of None \<Rightarrow> Ok m | Some r \<Rightarrow> vfs_lookup st m r)
          | Err e \<Rightarrow> Err e
          | Panic \<Rightarrow> Panic))))"
  by pat_completeness auto
termination
  by (relation "measure (\<lambda>(_, _, path). length path)") (auto dest: split_path_shorter [OF sym])

function vfs_create :: "fs_store \<Rightarrow> nat \<Rightarrow> bytes \<Rightarrow> VfsNodeType \<Rightarrow> (fs_store, AxError) outcome" where
  "vfs_create st n path ty = (case fs_nodes st n of
     None \<Rightarrow> Panic
   | Some nd \<Rightarrow> (case dir_view nd of
       None \<Rightarrow> Err NotADirectory
     | Some (p, cs) \<Rightarrow> (case split_path path of
         (name, Some r) \<Rightarrow> (case dir_step st n p cs name of
            Ok m \<Rightarrow> vfs_create st m r ty
          | Err e \<Rightarrow> Err e
          | Panic \<Rightarrow> Panic)
       | (name, None) \<Rightarrow>
           if is_dot_name name \<or> is_dotdot name then Ok st
           else (case nd of
              RamDir _ _ \<Rightarrow> create_node st n p cs name ty
            | _ \<Rightarrow> Err PermissionDenied))))"
  by pat_completeness auto
termination
  by (relation "measure (\<lambda>(_, _, path, _). length path)") (auto dest: split_path_shorter [OF sym])

function vfs_remove :: "fs_store \<Rightarrow> nat \<Rightarrow> bytes \<Rightarrow> (fs_store, AxError) outcome" where
  "vfs_remove st n path = (case fs_nodes st n of
     None \<Rightarrow> Panic
   | Some nd \<Rightarrow> (case dir_view nd of
       None \<Rightarrow> Err NotADirectory
     | Some (p, cs) \<Rightarrow> (case split_path path of
         (name, Some r) \<Rightarrow> (case dir_step st n p cs name of
            Ok m \<Rightarrow> vfs_remove st m r
          | Err e \<Rightarrow> Err e
          | Panic \<Rightarrow> Panic)
       | (name, None) \<Rightarrow> (case nd of
            RamDir _ _ \<Rightarrow> if is_dot_name name \<or> is_dotdot name then Err InvalidInput else remove_node st n p cs name
          | _ \<Rightarrow> Err PermissionDenied))))"
  by pat_completeness auto
termination
  by (relation "measure (\<lambda>(_, _, path). length path)") (auto dest: split_path_shorter [OF sym])

declare vfs_lookup.simps [simp del] vfs_create.simps [simp del] vfs_remove.simps [simp del]

text \<open>The two devices: reading the null device gives nothing, reading the zero device fills the buffer
  with zeros, and writing to either drops the data.\<close>

definition null_get_attr :: VfsNodeAttr where
  "null_get_attr = attr_new default_file CharDevice 0 0"

definition null_read_at :: "u64 \<Rightarrow> nat \<Rightarrow> (bytes, AxError) outcome" where
  "null_read_at off blen = Ok []"

definition null_write_at :: "u64 \<Rightarrow> bytes \<Rightarrow> (nat, AxError) outcome" where
  "null_write_at off buf = Ok (length buf)"

definition null_truncate :: "u64 \<Rightarrow> (unit, AxError) outcome" where
  "null_truncate sz = Ok ()"

definition zero_get_attr :: VfsNodeAttr where
  "zero_get_attr = attr_new default_file CharDevice 0 0"

definition zero_read_at :: "u64 \<Rightarrow> nat \<Rightarrow> (bytes, AxError) outcome" where
  "zero_read_at off blen = Ok (replicate blen 0)"

definition zero_write_at :: "u64 \<Rightarrow> bytes \<Rightarrow> (nat, AxError) outcome" where
  "zero_write_at off buf = Ok (length buf)"

definition zero_truncate :: "u64 \<Rightarrow> (unit, AxError) outcome" where
  "zero_truncate sz = Ok ()"

lemmas device_simps [simp] = null_get_attr_def null_read_at_def null_write_at_def null_truncate_def
  zero_get_attr_def zero_read_at_def zero_write_at_def zero_truncate_def

definition ram_dir_get_attr :: VfsNodeAttr where
  [simp]: "ram_dir_get_attr = attr_new_dir 4096 0"

definition dev_dir_get_attr :: VfsNodeAttr where
  [simp]: "dev_dir_get_attr = attr_new_dir 4096 0"

definition file_get_attr :: "bytes \<Rightarrow> VfsNodeAttr" where
  [simp]: "file_get_attr c = attr_new_file (of_nat (length c)) 0"

definition vfs_get_attr :: "fs_store \<Rightarrow> nat \<Rightarrow> (VfsNodeAttr, AxError) outcome" where
  "vfs_get_attr st n = (case fs_nodes st n of
     Some (RamDir _ _) \<Rightarrow> Ok ram_dir_get_attr
   | Some (DevDir _ _) \<Rightarrow> Ok dev_dir_get_attr
   | Some (RamFile c) \<Rightarrow> Ok (file_get_attr c)
   | Some NullDev \<Rightarrow> Ok null_get_attr
   | Some ZeroDev \<Rightarrow> Ok zero_get_attr
   | None \<Rightarrow> Panic)"

subsection \<open>Reading a directory\<close>

text \<open>The loop over the slots of the buffer: \<open>idx\<close> is \<open>i + start_idx\<close>, \<open>k\<close> the number of slots
  left. The result is the list of entries stored.\<close>

fun read_dir_loop :: "fs_store \<Rightarrow> nat \<Rightarrow> (bytes \<times> nat) list \<Rightarrow> nat \<Rightarrow> (VfsDirEntry list, AxError) outcome" where
  "read_dir_loop st idx cs 0 = Ok []"
| "read_dir_loop st idx cs (Suc k) =
    (let push = (\<lambda>name ty cs'. case dirent_new name ty of
        None \<Rightarrow> Panic
      | Some e \<Rightarrow> bind_outcome (read_dir_loop st (Suc idx) cs' k) (\<lambda>es. Ok (e # es)))
     in if idx = 0 then push [DOT] Dir cs
        else if idx = 1 then push [DOT, DOT] Dir cs
        else (case cs of
           [] \<Rightarrow> Ok []
         | (name, m) # cs' \<Rightarrow> (case vfs_get_attr st m of
              Ok a \<Rightarrow> push name (attr_ty a) cs'
            | _ \<Rightarrow> Panic)))"

definition vfs_read_dir :: "fs_store \<Rightarrow> nat \<Rightarrow> nat \<Rightarrow> nat \<Rightarrow> (VfsDirEntry list, AxError) outcome" where
  "vfs_read_dir st n start_idx len = (case fs_nodes st n of
     None \<Rightarrow> Panic
   | Some nd \<Rightarrow> (case dir_view nd of
       None \<Rightarrow> Err NotADirectory
     | Some (_, cs) \<Rightarrow> read_dir_loop st start_idx (drop (max start_idx 2 - 2) cs) len))"

section \<open>Files\<close>

text \<open>\<open>Vec::resize\<close>.\<close>

definition vec_resize :: "nat \<Rightarrow> bytes \<Rightarrow> bytes" where
  "vec_resize n xs = take n xs @ replicate (n - length xs) 0"

definition file_truncate :: "u64 \<Rightarrow> bytes \<Rightarrow> bytes" where
  "file_truncate sz content =
    (if unat sz < length content then take (unat sz) content else vec_resize (unat sz) content)"

text \<open>The buffer is given by its length; the result is what is copied to its front. The sum of
  offset and length wraps, and a slice whose start is past its end panics.\<close>

definition file_read_at :: "u64 \<Rightarrow> nat \<Rightarrow> bytes \<Rightarrow> (bytes, AxError) outcome" where
  "file_read_at off blen content =
    (let start = min (length content) (unat off);
         end_i = min (length content) (unat (off + of_nat blen))
     in if start \<le> end_i then Ok (take (end_i - start) (drop start content)) else Panic)"

definition file_write_at :: "u64 \<Rightarrow> bytes \<Rightarrow> bytes \<Rightarrow> (nat \<times> bytes, AxError) outcome" where
  "file_write_at off buf content =
    (let ofs = unat off;
         e = unat (off + of_nat (length buf));
         content1 = (if e > length content then vec_resize e content else content)
     in if ofs \<le> e \<and> e \<le> length content1
        then Ok (length buf, take ofs content1 @ take (e - ofs) buf @ drop e content1)
        else Panic)"

definition vfs_read_at :: "fs_store \<Rightarrow> nat \<Rightarrow> u64 \<Rightarrow> nat \<Rightarrow> (bytes, AxError) outcome" where
  "vfs_read_at st n off blen = (case fs_nodes st n of
     Some (RamFile c) \<Rightarrow> file_read_at off blen c
   | Some NullDev \<Rightarrow> null_read_at off blen
   | Some ZeroDev \<Rightarrow> zero_read_at off blen
   | Some _ \<Rightarrow> Err IsADirectory
   | None \<Rightarrow> Panic)"

definition vfs_write_at :: "fs_store \<Rightarrow> nat \<Rightarrow> u64 \<Rightarrow> bytes \<Rightarrow> (nat \<times> fs_store, AxError) outcome" where
  "vfs_write_at st n off buf = (case fs_nodes st n of
     Some (RamFile c) \<Rightarrow> bind_outcome (file_write_at off buf c) (\<lambda>(k, c'). Ok (k, fs_put n (RamFile c') st))
   | Some NullDev \<Rightarrow> bind_outcome (null_write_at off buf) (\<lambda>k. Ok (k, st))
   | Some ZeroDev \<Rightarrow> bind_outcome (zero_write_at off buf) (\<lambda>k. Ok (k, st))
   | Some _ \<Rightarrow> Err IsADirectory
   | None \<Rightarrow> Panic)"

definition vfs_truncate :: "fs_store \<Rightarrow> nat \<Rightarrow> u64 \<Rightarrow> (fs_store, AxError) outcome" where
  "vfs_truncate st n sz = (case fs_nodes st n of
     Some (RamFile c) \<Rightarrow> Ok (fs_put n (RamFile (file_truncate sz c)) st)
   | Some NullDev \<Rightarrow> bind_outcome (null_truncate sz) (\<lambda>_. Ok st)
   | Some ZeroDev \<Rightarrow> bind_outcome (zero_truncate sz) (\<lambda>_. Ok st)
   | Some _ \<Rightarrow> Err IsADirectory
   | None \<Rightarrow> Panic)"

text \<open>Files do not implement \<open>fsync\<close>, so they get the default of the trait.\<close>

definition vfs_fsync :: "fs_store \<Rightarrow> nat \<Rightarrow> (unit, AxError) outcome" where
  "vfs_fsync st n = (case fs_nodes st n of
     None \<Rightarrow> Panic
   | Some nd \<Rightarrow> if dir_view nd = None then Err InvalidInput else Err IsADirectory)"

section \<open>File systems\<close>

text \<open>\<open>RamFileSystem::new\<close> and \<open>DeviceFileSystem::new\<close> create a root without parent;
  \<open>mount\<close> gives it the parent of the mount point, the first time it has one.\<close>

record filesystem =
  f_parent :: "nat option"
  f_root :: nat

definition ramfs_new :: "fs_store \<Rightarrow> filesystem \<times> fs_store" where
  "ramfs_new st = (case fs_alloc (dir_node_new None) st of (r, st') \<Rightarrow> (\<lparr> f_parent = None, f_root = r \<rparr>, st'))"

definition devfs_new :: "fs_store \<Rightarrow> filesystem \<times> fs_store" where
  "devfs_new st = (case fs_alloc (dev_dir_new None) st of (r, st') \<Rightarrow> (\<lparr> f_parent = None, f_root = r \<rparr>, st'))"

definition fs_mount :: "filesystem \<Rightarrow> nat \<Rightarrow> fs_store \<Rightarrow> (filesystem \<times> fs_store, AxError) outcome" where
  "fs_mount f mount_point st = (case fs_nodes st (f_root f) of
     None \<Rightarrow> Panic
   | Some nd \<Rightarrow> (case vfs_parent st mount_point of
       Some p \<Rightarrow> let q = (case f_parent f of None \<Rightarrow> p | Some q \<Rightarrow> q) in
         Ok (f\<lparr> f_parent := Some q \<rparr>, fs_put (f_root f) (set_parent (Some q) nd) st)
     | None \<Rightarrow> Ok (f, fs_put (f_root f) (set_parent None nd) st)))"

end
