(* ===== verification/Fs_Proofs.thy ===== *)
theory Fs_Proofs
  imports Fs_Nodes
begin

text \<open>
  Lemmas about the RAM and device file systems: the invariant of the store, what creating and
  removing a node does to every lookup, reading and writing files, and listing directories.
\<close>

section \<open>The invariant of the store\<close>

text \<open>References stay inside the store, directories are ordered maps with proper names, and a
  directory entered through its name has that directory as its parent.\<close>

definition dview :: "fs_store \<Rightarrow> nat \<Rightarrow> (nat option \<times> (bytes, nat) btree_map) option" where
  "dview st n = Option.bind (fs_nodes st n) dir_view"

definition entry_ok :: "fs_store \<Rightarrow> nat \<Rightarrow> bytes \<Rightarrow> nat \<Rightarrow> bool" where
  "entry_ok st n name m \<longleftrightarrow> proper_name name \<and> fs_nodes st m \<noteq> None \<and>
    (\<forall>q cs. dview st m = Some (q, cs) \<longrightarrow> q = Some n)"

definition dir_ok :: "fs_store \<Rightarrow> nat \<Rightarrow> nat option \<Rightarrow> (bytes, nat) btree_map \<Rightarrow> bool" where
  "dir_ok st n p cs \<longleftrightarrow> btree_ok cs \<and> (\<forall>q. p = Some q \<longrightarrow> dview st q \<noteq> None) \<and>
    (\<forall>name m. (name, m) \<in> set cs \<longrightarrow> entry_ok st n name m)"

definition fs_ok :: "fs_store \<Rightarrow> bool" where
  "fs_ok st \<longleftrightarrow> (\<forall>n\<ge>fs_next st. fs_nodes st n = None) \<and>
    (\<forall>n p cs. dview st n = Some (p, cs) \<longrightarrow> dir_ok st n p cs)"

lemma dview_nodes: "dview st n = Some x \<Longrightarrow> fs_nodes st n \<noteq> None"
  by (cases "fs_nodes st n") (simp_all add: dview_def)

lemma split_path_name:
  assumes "split_path path = (name, rest)"
  shows "SLASH \<notin> set name"
  using assms by (auto simp: split_path_def Let_def split: if_splits dest: set_takeWhileD)

lemma proper_split:
  "split_path path = (name, rest) \<Longrightarrow> \<not> is_dot_name name \<Longrightarrow> \<not> is_dotdot name \<Longrightarrow> proper_name name"
  using split_path_name [of path name rest] by (simp add: proper_name_def is_dot_name_def is_dotdot_def)

text \<open>The recursive calls in terms of the view.\<close>

lemma vfs_lookup_dir:
  assumes "dview st n = Some (p, cs)" "split_path path = (name, rest)"
  shows "vfs_lookup st n path = bind_outcome (dir_step st n p cs name)
    (\<lambda>m. case rest of None \<Rightarrow> Ok m | Some r \<Rightarrow> vfs_lookup st m r)"
  using assms by (subst vfs_lookup.simps) (auto simp: dview_def bind_outcome_def bind_eq_Some_conv)

lemma vfs_lookup_not_dir:
  assumes "dview st n = None" "fs_nodes st n \<noteq> None"
  shows "vfs_lookup st n path = Err NotADirectory"
  using assms by (subst vfs_lookup.simps) (auto simp: dview_def)

lemma dir_step_cases:
  assumes "fs_ok st" "dview st n = Some (p, cs)"
  obtains (ok) m where "dir_step st n p cs name = Ok m" "fs_nodes st m \<noteq> None"
  | (err) "dir_step st n p cs name = Err NotFound"
proof -
  have d: "dir_ok st n p cs" using assms by (simp add: fs_ok_def)
  show thesis
  proof (cases "dir_step st n p cs name")
    case (Ok m)
    have "fs_nodes st m \<noteq> None"
    proof (cases "is_dot_name name")
      case True
      then show ?thesis using Ok dview_nodes [OF assms(2)] by (simp add: dir_step_def)
    next
      case False
      show ?thesis
      proof (cases "is_dotdot name")
        case True
        then have "p = Some m" using Ok False by (cases p) (simp_all add: dir_step_def)
        then show ?thesis using d dview_nodes by (auto simp: dir_ok_def)
      next
        case False
        then have "btree_get name cs = Some m" using Ok \<open>\<not> is_dot_name name\<close> by (cases "btree_get name cs") (simp_all add: dir_step_def)
        then have "(name, m) \<in> set cs" by (rule btree_get_in)
        then show ?thesis using d by (simp add: dir_ok_def entry_ok_def)
      qed
    qed
    then show thesis using ok Ok by blast
  next
    case (Err e)
    then have "e = NotFound" by (cases p; cases "btree_get name cs") (auto simp: dir_step_def split: if_splits)
    then show thesis using err Err by simp
  next
    case Panic
    then show thesis by (cases p; cases "btree_get name cs") (auto simp: dir_step_def split: if_splits)
  qed
qed

text \<open>A lookup never panics and gives a node of the store.\<close>

lemma lookup_valid:
  "fs_ok st \<Longrightarrow> fs_nodes st n \<noteq> None \<Longrightarrow>
    vfs_lookup st n path \<noteq> Panic \<and> (\<forall>m. vfs_lookup st n path = Ok m \<longrightarrow> fs_nodes st m \<noteq> None)"
proof (induction "length path" arbitrary: n path rule: less_induct)
  case less
  show ?case
  proof (cases "dview st n")
    case None
    then show ?thesis using vfs_lookup_not_dir less.prems by simp
  next
    case (Some pc)
    then obtain p cs where v: "dview st n = Some (p, cs)" by (cases pc) simp
    obtain name rest where sp: "split_path path = (name, rest)" by (cases "split_path path")
    note eq = vfs_lookup_dir [OF v sp]
    from less.prems(1) v show ?thesis
    proof (cases rule: dir_step_cases [where name = name])
      case (ok m)
      show ?thesis
      proof (cases rest)
        case None
        then show ?thesis using eq ok by simp
      next
        case (Some r)
        then have "length r < length path" using sp split_path_shorter by blast
        from less.hyps [OF this less.prems(1) ok(2)] show ?thesis using eq ok Some by simp
      qed
    next
      case err
      then show ?thesis using eq by simp
    qed
  qed
qed

section \<open>Adding a node\<close>

text \<open>The store after a new node has been added to the RAM directory \<open>d\<close> under a free name.\<close>

definition added :: "fs_store \<Rightarrow> nat \<Rightarrow> nat option \<Rightarrow> (bytes, nat) btree_map \<Rightarrow> bytes \<Rightarrow> node \<Rightarrow> fs_store \<Rightarrow> bool" where
  "added st d p cs name new st' \<longleftrightarrow> fs_nodes st d = Some (RamDir p cs) \<and> btree_get name cs = None \<and>
    proper_name name \<and>
    st' = st\<lparr> fs_nodes := (fs_nodes st)(fs_next st \<mapsto> new, d \<mapsto> RamDir p (btree_insert name (fs_next st) cs)),
              fs_next := Suc (fs_next st) \<rparr>"

fun new_node :: "VfsNodeType \<Rightarrow> nat \<Rightarrow> node option" where
  "new_node File d = Some (RamFile [])"
| "new_node Dir d = Some (RamDir (Some d) [])"
| "new_node _ d = None"

lemma create_node_added:
  assumes "fs_nodes st n = Some (RamDir p cs)" "proper_name name" "create_node st n p cs name ty = Ok st'"
  shows "\<exists>nd. new_node ty n = Some nd \<and> added st n p cs name nd st'"
  using assms by (cases ty)
    (auto simp: create_node_def added_def dir_exist_def fs_alloc_def fs_put_def dir_node_new_def split: if_splits)

lemma added_view:
  assumes ok: "fs_ok st" and a: "added st d p cs name nd st'" and nd: "new_node ty d = Some nd"
  shows "d \<noteq> fs_next st" "dview st (fs_next st) = None" "dview st d = Some (p, cs)"
    "fs_nodes st' k = (if k = d then Some (RamDir p (btree_insert name (fs_next st) cs))
      else if k = fs_next st then Some nd else fs_nodes st k)"
    "dview st' k = (if k = d then Some (p, btree_insert name (fs_next st) cs)
      else if k = fs_next st then (if ty = Dir then Some (Some d, []) else None) else dview st k)"
proof -
  have d: "fs_nodes st d = Some (RamDir p cs)"
    and st': "st' = st\<lparr> fs_nodes := (fs_nodes st)(fs_next st \<mapsto> nd, d \<mapsto> RamDir p (btree_insert name (fs_next st) cs)),
              fs_next := Suc (fs_next st) \<rparr>"
    using a by (simp_all add: added_def)
  have fresh: "fs_nodes st (fs_next st) = None" using ok by (simp add: fs_ok_def)
  then show dm: "d \<noteq> fs_next st" "dview st (fs_next st) = None" using d by (auto simp: dview_def)
  show "dview st d = Some (p, cs)" using d by (simp add: dview_def)
  show "fs_nodes st' k = (if k = d then Some (RamDir p (btree_insert name (fs_next st) cs))
      else if k = fs_next st then Some nd else fs_nodes st k)"
    by (simp add: st')
  then show "dview st' k = (if k = d then Some (p, btree_insert name (fs_next st) cs)
      else if k = fs_next st then (if ty = Dir then Some (Some d, []) else None) else dview st k)"
    using nd by (cases ty) (auto simp: dview_def)
qed

lemma added_fs_ok:
  assumes ok: "fs_ok st" and a: "added st d p cs name nd st'" and nd: "new_node ty d = Some nd"
  shows "fs_ok st'"
proof -
  let ?m = "fs_next st"
  note v = added_view [OF assms]
  have okd: "dir_ok st k q cs'" if "dview st k = Some (q, cs')" for k q cs' using ok that by (simp add: fs_ok_def)
  have live: "fs_nodes st k \<noteq> None \<Longrightarrow> fs_nodes st' k \<noteq> None" for k by (simp add: v(4))
  have dlive: "dview st k \<noteq> None \<Longrightarrow> dview st' k \<noteq> None" for k
    using v(2) by (cases "k = ?m") (auto simp: v(5))
  have entry: "entry_ok st' k x m" if e: "entry_ok st k x m" for k x m
  proof -
    have "m \<noteq> ?m" using e ok by (auto simp: entry_ok_def fs_ok_def)
    then have "q = Some k" if "dview st' m = Some (q, cs')" for q cs'
      using that e v(3,5) by (auto simp: entry_ok_def split: if_splits)
    then show ?thesis using e live [of m] by (simp add: entry_ok_def)
  qed
  have lift: "dir_ok st' k q cs'" if "dir_ok st k q cs'" for k q cs'
    using that entry dlive by (simp add: dir_ok_def)
  have "dir_ok st' d p (btree_insert name ?m cs)"
  proof -
    have o: "dir_ok st d p cs" by (rule okd [OF v(3)])
    have "proper_name name" using a by (simp add: added_def)
    moreover have "q = Some d" if "dview st' ?m = Some (q, cs')" for q cs'
      using that v(1) by (auto simp: v(5) split: if_splits)
    moreover have "fs_nodes st' ?m \<noteq> None" by (simp add: v(4))
    ultimately have "entry_ok st' d name ?m" by (simp add: entry_ok_def)
    moreover have "btree_ok cs" using o by (simp add: dir_ok_def)
    ultimately show ?thesis
      using lift [OF o] by (auto simp: dir_ok_def set_btree_insert btree_ok_insert)
  qed
  moreover have "dir_ok st' ?m (Some d) []" using v(1) v(5) [of d] by (simp add: dir_ok_def)
  ultimately have "dir_ok st' k q cs'" if "dview st' k = Some (q, cs')" for k q cs'
    using that lift [OF okd, of k q cs'] v(5) [of k] by (auto split: if_splits)
  moreover have "fs_nodes st' k = None" if "k \<ge> fs_next st'" for k
    using ok that a by (auto simp: added_def fs_ok_def)
  ultimately show ?thesis by (simp add: fs_ok_def)
qed


text \<open>Steps and lookups that succeed keep their result.\<close>

lemma added_step:
  assumes ok: "fs_ok st" and a: "added st d p cs name nd st'" and nd: "new_node ty d = Some nd"
    and v: "dview st n = Some (q, cn)" and s: "dir_step st n q cn x = Ok m"
  shows "\<exists>cn'. dview st' n = Some (q, cn') \<and> dir_step st' n q cn' x = Ok m"
proof (cases "n = d")
  case True
  have "btree_get name cs = None" using a by (simp add: added_def)
  then have "btree_get x cs = Some y \<Longrightarrow> btree_get x (btree_insert name (fs_next st) cs) = Some y" for y
    by (auto simp: btree_get_insert)
  then have "dir_step st' d p (btree_insert name (fs_next st) cs) x = Ok m"
    using s added_view(3) [OF ok a nd] v True by (cases "btree_get x cs") (auto simp: dir_step_def split: if_splits)
  then show ?thesis
    using added_view(3,5) [OF ok a nd] v True by simp
next
  case False
  then have "dview st' n = Some (q, cn)" using added_view(2,5) [OF ok a nd] v by auto
  then show ?thesis using s by (simp add: dir_step_def)
qed

lemma added_lookup:
  assumes ok: "fs_ok st" and a: "added st d p cs name nd st'" and nd: "new_node ty d = Some nd"
  shows "fs_nodes st n \<noteq> None \<Longrightarrow> vfs_lookup st n path = Ok m \<Longrightarrow> vfs_lookup st' n path = Ok m"
proof (induction "length path" arbitrary: n path rule: less_induct)
  case less
  obtain name' rest where sp: "split_path path = (name', rest)" by (cases "split_path path")
  obtain q cn where v: "dview st n = Some (q, cn)"
    using less.prems vfs_lookup_not_dir [of st n path] by (cases "dview st n") auto
  obtain m1 where s: "dir_step st n q cn name' = Ok m1"
    and r: "(case rest of None \<Rightarrow> Ok m1 | Some r \<Rightarrow> vfs_lookup st m1 r) = Ok m"
    using less.prems(2) vfs_lookup_dir [OF v sp] by (auto simp: bind_outcome_eq_Ok)
  obtain cn' where v': "dview st' n = Some (q, cn')" "dir_step st' n q cn' name' = Ok m1"
    using added_step [OF ok a nd v s] by blast
  show ?case
  proof (cases rest)
    case None
    then show ?thesis using r vfs_lookup_dir [OF v'(1) sp] v'(2) by simp
  next
    case (Some r1)
    have "fs_nodes st m1 \<noteq> None" using dir_step_cases [OF ok v, of name'] s by (metis outcome.inject(1) outcome.distinct(1))
    moreover have "length r1 < length path" using sp Some split_path_shorter by blast
    ultimately have "vfs_lookup st' m1 r1 = Ok m" using less.hyps [of r1 m1] r Some by simp
    then show ?thesis using Some vfs_lookup_dir [OF v'(1) sp] v'(2) by simp
  qed
qed

lemma vfs_create_dir:
  assumes "dview st n = Some (p, cs)" "split_path path = (name, rest)"
  shows "vfs_create st n path ty = (case rest of
      Some r \<Rightarrow> bind_outcome (dir_step st n p cs name) (\<lambda>m. vfs_create st m r ty)
    | None \<Rightarrow> if is_dot_name name \<or> is_dotdot name then Ok st
        else (case fs_nodes st n of Some (RamDir _ _) \<Rightarrow> create_node st n p cs name ty | _ \<Rightarrow> Err PermissionDenied))"
  using assms by (subst vfs_create.simps)
    (auto simp: dview_def bind_outcome_def bind_eq_Some_conv split: option.splits node.splits)

lemma vfs_create_not_dir:
  assumes "dview st n = None" "fs_nodes st n \<noteq> None"
  shows "vfs_create st n path ty = Err NotADirectory"
  using assms by (subst vfs_create.simps) (auto simp: dview_def)

text \<open>The last component of a path, and the paths that end in the empty one, in \<open>.\<close> or in \<open>..\<close>.\<close>

function path_last :: "bytes \<Rightarrow> bytes" where
  "path_last path = (case split_path path of (name, None) \<Rightarrow> name | (_, Some r) \<Rightarrow> path_last r)"
  by pat_completeness auto
termination
  by (relation "measure length") (auto dest: split_path_shorter [OF sym])

declare path_last.simps [simp del]

definition ends_in_dot :: "bytes \<Rightarrow> bool" where
  "ends_in_dot path \<longleftrightarrow> is_dot_name (path_last path) \<or> is_dotdot (path_last path)"

lemma ends_in_dot_split:
  "split_path path = (name, None) \<Longrightarrow> ends_in_dot path \<longleftrightarrow> is_dot_name name \<or> is_dotdot name"
  "split_path path = (name, Some r) \<Longrightarrow> ends_in_dot path \<longleftrightarrow> ends_in_dot r"
  unfolding ends_in_dot_def by (subst path_last.simps, simp)+

text \<open>A successful create leaves the store as it is, for a path that ends in a dot entry, or adds a new node
  under a path that led nowhere and then leads to it.\<close>

lemma vfs_create_spec:
  assumes ok: "fs_ok st"
  shows "fs_nodes st n \<noteq> None \<Longrightarrow> vfs_create st n path ty = Ok st' \<Longrightarrow>
    if ends_in_dot path then st' = st
    else vfs_lookup st n path = Err NotFound \<and> (\<exists>d p cs name nd. added st d p cs name nd st' \<and> new_node ty d = Some nd \<and>
      vfs_lookup st' n path = Ok (fs_next st))"
proof (induction "length path" arbitrary: n path rule: less_induct)
  case less
  obtain name rest where sp: "split_path path = (name, rest)" by (cases "split_path path")
  obtain p cs where v: "dview st n = Some (p, cs)"
    using less.prems vfs_create_not_dir [of st n path ty] by (cases "dview st n") auto
  note eq = vfs_create_dir [OF v sp, of ty] and leq = vfs_lookup_dir [OF v sp]
  show ?case
  proof (cases rest)
    case None
    note dot = ends_in_dot_split(1) [OF sp [unfolded None]]
    show ?thesis
    proof (cases "is_dot_name name \<or> is_dotdot name")
      case True
      then show ?thesis using eq None less.prems dot by simp
    next
      case False
      then have pn: "proper_name name" using proper_split sp by blast
      have n: "fs_nodes st n = Some (RamDir p cs)" and c: "create_node st n p cs name ty = Ok st'"
        using eq None False less.prems(2) v
        by (auto simp: dview_def bind_eq_Some_conv split: option.splits node.splits)
      obtain nd where nd: "new_node ty n = Some nd" "added st n p cs name nd st'"
        using create_node_added [OF n pn c] by blast
      have "dview st' n = Some (p, btree_insert name (fs_next st) cs)"
        using added_view(5) [OF ok nd(2,1), of n] by simp
      then have "vfs_lookup st' n path = Ok (fs_next st)"
        using vfs_lookup_dir [of st' n p _ path name rest] sp None False
        by (simp add: dir_step_def btree_get_insert)
      moreover have "btree_get name cs = None"
        using c by (auto simp: create_node_def dir_exist_def split: if_splits)
      then have "vfs_lookup st n path = Err NotFound" using leq None False by (simp add: dir_step_def)
      ultimately show ?thesis using nd dot False by auto blast
    qed
  next
    case (Some r)
    note dot = ends_in_dot_split(2) [OF sp [unfolded Some]]
    then have "bind_outcome (dir_step st n p cs name) (\<lambda>m. vfs_create st m r ty) = Ok st'"
      using eq less.prems(2) Some by simp
    then obtain m where s: "dir_step st n p cs name = Ok m" and c: "vfs_create st m r ty = Ok st'"
      unfolding bind_outcome_eq_Ok by blast
    have "fs_nodes st m \<noteq> None" using dir_step_cases [OF ok v, of name] s by (metis outcome.inject(1) outcome.distinct(1))
    moreover have "length r < length path" using sp Some split_path_shorter by blast
    ultimately have ih: "if ends_in_dot r then st' = st
      else vfs_lookup st m r = Err NotFound \<and> (\<exists>d p cs name nd. added st d p cs name nd st' \<and> new_node ty d = Some nd \<and>
        vfs_lookup st' m r = Ok (fs_next st))"
      using less.hyps [of r m] c by blast
    show ?thesis
    proof (cases "ends_in_dot r")
      case True
      then show ?thesis using ih dot by simp
    next
      case False
      then obtain d p1 cs1 x nd where a: "added st d p1 cs1 x nd st'" "new_node ty d = Some nd" "vfs_lookup st' m r = Ok (fs_next st)"
        and nf: "vfs_lookup st m r = Err NotFound" using ih by auto
      obtain cn' where "dview st' n = Some (p, cn')" "dir_step st' n p cn' name = Ok m"
        using added_step [OF ok a(1,2) v s] by blast
      then have "vfs_lookup st' n path = Ok (fs_next st)"
        using vfs_lookup_dir [OF _ sp, of st' n p cn'] Some a(3) by simp
      moreover have "vfs_lookup st n path = Err NotFound" using leq s Some nf by simp
      ultimately show ?thesis using a dot False by auto blast
    qed
  qed
qed

lemma vfs_create_cases:
  assumes "fs_ok st" "fs_nodes st n \<noteq> None" "vfs_create st n path ty = Ok st'"
  shows "st' = st \<or> (\<exists>d p cs name nd. added st d p cs name nd st' \<and> new_node ty d = Some nd \<and>
      vfs_lookup st' n path = Ok (fs_next st))"
  using vfs_create_spec [OF assms] by (auto split: if_splits)


section \<open>Removing a node\<close>

text \<open>The store after an entry has been removed from the RAM directory \<open>d\<close>.\<close>

definition dropped :: "fs_store \<Rightarrow> nat \<Rightarrow> nat option \<Rightarrow> (bytes, nat) btree_map \<Rightarrow> bytes \<Rightarrow> fs_store \<Rightarrow> bool" where
  "dropped st d p cs name st' \<longleftrightarrow> fs_nodes st d = Some (RamDir p cs) \<and> btree_get name cs \<noteq> None \<and>
    proper_name name \<and> st' = fs_put d (RamDir p (btree_remove name cs)) st"

lemma dropped_view:
  assumes "dropped st d p cs name st'"
  shows "fs_next st' = fs_next st" "dview st d = Some (p, cs)"
    "fs_nodes st' k = (if k = d then Some (RamDir p (btree_remove name cs)) else fs_nodes st k)"
    "dview st' k = (if k = d then Some (p, btree_remove name cs) else dview st k)"
  using assms by (auto simp: dropped_def fs_put_def dview_def)

lemma dropped_fs_ok:
  assumes ok: "fs_ok st" and a: "dropped st d p cs name st'"
  shows "fs_ok st'"
proof -
  note v = dropped_view [OF a]
  have okd: "dir_ok st k q cs'" if "dview st k = Some (q, cs')" for k q cs' using ok that by (simp add: fs_ok_def)
  have dlive: "dview st k \<noteq> None \<Longrightarrow> dview st' k \<noteq> None" for k by (simp add: v(4))
  have entry: "entry_ok st' k x m" if "entry_ok st k x m" for k x m
    using that v(2) unfolding entry_ok_def v(3,4) by auto
  have lift: "dir_ok st' k q cs'" if "dir_ok st k q cs'" for k q cs'
    using that entry dlive by (simp add: dir_ok_def)
  have "dir_ok st' d p (btree_remove name cs)"
    using lift [OF okd [OF v(2)]] by (auto simp: dir_ok_def set_btree_remove btree_ok_remove)
  then have "dir_ok st' k q cs'" if "dview st' k = Some (q, cs')" for k q cs'
    using that lift [OF okd, of k q cs'] v(4) [of k] by (auto split: if_splits)
  moreover have "fs_nodes st' k = None" if "k \<ge> fs_next st'" for k
    using ok that a by (auto simp: dropped_def fs_ok_def fs_put_def)
  ultimately show ?thesis by (simp add: fs_ok_def)
qed

lemma remove_node_dropped:
  assumes "fs_nodes st n = Some (RamDir p cs)" "proper_name name" "remove_node st n p cs name = Ok st'"
  shows "dropped st n p cs name st'"
proof -
  obtain m where m: "btree_get name cs = Some m"
    using assms(3) by (cases "btree_get name cs") (auto simp: remove_node_def)
  have "st' = fs_put n (RamDir p (btree_remove name cs)) st"
    using assms(3) m by (cases "fs_nodes st m") (auto simp: remove_node_def split: node.splits if_splits)
  then show ?thesis using assms(1,2) m by (simp add: dropped_def)
qed

text \<open>A directory that is not empty is not removed.\<close>

lemma remove_node_not_empty:
  assumes "btree_get name cs = Some m" "fs_nodes st m = Some (RamDir q cm)" "cm \<noteq> []"
  shows "remove_node st n p cs name = Err DirectoryNotEmpty"
  using assms by (simp add: remove_node_def)

lemma vfs_remove_dir:
  assumes "dview st n = Some (p, cs)" "split_path path = (name, rest)"
  shows "vfs_remove st n path = (case rest of
      Some r \<Rightarrow> bind_outcome (dir_step st n p cs name) (\<lambda>m. vfs_remove st m r)
    | None \<Rightarrow> (case fs_nodes st n of
        Some (RamDir _ _) \<Rightarrow> if is_dot_name name \<or> is_dotdot name then Err InvalidInput else remove_node st n p cs name
      | _ \<Rightarrow> Err PermissionDenied))"
  using assms by (subst vfs_remove.simps)
    (auto simp: dview_def bind_outcome_def bind_eq_Some_conv split: option.splits node.splits)

lemma vfs_remove_not_dir:
  assumes "dview st n = None" "fs_nodes st n \<noteq> None"
  shows "vfs_remove st n path = Err NotADirectory"
  using assms by (subst vfs_remove.simps) (auto simp: dview_def)

lemma dropped_step:
  assumes a: "dropped st d p cs name st'" and v: "dview st n = Some (q, cn)" and s: "dir_step st n q cn x = Ok m"
  shows "\<exists>cn'. dview st' n = Some (q, cn') \<and> (dir_step st' n q cn' x = Ok m \<or> dir_step st' n q cn' x = Err NotFound)"
proof (cases "n = d")
  case True
  then have cn: "q = p" "cn = cs" using v dropped_view(2) [OF a] by auto
  have "btree_get x (btree_remove name cs) = (if x = name then None else btree_get x cs)" by (rule btree_get_remove)
  then have "dir_step st' d p (btree_remove name cs) x = Ok m \<or> dir_step st' d p (btree_remove name cs) x = Err NotFound"
    using s cn True by (auto simp: dir_step_def)
  then show ?thesis using dropped_view(4) [OF a, of n] True cn by simp
next
  case False
  then show ?thesis using dropped_view(4) [OF a, of n] v s by (simp add: dir_step_def)
qed

text \<open>After a successful remove the path leads nowhere.\<close>

lemma vfs_remove_spec:
  assumes ok: "fs_ok st"
  shows "fs_nodes st n \<noteq> None \<Longrightarrow> vfs_remove st n path = Ok st' \<Longrightarrow>
    (\<exists>d p cs name. dropped st d p cs name st') \<and> vfs_lookup st' n path = Err NotFound"
proof (induction "length path" arbitrary: n path rule: less_induct)
  case less
  obtain name rest where sp: "split_path path = (name, rest)" by (cases "split_path path")
  obtain p cs where v: "dview st n = Some (p, cs)"
    using less.prems vfs_remove_not_dir [of st n path] by (cases "dview st n") auto
  note eq = vfs_remove_dir [OF v sp]
  show ?case
  proof (cases rest)
    case None
    have n: "fs_nodes st n = Some (RamDir p cs)" and nd: "\<not> (is_dot_name name \<or> is_dotdot name)"
      and c: "remove_node st n p cs name = Ok st'"
      using eq None less.prems(2) v
      by (auto simp: dview_def bind_eq_Some_conv split: option.splits node.splits if_splits)
    then have a: "dropped st n p cs name st'" using remove_node_dropped proper_split sp by blast
    have "vfs_lookup st' n path = Err NotFound"
      using vfs_lookup_dir [of st' n p "btree_remove name cs" path name rest] sp None nd dropped_view(4) [OF a, of n]
      by (simp add: dir_step_def btree_get_remove)
    then show ?thesis using a by blast
  next
    case (Some r)
    then have "bind_outcome (dir_step st n p cs name) (\<lambda>m. vfs_remove st m r) = Ok st'"
      using eq less.prems(2) by simp
    then obtain m where s: "dir_step st n p cs name = Ok m" and c: "vfs_remove st m r = Ok st'"
      unfolding bind_outcome_eq_Ok by blast
    have "fs_nodes st m \<noteq> None" using dir_step_cases [OF ok v, of name] s by (metis outcome.inject(1) outcome.distinct(1))
    moreover have "length r < length path" using sp Some split_path_shorter by blast
    ultimately obtain d q ds x where a: "dropped st d q ds x st'" and l: "vfs_lookup st' m r = Err NotFound"
      using less.hyps [of r m] c by blast
    obtain cn' where "dview st' n = Some (p, cn')"
      "dir_step st' n p cn' name = Ok m \<or> dir_step st' n p cn' name = Err NotFound"
      using dropped_step [OF a v s] by blast
    then have "vfs_lookup st' n path = Err NotFound"
      using vfs_lookup_dir [OF _ sp, of st' n p cn'] Some l by auto
    then show ?thesis using a by blast
  qed
qed

section \<open>Files\<close>

lemma vec_resize_nth: "i < n \<Longrightarrow> vec_resize n xs ! i = (if i < length xs then xs ! i else 0)"
  by (auto simp: vec_resize_def nth_append min_def)

lemma length_vec_resize [simp]: "length (vec_resize n xs) = n"
  by (simp add: vec_resize_def)

lemma file_write_at_spec:
  assumes "unat off + length buf < 2 ^ 64"
  shows "\<exists>c'. file_write_at off buf c = Ok (length buf, c') \<and> length c' = max (length c) (unat off + length buf) \<and>
    (\<forall>i<length c'. c' ! i = (if unat off \<le> i \<and> i < unat off + length buf then buf ! (i - unat off)
      else if i < length c then c ! i else 0))"
proof -
  let ?o = "unat off" and ?e = "unat off + length buf"
  have e: "unat (off + of_nat (length buf)) = ?e"
    using assms by (simp add: unat_word_ariths unat_of_nat)
  define c1 where "c1 = (if ?e > length c then vec_resize ?e c else c)"
  have l1: "length c1 = max (length c) ?e" by (auto simp: c1_def max_def)
  have n1: "c1 ! i = (if i < length c then c ! i else 0)" if "i < length c1" for i
    using that by (auto simp: c1_def vec_resize_nth)
  let ?c = "take ?o c1 @ buf @ drop ?e c1"
  have "file_write_at off buf c = Ok (length buf, ?c)"
    using l1 by (simp add: file_write_at_def e c1_def [symmetric] Let_def max_def)
  moreover have "length ?c = max (length c) ?e" using l1 by simp
  moreover have "?c ! i = (if ?o \<le> i \<and> i < ?e then buf ! (i - ?o) else if i < length c then c ! i else 0)" if "i < length ?c" for i
    using that l1 n1 [of i] by (auto simp: nth_append min_def)
  ultimately show ?thesis by blast
qed

lemma file_read_at_spec:
  assumes "unat off + blen < 2 ^ 64"
  shows "file_read_at off blen c = Ok (take blen (drop (unat off) c))"
proof -
  have e: "unat (off + of_nat blen) = unat off + blen"
    using assms by (simp add: unat_word_ariths unat_of_nat)
  have "min (length c) (unat off) \<le> min (length c) (unat off + blen)" by simp
  moreover have "take (min (length c) (unat off + blen) - min (length c) (unat off)) (drop (min (length c) (unat off)) c) =
      take blen (drop (unat off) c)"
    by (cases "unat off \<le> length c") (auto simp: min_def)
  ultimately show ?thesis by (simp add: file_read_at_def e Let_def)
qed

end
