(* ===== verification/Fs_Properties.thy ===== *)
theory Fs_Properties
  imports Fs_Proofs
begin

text \<open>
  The properties of the RAM and device file systems: no call panics in a store that satisfies the
  invariant, creating and removing nodes, files as byte sequences, and the listing of a directory.
\<close>

section \<open>Calls do not panic\<close>

lemma create_node_no_panic: "create_node st n p cs name ty \<noteq> Panic"
  by (cases ty) (auto simp: create_node_def split: prod.splits)

lemma remove_node_no_panic: "remove_node st n p cs name \<noteq> Panic"
  by (cases "btree_get name cs") (auto simp: remove_node_def split: option.splits node.splits)

lemma create_no_panic:
  assumes ok: "fs_ok st"
  shows "fs_nodes st n \<noteq> None \<Longrightarrow> vfs_create st n path ty \<noteq> Panic"
proof (induction "length path" arbitrary: n path rule: less_induct)
  case less
  show ?case
  proof (cases "dview st n")
    case None
    then show ?thesis using vfs_create_not_dir less.prems by simp
  next
    case (Some pc)
    then obtain p cs where v: "dview st n = Some (p, cs)" by (cases pc) simp
    obtain name rest where sp: "split_path path = (name, rest)" by (cases "split_path path")
    note eq = vfs_create_dir [OF v sp, of ty]
    show ?thesis
    proof (cases rest)
      case None
      then show ?thesis using eq create_node_no_panic by (auto split: option.splits node.splits)
    next
      case (Some r)
      then have l: "length r < length path" using sp split_path_shorter by blast
      from ok v show ?thesis
      proof (cases rule: dir_step_cases [where name = name])
        case (ok m)
        from less.hyps [OF l ok(2)] show ?thesis using eq ok(1) Some by simp
      qed (use eq Some in simp)
    qed
  qed
qed

lemma remove_no_panic:
  assumes ok: "fs_ok st"
  shows "fs_nodes st n \<noteq> None \<Longrightarrow> vfs_remove st n path \<noteq> Panic"
proof (induction "length path" arbitrary: n path rule: less_induct)
  case less
  show ?case
  proof (cases "dview st n")
    case None
    then show ?thesis using vfs_remove_not_dir less.prems by simp
  next
    case (Some pc)
    then obtain p cs where v: "dview st n = Some (p, cs)" by (cases pc) simp
    obtain name rest where sp: "split_path path = (name, rest)" by (cases "split_path path")
    note eq = vfs_remove_dir [OF v sp]
    show ?thesis
    proof (cases rest)
      case None
      then show ?thesis using eq remove_node_no_panic by (auto split: option.splits node.splits)
    next
      case (Some r)
      then have l: "length r < length path" using sp split_path_shorter by blast
      from ok v show ?thesis
      proof (cases rule: dir_step_cases [where name = name])
        case (ok m)
        from less.hyps [OF l ok(2)] show ?thesis using eq ok(1) Some by simp
      qed (use eq Some in simp)
    qed
  qed
qed

lemma get_attr_ok: "fs_nodes st n \<noteq> None \<Longrightarrow> \<exists>a. vfs_get_attr st n = Ok a"
  by (auto simp: vfs_get_attr_def split: node.splits)

section \<open>Writing keeps the invariant\<close>

lemma put_file_view:
  assumes "fs_nodes st n = Some (RamFile c)"
  shows "dview (fs_put n (RamFile c') st) k = dview st k"
    "fs_nodes (fs_put n (RamFile c') st) k = None \<longleftrightarrow> fs_nodes st k = None"
    "fs_next (fs_put n (RamFile c') st) = fs_next st"
  using assms by (auto simp: dview_def fs_put_def)

lemma put_file_ok:
  assumes "fs_ok st" "fs_nodes st n = Some (RamFile c)"
  shows "fs_ok (fs_put n (RamFile c') st)"
  using assms(1) unfolding fs_ok_def dir_ok_def entry_ok_def put_file_view [OF assms(2)] .

lemma write_at_ok:
  assumes "fs_ok st" "vfs_write_at st n off buf = Ok (k, st')"
  shows "fs_ok st'"
  using assms put_file_ok by (auto simp: vfs_write_at_def bind_outcome_eq_Ok split: option.splits node.splits)

lemma truncate_ok:
  assumes "fs_ok st" "vfs_truncate st n sz = Ok st'"
  shows "fs_ok st'"
  using assms put_file_ok by (auto simp: vfs_truncate_def split: option.splits node.splits)

section \<open>Reachable stores\<close>

text \<open>The stores that a root file system of either kind and the calls of clients produce.\<close>

inductive fs_reach :: "fs_store \<Rightarrow> bool" where
  ramfs: "ramfs_new fs_empty = (f, st) \<Longrightarrow> fs_reach st"
| create: "fs_reach st \<Longrightarrow> fs_nodes st n \<noteq> None \<Longrightarrow> vfs_create st n path ty = Ok st' \<Longrightarrow> fs_reach st'"
| remove: "fs_reach st \<Longrightarrow> fs_nodes st n \<noteq> None \<Longrightarrow> vfs_remove st n path = Ok st' \<Longrightarrow> fs_reach st'"
| write_at: "fs_reach st \<Longrightarrow> vfs_write_at st n off buf = Ok (k, st') \<Longrightarrow> fs_reach st'"
| truncate: "fs_reach st \<Longrightarrow> vfs_truncate st n sz = Ok st' \<Longrightarrow> fs_reach st'"

lemma ramfs_new_ok: "ramfs_new fs_empty = (f, st) \<Longrightarrow> fs_ok st"
  by (auto simp: ramfs_new_def fs_alloc_def fs_empty_def fs_ok_def dir_ok_def dview_def dir_node_new_def btree_ok_def
      split: if_splits)

lemma fs_reach_ok: "fs_reach st \<Longrightarrow> fs_ok st"
proof (induction rule: fs_reach.induct)
  case (ramfs f st)
  then show ?case by (rule ramfs_new_ok)
next
  case (create st n path ty st')
  then show ?case using vfs_create_cases added_fs_ok by metis
next
  case (remove st n path st')
  then show ?case using vfs_remove_spec dropped_fs_ok by metis
next
  case (write_at st n off buf k st')
  then show ?case using write_at_ok by blast
next
  case (truncate st n sz st')
  then show ?case using truncate_ok by blast
qed

section \<open>Removing\<close>

lemma dropped_step_back:
  assumes a: "dropped st d p cs name st'" and v: "dview st' n = Some (q, cn')" and s: "dir_step st' n q cn' x = Ok m"
  shows "\<exists>cn. dview st n = Some (q, cn) \<and> dir_step st n q cn x = Ok m"
proof (cases "n = d")
  case True
  then have "q = p" "cn' = btree_remove name cs" using v dropped_view(4) [OF a, of n] by auto
  then show ?thesis
    using s True dropped_view(2) [OF a] by (auto simp: dir_step_def btree_get_remove split: if_splits)
next
  case False
  then have "dview st n = Some (q, cn') \<and> dir_step st n q cn' x = Ok m"
    using dropped_view(4) [OF a, of n] v s by (simp add: dir_step_def)
  then show ?thesis by blast
qed

text \<open>Removing an entry makes no path lead anywhere new.\<close>

lemma dropped_lookup:
  assumes a: "dropped st d p cs name st'"
  shows "vfs_lookup st' n path = Ok m \<Longrightarrow> vfs_lookup st n path = Ok m"
proof (induction "length path" arbitrary: n path rule: less_induct)
  case less
  obtain x rest where sp: "split_path path = (x, rest)" by (cases "split_path path")
  have "vfs_lookup st' n path = Panic" if "fs_nodes st' n = None" using that by (subst vfs_lookup.simps) simp
  then have "fs_nodes st' n \<noteq> None" using less.prems by auto
  then obtain q cn' where v: "dview st' n = Some (q, cn')"
    using less.prems vfs_lookup_not_dir [of st' n path] by (cases "dview st' n") auto
  then obtain k where s: "dir_step st' n q cn' x = Ok k" and
    k: "(case rest of None \<Rightarrow> Ok k | Some r \<Rightarrow> vfs_lookup st' k r) = Ok m"
    using less.prems unfolding vfs_lookup_dir [OF v sp] bind_outcome_eq_Ok by blast
  obtain cn where v0: "dview st n = Some (q, cn)" "dir_step st n q cn x = Ok k"
    using dropped_step_back [OF a v s] by blast
  note eq = vfs_lookup_dir [OF v0(1) sp]
  show ?case
  proof (cases rest)
    case None
    then show ?thesis using eq v0(2) k by simp
  next
    case (Some r)
    then have "length r < length path" using sp split_path_shorter by blast
    then show ?thesis using eq v0(2) k Some less.hyps [of r k] by simp
  qed
qed

text \<open>What a successful remove takes out was there, and was no directory with entries.\<close>

lemma vfs_remove_victim:
  assumes ok: "fs_ok st"
  shows "fs_nodes st n \<noteq> None \<Longrightarrow> vfs_remove st n path = Ok st' \<Longrightarrow>
    \<exists>v. vfs_lookup st n path = Ok v \<and> (\<forall>q cv. fs_nodes st v = Some (RamDir q cv) \<longrightarrow> cv = [])"
proof (induction "length path" arbitrary: n path rule: less_induct)
  case less
  obtain name rest where sp: "split_path path = (name, rest)" by (cases "split_path path")
  obtain p cs where v: "dview st n = Some (p, cs)"
    using less.prems vfs_remove_not_dir [of st n path] by (cases "dview st n") auto
  note eq = vfs_remove_dir [OF v sp] and leq = vfs_lookup_dir [OF v sp]
  show ?case
  proof (cases rest)
    case None
    have nd: "\<not> (is_dot_name name \<or> is_dotdot name)" and c: "remove_node st n p cs name = Ok st'"
      using eq None less.prems(2) v
      by (auto simp: dview_def bind_eq_Some_conv split: option.splits node.splits if_splits)
    obtain m where m: "btree_get name cs = Some m"
      using c by (cases "btree_get name cs") (simp_all add: remove_node_def)
    have "cv = []" if "fs_nodes st m = Some (RamDir q cv)" for q cv
    proof (rule ccontr)
      assume "cv \<noteq> []"
      from remove_node_not_empty [OF m that this, of n p] c show False by simp
    qed
    then show ?thesis using leq None nd m by (simp add: dir_step_def)
  next
    case (Some r)
    then have "bind_outcome (dir_step st n p cs name) (\<lambda>m. vfs_remove st m r) = Ok st'"
      using eq less.prems(2) by simp
    then obtain m where s: "dir_step st n p cs name = Ok m" and c: "vfs_remove st m r = Ok st'"
      unfolding bind_outcome_eq_Ok by blast
    have "fs_nodes st m \<noteq> None" using dir_step_cases [OF ok v, of name] s by (metis outcome.inject(1) outcome.distinct(1))
    moreover have "length r < length path" using sp Some split_path_shorter by blast
    ultimately show ?thesis using less.hyps [of r m] c leq s Some by simp
  qed
qed

text \<open>A RAM file system has no device directories.\<close>

definition ram_only :: "fs_store \<Rightarrow> bool" where
  "ram_only st \<longleftrightarrow> (\<forall>n p cs. fs_nodes st n \<noteq> Some (DevDir p cs))"

lemma ram_only_added: "ram_only st \<Longrightarrow> added st d p cs name nd st' \<Longrightarrow> new_node ty d = Some nd \<Longrightarrow> ram_only st'"
  by (cases ty) (auto simp: ram_only_def added_def dir_node_new_def fs_put_def fs_alloc_def split: if_splits)

lemma ram_only_dropped: "ram_only st \<Longrightarrow> dropped st d p cs name st' \<Longrightarrow> ram_only st'"
  by (auto simp: ram_only_def dropped_def fs_put_def split: if_splits)

lemma fs_reach_ram: "fs_reach st \<Longrightarrow> ram_only st"
proof (induction rule: fs_reach.induct)
  case (ramfs f st)
  then show ?case by (auto simp: ram_only_def ramfs_new_def fs_alloc_def fs_empty_def dir_node_new_def split: if_splits)
next
  case (create st n path ty st')
  then show ?case using vfs_create_cases [OF fs_reach_ok create(2,3)] ram_only_added by blast
next
  case (remove st n path st')
  then show ?case using vfs_remove_spec [OF fs_reach_ok remove(2,3)] ram_only_dropped by blast
next
  case (write_at st n off buf k st')
  then show ?case
    by (auto simp: ram_only_def vfs_write_at_def fs_put_def bind_outcome_eq_Ok split: option.splits node.splits if_splits)
next
  case (truncate st n sz st')
  then show ?case
    by (auto simp: ram_only_def vfs_truncate_def fs_put_def split: option.splits node.splits if_splits)
qed

text \<open>The outcome of creating and removing a path, by its lookup.\<close>

lemma outcomes:
  assumes ok: "fs_ok st" and ram: "ram_only st"
  shows "fs_nodes st n \<noteq> None \<Longrightarrow> \<not> ends_in_dot path \<Longrightarrow> case vfs_lookup st n path of
      Ok m \<Rightarrow> vfs_create st n path ty = Err AlreadyExists \<and>
        (if \<exists>q cv. fs_nodes st m = Some (RamDir q cv) \<and> cv \<noteq> [] then vfs_remove st n path = Err DirectoryNotEmpty
         else \<exists>st'. vfs_remove st n path = Ok st')
    | Err e \<Rightarrow> vfs_remove st n path = Err e \<and> (e \<noteq> NotFound \<longrightarrow> vfs_create st n path ty = Err e)
    | Panic \<Rightarrow> False"
proof (induction "length path" arbitrary: n path rule: less_induct)
  case less
  obtain name rest where sp: "split_path path = (name, rest)" by (cases "split_path path")
  show ?case
  proof (cases "dview st n")
    case None
    then show ?thesis
      using less.prems vfs_lookup_not_dir vfs_create_not_dir vfs_remove_not_dir by simp
  next
    case (Some pc)
    then obtain p cs where v: "dview st n = Some (p, cs)" by (cases pc) simp
    note leq = vfs_lookup_dir [OF v sp] and ceq = vfs_create_dir [OF v sp, of ty] and req = vfs_remove_dir [OF v sp]
    have n: "fs_nodes st n = Some (RamDir p cs)"
      using v ram by (auto simp: dview_def bind_eq_Some_conv ram_only_def elim: dir_view.elims)
    show ?thesis
    proof (cases rest)
      case None
      then have nd: "\<not> is_dot_name name" "\<not> is_dotdot name" using ends_in_dot_split(1) sp less.prems(2) by auto
      show ?thesis
      proof (cases "btree_get name cs")
        case None
        then show ?thesis using leq req \<open>rest = None\<close> nd n by (simp add: dir_step_def remove_node_def)
      next
        case (Some m)
        then show ?thesis using leq ceq req \<open>rest = None\<close> nd n
          by (auto simp: dir_step_def create_node_def remove_node_def dir_exist_def split: option.splits node.splits)
      qed
    next
      case (Some r)
      then have "length r < length path" "\<not> ends_in_dot r" using sp split_path_shorter ends_in_dot_split(2) less.prems(2) by auto
      note IH = less.hyps [OF this(1) _ this(2)]
      from ok v show ?thesis
      proof (cases rule: dir_step_cases [where name = name])
        case (ok m)
        then have "vfs_lookup st n path = vfs_lookup st m r" "vfs_create st n path ty = vfs_create st m r ty"
          "vfs_remove st n path = vfs_remove st m r" using leq ceq req Some by simp_all
        then show ?thesis using IH [OF ok(2)] by (simp only:)
      next
        case err
        then show ?thesis using leq ceq req Some by simp
      qed
    qed
  qed
qed

section \<open>Listing a directory\<close>

text \<open>The listing the loop walks over: the two dot entries, then the children.\<close>

definition listing :: "fs_store \<Rightarrow> (bytes, nat) btree_map \<Rightarrow> (bytes \<times> VfsNodeType) list" where
  "listing st cs = ([DOT], Dir) # ([DOT, DOT], Dir) #
    map (\<lambda>(name, m). (name, case vfs_get_attr st m of Ok a \<Rightarrow> attr_ty a | _ \<Rightarrow> File)) cs"

definition dirent_pair :: "VfsDirEntry \<Rightarrow> bytes \<times> VfsNodeType" where
  "dirent_pair e = (name_as_bytes e, d_type e)"

lemma dirent_dots:
  "\<exists>e. dirent_new [DOT] Dir = Some e \<and> dirent_pair e = ([DOT], Dir)"
  "\<exists>e. dirent_new [DOT, DOT] Dir = Some e \<and> dirent_pair e = ([DOT, DOT], Dir)"
  using dirent_name [of "[DOT]" Dir] dirent_name [of "[DOT, DOT]" Dir]
  by (auto simp: dirent_pair_def DOT_def)

lemma read_dir_loop_spec:
  assumes "\<forall>(name, m) \<in> set cs. length name \<le> 63 \<and> 0 \<notin> set name \<and> fs_nodes st m \<noteq> None"
  shows "\<exists>es. read_dir_loop st idx (drop (idx - 2) cs) k = Ok es \<and>
    map dirent_pair es = take k (drop idx (listing st cs))"
  using assms
proof (induction k arbitrary: idx)
  case (Suc k)
  then obtain es where es: "read_dir_loop st (Suc idx) (drop (Suc idx - 2) cs) k = Ok es"
    "map dirent_pair es = take k (drop (Suc idx) (listing st cs))" by blast
  consider "idx = 0" | "idx = 1" | i where "idx = Suc (Suc i)" by (metis One_nat_def not0_implies_Suc)
  then show ?case
  proof cases
    case 1
    then show ?thesis using es dirent_dots(1) by (auto simp: listing_def numeral_2_eq_2)
  next
    case 2
    then show ?thesis using es dirent_dots(2) by (auto simp: listing_def numeral_2_eq_2)
  next
    case (3 i)
    show ?thesis
    proof (cases "i < length cs")
      case False
      then show ?thesis using 3 by (simp add: listing_def)
    next
      case True
      obtain name m where nm: "cs ! i = (name, m)" by (cases "cs ! i")
      then have ok: "length name \<le> 63" "0 \<notin> set name" "fs_nodes st m \<noteq> None"
        using Suc.prems True nth_mem [of i cs] by auto
      obtain a where a: "vfs_get_attr st m = Ok a" using get_attr_ok [OF ok(3)] by blast
      obtain e where e: "dirent_new name (attr_ty a) = Some e" "dirent_pair e = (name, attr_ty a)"
        using dirent_name [OF ok(1,2), of "attr_ty a"] by (auto simp: dirent_pair_def)
      have d: "drop i cs = (name, m) # drop (Suc i) cs" using True nm by (metis Cons_nth_drop_Suc)
      have "drop idx (listing st cs) = (name, attr_ty a) # drop (Suc idx) (listing st cs)"
        using d a 3 by (simp add: listing_def drop_map)
      then show ?thesis using es e a d 3 by (simp add: numeral_2_eq_2)
    qed
  qed
qed simp

section \<open>The properties\<close>

text \<open>A store with the directory \<open>a\<close> in the root and the file \<open>a/b\<close> in it, for the witnesses.\<close>

definition demo_a :: bytes where "demo_a = [0x61]"
definition demo_ab :: bytes where "demo_ab = [0x61, 0x2F, 0x62]"

definition ok_store :: "(fs_store, AxError) outcome \<Rightarrow> fs_store" where
  "ok_store r = (case r of Ok st \<Rightarrow> st | _ \<Rightarrow> fs_empty)"

definition is_ok :: "('a, 'e) outcome \<Rightarrow> bool" where
  "is_ok r = (case r of Ok _ \<Rightarrow> True | _ \<Rightarrow> False)"

lemma is_okD: "is_ok r \<Longrightarrow> r = Ok (ok_store r)"
  by (cases r) (simp_all add: is_ok_def ok_store_def)

definition demo_root :: fs_store where "demo_root = snd (ramfs_new fs_empty)"
definition demo_dir :: fs_store where "demo_dir = ok_store (vfs_create demo_root 0 demo_a Dir)"
definition demo_file :: fs_store where "demo_file = ok_store (vfs_create demo_dir 0 demo_ab File)"
definition demo_gone :: fs_store where "demo_gone = ok_store (vfs_remove demo_file 0 demo_ab)"

lemma demo_run:
  "vfs_create demo_root 0 demo_a Dir = Ok demo_dir"
  "vfs_create demo_dir 0 demo_ab File = Ok demo_file"
  "vfs_remove demo_file 0 demo_ab = Ok demo_gone"
  unfolding demo_dir_def demo_file_def demo_gone_def by (rule is_okD, code_simp)+

lemma demo_nodes:
  "fs_nodes demo_root 0 = Some (RamDir None [])"
  "fs_nodes demo_dir 0 = Some (RamDir None [([0x61], 1)])"
  "fs_nodes demo_file 0 = Some (RamDir None [([0x61], 1)])"
  "fs_nodes demo_file 1 = Some (RamDir (Some 0) [([0x62], 2)])"
  "fs_nodes demo_file 2 = Some (RamFile [])"
  by code_simp+

lemma demo_reach: "fs_reach demo_dir" "fs_reach demo_file"
proof -
  have "fs_reach demo_root" by (rule fs_reach.ramfs [of "fst (ramfs_new fs_empty)"]) (simp add: demo_root_def)
  moreover have "fs_nodes demo_root 0 \<noteq> None" by code_simp
  ultimately show 1: "fs_reach demo_dir" using demo_run(1) by (rule fs_reach.create)
  show "fs_reach demo_file" by (rule fs_reach.create [OF 1 _ demo_run(2)]) (simp add: demo_nodes)
qed



text \<open>C21: A successful create keeps the invariant of the store and every path that led somewhere still
  leads there. When the path ends in a dot entry nothing changes. Otherwise it led nowhere before and now
  leads to a new node, an empty file or an empty directory whose parent is the directory that got the
  entry, and every other node but that directory is as before.\<close>

theorem create_then_lookup:
  assumes ok: "fs_ok st" and n: "fs_nodes st n \<noteq> None" and c: "vfs_create st n path ty = Ok st'"
  shows "fs_ok st' \<and> (\<forall>k q m. vfs_lookup st k q = Ok m \<and> fs_nodes st k \<noteq> None \<longrightarrow> vfs_lookup st' k q = Ok m) \<and>
    (if ends_in_dot path then st' = st
     else vfs_lookup st n path = Err NotFound \<and> vfs_lookup st' n path = Ok (fs_next st) \<and> fs_nodes st (fs_next st) = None \<and>
      (\<exists>d. (fs_nodes st' (fs_next st) = Some (RamFile []) \<and> ty = File \<or>
            fs_nodes st' (fs_next st) = Some (RamDir (Some d) []) \<and> ty = Dir) \<and>
        (\<forall>k. k \<noteq> d \<and> k \<noteq> fs_next st \<longrightarrow> fs_nodes st' k = fs_nodes st k)))"
proof (cases "ends_in_dot path")
  case True
  then show ?thesis using vfs_create_spec [OF ok n c] ok by simp
next
  case False
  then obtain d p cs name nd where nf: "vfs_lookup st n path = Err NotFound" "vfs_lookup st' n path = Ok (fs_next st)"
    and a: "added st d p cs name nd st'" "new_node ty d = Some nd"
    using vfs_create_spec [OF ok n c] by auto
  note v = added_view [OF ok a]
  have "fs_nodes st' (fs_next st) = Some nd" using v(1) v(4) [of "fs_next st"] by simp
  moreover have "nd = RamFile [] \<and> ty = File \<or> nd = RamDir (Some d) [] \<and> ty = Dir"
    using a(2) by (cases ty) (auto simp: dir_node_new_def)
  moreover have "fs_nodes st (fs_next st) = None" using ok by (simp add: fs_ok_def)
  moreover have "fs_nodes st' k = fs_nodes st k" if "k \<noteq> d" "k \<noteq> fs_next st" for k using v(4) [of k] that by simp
  ultimately have "\<exists>d. (fs_nodes st' (fs_next st) = Some (RamFile []) \<and> ty = File \<or>
            fs_nodes st' (fs_next st) = Some (RamDir (Some d) []) \<and> ty = Dir) \<and>
        (\<forall>k. k \<noteq> d \<and> k \<noteq> fs_next st \<longrightarrow> fs_nodes st' k = fs_nodes st k)" "fs_nodes st (fs_next st) = None" by blast+
  then show ?thesis using False nf added_fs_ok [OF ok a] added_lookup [OF ok a] by auto
qed

theorem create_then_lookup_witness:
  "fs_ok demo_file \<and> vfs_lookup demo_dir 0 demo_ab = Err NotFound \<and> vfs_lookup demo_file 0 demo_a = Ok 1 \<and>
    vfs_lookup demo_file 0 demo_ab = Ok 2"
proof -
  have n: "fs_nodes demo_dir 0 \<noteq> None" by (simp add: demo_nodes)
  have a: "vfs_lookup demo_dir 0 demo_a = Ok 1" "\<not> ends_in_dot demo_ab" by code_simp+
  have x: "fs_next demo_dir = 2" by code_simp
  show ?thesis
    using create_then_lookup [OF fs_reach_ok [OF demo_reach(1)] n demo_run(2)] a n unfolding x by simp
qed

text \<open>C22: A successful remove takes out a node that the path led to and that is no directory with
  entries. Afterwards the path is not found, no path leads anywhere new, and the invariant holds.\<close>

theorem remove_then_lookup:
  assumes ok: "fs_ok st" and n: "fs_nodes st n \<noteq> None" and c: "vfs_remove st n path = Ok st'"
  shows "fs_ok st' \<and> vfs_lookup st' n path = Err NotFound \<and>
    (\<forall>k q m. vfs_lookup st' k q = Ok m \<longrightarrow> vfs_lookup st k q = Ok m) \<and>
    (\<exists>v. vfs_lookup st n path = Ok v \<and> (\<forall>r cv. fs_nodes st v = Some (RamDir r cv) \<longrightarrow> cv = []))"
  using vfs_remove_spec [OF ok n c] dropped_fs_ok [OF ok] dropped_lookup vfs_remove_victim [OF ok n c] by blast

theorem remove_then_lookup_witness:
  "fs_ok demo_gone \<and> vfs_lookup demo_gone 0 demo_ab = Err NotFound"
proof -
  have n: "fs_nodes demo_file 0 \<noteq> None" by (simp add: demo_nodes)
  show ?thesis using remove_then_lookup [OF fs_reach_ok [OF demo_reach(2)] n demo_run(3)] by blast
qed

text \<open>C23: Writing a buffer to a file stores exactly its bytes at the offset, fills a gap with zeros
  and keeps all others, when offset plus length does not wrap; reading the same range back gives the
  buffer, and no other node changes.\<close>

theorem file_write_read:
  assumes f: "fs_nodes st n = Some (RamFile c)" and w: "unat off + length buf < 2 ^ 64"
  shows "\<exists>st' c'. vfs_write_at st n off buf = Ok (length buf, st') \<and> fs_nodes st' = (fs_nodes st)(n \<mapsto> RamFile c') \<and>
    length c' = max (length c) (unat off + length buf) \<and>
    (\<forall>i<length c'. c' ! i = (if unat off \<le> i \<and> i < unat off + length buf then buf ! (i - unat off)
      else if i < length c then c ! i else 0)) \<and>
    vfs_read_at st' n off (length buf) = Ok buf"
proof -
  obtain c' where c': "file_write_at off buf c = Ok (length buf, c')" "length c' = max (length c) (unat off + length buf)"
    "\<forall>i<length c'. c' ! i = (if unat off \<le> i \<and> i < unat off + length buf then buf ! (i - unat off)
      else if i < length c then c ! i else 0)"
    using file_write_at_spec [OF w] by blast
  have "take (length buf) (drop (unat off) c') = buf"
    by (rule nth_equalityI) (use c'(2,3) in auto)
  then have "vfs_read_at (fs_put n (RamFile c') st) n off (length buf) = Ok buf"
    by (simp add: vfs_read_at_def fs_put_def file_read_at_spec [OF w])
  moreover have "vfs_write_at st n off buf = Ok (length buf, fs_put n (RamFile c') st)"
    using f c'(1) by (simp add: vfs_write_at_def)
  ultimately show ?thesis using c'(2,3) unfolding fs_put_def by auto
qed

theorem file_write_read_witness:
  "\<exists>st'. vfs_write_at demo_file 2 3 [1, 2] = Ok (2, st') \<and> vfs_read_at st' 2 3 2 = Ok [1, 2]"
proof -
  have l: "length [1, 2 :: u8] = 2" by simp
  show ?thesis using file_write_read [OF demo_nodes(5), of 3 "[1, 2]", unfolded l] by auto
qed

text \<open>C24: Reading a directory from entry \<open>start\<close> into a buffer of \<open>len\<close> slots gives the slots
  \<open>start\<close> to \<open>start + len\<close> of the listing made of the two dot entries and the children in order, when
  every name fits a directory entry.\<close>

theorem read_dir_lists:
  assumes ok: "fs_ok st" and v: "dview st n = Some (p, cs)"
    and names: "\<forall>name \<in> set (map fst cs). length name \<le> 63 \<and> 0 \<notin> set name"
  shows "\<exists>es. vfs_read_dir st n start len = Ok es \<and> map dirent_pair es = take len (drop start (listing st cs))"
proof -
  have "\<forall>(name, m) \<in> set cs. length name \<le> 63 \<and> 0 \<notin> set name \<and> fs_nodes st m \<noteq> None"
    using ok v names by (fastforce simp: fs_ok_def dir_ok_def entry_ok_def)
  from read_dir_loop_spec [OF this, of start len] show ?thesis
    using v by (auto simp: vfs_read_dir_def dview_def bind_eq_Some_conv max_def split: if_splits)
qed

theorem read_dir_lists_witness:
  "\<exists>es. vfs_read_dir demo_file 1 1 5 = Ok es \<and> map dirent_pair es = [([DOT, DOT], Dir), ([0x62], File)]"
proof -
  have v: "dview demo_file 1 = Some (Some 0, [([0x62], 2)])" by (simp only: dview_def demo_nodes) simp
  have "take 5 (drop 1 (listing demo_file [([0x62], 2)])) = [([DOT, DOT], Dir), ([0x62], File)]" by code_simp
  then show ?thesis using read_dir_lists [OF fs_reach_ok [OF demo_reach(2)] v, of 1 5] by simp
qed

end
