(* ===== verification/Root_Fs.thy ===== *)
theory Root_Fs
  imports Fs_Properties
begin

text \<open>
  The root directory of the file system, \<open>src/modules/axfs/src/root.rs\<close> and \<open>mounts.rs\<close>: a main
  file system and file systems mounted on it, the current directory, and the operations on paths.
  The main file system is any file system of the store. A function that can change the state and
  then still fail returns its outcome together with the state.
\<close>

section \<open>Strings\<close>

definition str :: "string \<Rightarrow> bytes" where
  "str s = map of_char s"

definition trim_slashes :: "bytes \<Rightarrow> bytes" where
  "trim_slashes p = rev (dropWhile (\<lambda>c. c = SLASH) (rev (dropWhile (\<lambda>c. c = SLASH) p)))"

definition starts_with :: "bytes \<Rightarrow> bytes \<Rightarrow> bool" where
  "starts_with pre p \<longleftrightarrow> take (length pre) p = pre"

definition ends_with :: "bytes \<Rightarrow> bytes \<Rightarrow> bool" where
  "ends_with suf p \<longleftrightarrow> starts_with (rev suf) (rev p)"

lemma starts_with_length: "starts_with pre p \<Longrightarrow> length pre \<le> length p"
  unfolding starts_with_def by (metis length_take min.cobounded1)

lemma length_trim_slashes: "length (trim_slashes p) \<le> length p"
  unfolding trim_slashes_def
  using length_dropWhile_le [of "\<lambda>c. c = SLASH" "rev (dropWhile (\<lambda>c. c = SLASH) p)"]
    length_dropWhile_le [of "\<lambda>c. c = SLASH" p] by simp

section \<open>State\<close>

text \<open>A reference to a node is the root directory itself or a node of the store.\<close>

datatype noderef = RootDirectory | VNode nat

record root_state =
  rs_store :: fs_store
  rs_main :: filesystem
  rs_mounts :: "(bytes \<times> filesystem) list"
  rs_cur_dir :: noderef
  rs_cur_path :: bytes

definition root_new :: "filesystem \<Rightarrow> fs_store \<Rightarrow> root_state" where
  "root_new main st = \<lparr> rs_store = st, rs_main = main, rs_mounts = [], rs_cur_dir = RootDirectory, rs_cur_path = [] \<rparr>"

section \<open>Mounts\<close>

definition root_contains :: "root_state \<Rightarrow> bytes \<Rightarrow> bool" where
  "root_contains rs path = list_ex (\<lambda>mp. fst mp = path) (rs_mounts rs)"

definition root_mount :: "bytes \<Rightarrow> filesystem \<Rightarrow> root_state \<Rightarrow> (root_state, AxError) outcome" where
  "root_mount path f rs =
    (if path = [SLASH] then Err InvalidInput
     else if \<not> starts_with_slash path then Err InvalidInput
     else if root_contains rs path then Err InvalidInput
     else bind_outcome (vfs_create (rs_store rs) (f_root (rs_main rs)) path Dir)
       (\<lambda>st1. bind_outcome (vfs_lookup st1 (f_root (rs_main rs)) path)
         (\<lambda>mp. bind_outcome (fs_mount f mp st1)
           (\<lambda>(f', st2). Ok (rs\<lparr> rs_store := st2, rs_mounts := rs_mounts rs @ [(path, f')] \<rparr>)))))"

definition root_umount :: "bytes \<Rightarrow> root_state \<Rightarrow> root_state" where
  "root_umount path rs = rs\<lparr> rs_mounts := filter (\<lambda>mp. fst mp \<noteq> path) (rs_mounts rs) \<rparr>"

text \<open>The loop over the mount points; \<open>i\<close> is the index of the next one. The path of a mount point
  is never empty.\<close>

fun mount_scan :: "bytes \<Rightarrow> (bytes \<times> filesystem) list \<Rightarrow> nat \<Rightarrow> nat \<Rightarrow> nat \<Rightarrow> nat \<times> nat" where
  "mount_scan path [] i idx max_len = (idx, max_len)"
| "mount_scan path ((mp, f) # ms) i idx max_len =
    (if starts_with (tl mp) path \<and> length mp - 1 > max_len then mount_scan path ms (Suc i) i (length mp - 1)
     else mount_scan path ms (Suc i) idx max_len)"

text \<open>The file system a path belongs to and the rest of the path in it.\<close>

function lookup_mounted_fs :: "root_state \<Rightarrow> bytes \<Rightarrow> filesystem \<times> bytes" where
  "lookup_mounted_fs rs path0 = (let path = trim_slashes path0 in
    if starts_with [DOT, SLASH] path then lookup_mounted_fs rs (drop 2 path)
    else (case mount_scan path (rs_mounts rs) 0 0 0 of
      (idx, max_len) \<Rightarrow>
        if max_len = 0 then (rs_main rs, path)
        else (snd (rs_mounts rs ! idx), drop max_len path)))"
  by pat_completeness auto
termination
proof (relation "measure (\<lambda>(_, p). length p)")
  fix rs :: root_state and path0 path :: bytes
  assume "path = trim_slashes path0" "starts_with [DOT, SLASH] path"
  then have "2 \<le> length path" "length path \<le> length path0"
    using length_trim_slashes [of path0] starts_with_length [of "[DOT, SLASH]" path] by simp_all
  then show "((rs, drop 2 path), rs, path0) \<in> measure (\<lambda>(_, p). length p)" by simp
qed simp

declare lookup_mounted_fs.simps [simp del]

section \<open>The root directory as a node\<close>

definition root_get_attr :: "root_state \<Rightarrow> (VfsNodeAttr, AxError) outcome" where
  "root_get_attr rs = vfs_get_attr (rs_store rs) (f_root (rs_main rs))"

definition root_lookup :: "root_state \<Rightarrow> bytes \<Rightarrow> (nat, AxError) outcome" where
  "root_lookup rs path = (case lookup_mounted_fs rs path of (f, rest) \<Rightarrow> vfs_lookup (rs_store rs) (f_root f) rest)"

definition root_create :: "root_state \<Rightarrow> bytes \<Rightarrow> VfsNodeType \<Rightarrow> (root_state, AxError) outcome" where
  "root_create rs path ty = (case lookup_mounted_fs rs path of (f, rest) \<Rightarrow>
    if rest = [] then Ok rs
    else bind_outcome (vfs_create (rs_store rs) (f_root f) rest ty) (\<lambda>st. Ok (rs\<lparr> rs_store := st \<rparr>)))"

definition root_remove :: "root_state \<Rightarrow> bytes \<Rightarrow> (root_state, AxError) outcome" where
  "root_remove rs path = (case lookup_mounted_fs rs path of (f, rest) \<Rightarrow>
    if rest = [] then Err PermissionDenied
    else bind_outcome (vfs_remove (rs_store rs) (f_root f) rest) (\<lambda>st. Ok (rs\<lparr> rs_store := st \<rparr>)))"

text \<open>No node of the RAM and device file systems implements \<open>rename\<close>.\<close>

definition vfs_rename :: "fs_store \<Rightarrow> nat \<Rightarrow> bytes \<Rightarrow> bytes \<Rightarrow> (fs_store, AxError) outcome" where
  "vfs_rename st n src dst = (case fs_nodes st n of None \<Rightarrow> Panic | Some _ \<Rightarrow> Err Unsupported)"

definition root_rename :: "root_state \<Rightarrow> bytes \<Rightarrow> bytes \<Rightarrow> (root_state, AxError) outcome" where
  "root_rename rs src dst = (case lookup_mounted_fs rs src of (f, rest) \<Rightarrow>
    if rest = [] then Err PermissionDenied
    else bind_outcome (vfs_rename (rs_store rs) (f_root f) rest dst) (\<lambda>st. Ok (rs\<lparr> rs_store := st \<rparr>)))"

text \<open>Calls on a reference of either kind.\<close>

fun ref_get_attr :: "root_state \<Rightarrow> noderef \<Rightarrow> (VfsNodeAttr, AxError) outcome" where
  "ref_get_attr rs RootDirectory = root_get_attr rs"
| "ref_get_attr rs (VNode n) = vfs_get_attr (rs_store rs) n"

fun ref_lookup :: "root_state \<Rightarrow> noderef \<Rightarrow> bytes \<Rightarrow> (nat, AxError) outcome" where
  "ref_lookup rs RootDirectory path = root_lookup rs path"
| "ref_lookup rs (VNode n) path = vfs_lookup (rs_store rs) n path"

fun ref_create :: "root_state \<Rightarrow> noderef \<Rightarrow> bytes \<Rightarrow> VfsNodeType \<Rightarrow> (root_state, AxError) outcome" where
  "ref_create rs RootDirectory path ty = root_create rs path ty"
| "ref_create rs (VNode n) path ty =
    bind_outcome (vfs_create (rs_store rs) n path ty) (\<lambda>st. Ok (rs\<lparr> rs_store := st \<rparr>))"

fun ref_remove :: "root_state \<Rightarrow> noderef \<Rightarrow> bytes \<Rightarrow> (root_state, AxError) outcome" where
  "ref_remove rs RootDirectory path = root_remove rs path"
| "ref_remove rs (VNode n) path =
    bind_outcome (vfs_remove (rs_store rs) n path) (\<lambda>st. Ok (rs\<lparr> rs_store := st \<rparr>))"

fun ref_rename :: "root_state \<Rightarrow> noderef \<Rightarrow> bytes \<Rightarrow> bytes \<Rightarrow> (root_state, AxError) outcome" where
  "ref_rename rs RootDirectory src dst = root_rename rs src dst"
| "ref_rename rs (VNode n) src dst =
    bind_outcome (vfs_rename (rs_store rs) n src dst) (\<lambda>st. Ok (rs\<lparr> rs_store := st \<rparr>))"

section \<open>Operations on paths\<close>

definition parent_node_of :: "root_state \<Rightarrow> noderef option \<Rightarrow> bytes \<Rightarrow> noderef" where
  "parent_node_of rs dir path = (if starts_with_slash path then RootDirectory
    else (case dir of Some d \<Rightarrow> d | None \<Rightarrow> rs_cur_dir rs))"

definition absolute_path :: "root_state \<Rightarrow> bytes \<Rightarrow> (bytes, AxError) outcome" where
  "absolute_path rs path = (case canonicalize (if starts_with_slash path then path else rs_cur_path rs @ path) of
     None \<Rightarrow> Panic
   | Some p \<Rightarrow> Ok p)"

definition fs_lookup :: "root_state \<Rightarrow> noderef option \<Rightarrow> bytes \<Rightarrow> (nat, AxError) outcome" where
  "fs_lookup rs dir path =
    (if path = [] then Err NotFound
     else bind_outcome (ref_lookup rs (parent_node_of rs dir path) path)
       (\<lambda>n. if ends_with [SLASH] path
            then bind_outcome (vfs_get_attr (rs_store rs) n) (\<lambda>a. if \<not> attr_is_dir a then Err NotADirectory else Ok n)
            else Ok n))"

definition fs_create_file :: "root_state \<Rightarrow> noderef option \<Rightarrow> bytes \<Rightarrow> (nat, AxError) outcome \<times> root_state" where
  "fs_create_file rs dir path =
    (if path = [] then (Err NotFound, rs)
     else if ends_with [SLASH] path then (Err NotADirectory, rs)
     else let parent = parent_node_of rs dir path in
       (case ref_create rs parent path File of
          Ok rs' \<Rightarrow> (ref_lookup rs' parent path, rs')
        | Err e \<Rightarrow> (Err e, rs)
        | Panic \<Rightarrow> (Panic, rs)))"

definition fs_create_dir :: "root_state \<Rightarrow> noderef option \<Rightarrow> bytes \<Rightarrow> (root_state, AxError) outcome" where
  "fs_create_dir rs dir path = (case fs_lookup rs dir path of
     Ok _ \<Rightarrow> Err AlreadyExists
   | Err e \<Rightarrow> if e = NotFound then ref_create rs (parent_node_of rs dir path) path Dir else Err e
   | Panic \<Rightarrow> Panic)"

definition fs_remove_file :: "root_state \<Rightarrow> noderef option \<Rightarrow> bytes \<Rightarrow> (root_state, AxError) outcome" where
  "fs_remove_file rs dir path =
    bind_outcome (fs_lookup rs dir path)
      (\<lambda>n. bind_outcome (vfs_get_attr (rs_store rs) n)
        (\<lambda>a. if attr_is_dir a then Err IsADirectory
             else if \<not> owner_writable (attr_mode a) then Err PermissionDenied
             else ref_remove rs (parent_node_of rs dir path) path))"

definition fs_remove_dir :: "root_state \<Rightarrow> noderef option \<Rightarrow> bytes \<Rightarrow> (root_state, AxError) outcome" where
  "fs_remove_dir rs dir path =
    (let path_check = trim_slashes path in
     if path = [] then Err NotFound
     else if path_check = [] then Err DirectoryNotEmpty
     else if path_check = [DOT] \<or> path_check = [DOT, DOT] \<or>
        ends_with [SLASH, DOT] path_check \<or> ends_with [SLASH, DOT, DOT] path_check then Err InvalidInput
     else bind_outcome (absolute_path rs path)
       (\<lambda>abs. if root_contains rs abs then Err PermissionDenied
         else bind_outcome (fs_lookup rs dir path)
           (\<lambda>n. bind_outcome (vfs_get_attr (rs_store rs) n)
             (\<lambda>a. if \<not> attr_is_dir a then Err NotADirectory
                  else if \<not> owner_writable (attr_mode a) then Err PermissionDenied
                  else ref_remove rs (parent_node_of rs dir path) path))))"

definition current_dir :: "root_state \<Rightarrow> bytes" where
  "current_dir rs = rs_cur_path rs"

definition set_current_dir :: "root_state \<Rightarrow> bytes \<Rightarrow> (root_state, AxError) outcome" where
  "set_current_dir rs path =
    bind_outcome (absolute_path rs path)
      (\<lambda>p. let abs_path = (if ends_with [SLASH] p then p else p @ [SLASH]) in
        if abs_path = [SLASH] then Ok (rs\<lparr> rs_cur_dir := RootDirectory, rs_cur_path := [SLASH] \<rparr>)
        else bind_outcome (fs_lookup rs None abs_path)
          (\<lambda>n. bind_outcome (vfs_get_attr (rs_store rs) n)
            (\<lambda>a. if \<not> attr_is_dir a then Err NotADirectory
                 else if \<not> owner_executable (attr_mode a) then Err PermissionDenied
                 else Ok (rs\<lparr> rs_cur_dir := VNode n, rs_cur_path := abs_path \<rparr>))))"

text \<open>The destination is removed before the rename itself is tried.\<close>

definition fs_rename :: "root_state \<Rightarrow> bytes \<Rightarrow> bytes \<Rightarrow> (unit, AxError) outcome \<times> root_state" where
  "fs_rename rs old new =
    (let finish = (\<lambda>rs1. case ref_rename rs1 (parent_node_of rs1 None old) old new of
        Ok rs2 \<Rightarrow> (Ok (), rs2)
      | Err e \<Rightarrow> (Err e, rs1)
      | Panic \<Rightarrow> (Panic, rs1))
     in case ref_lookup rs (parent_node_of rs None new) new of
       Ok _ \<Rightarrow> (case fs_remove_file rs None new of
           Ok rs1 \<Rightarrow> finish rs1
         | Err e \<Rightarrow> (Err e, rs)
         | Panic \<Rightarrow> (Panic, rs))
     | Err _ \<Rightarrow> finish rs
     | Panic \<Rightarrow> (Panic, rs))"

section \<open>Setting up\<close>

definition add_device :: "fs_store \<Rightarrow> nat \<Rightarrow> bytes \<Rightarrow> node \<Rightarrow> (fs_store, AxError) outcome" where
  "add_device st n name nd = (case fs_alloc nd st of (m, st1) \<Rightarrow> dev_add st1 n name m)"

definition mount_devfs :: "fs_store \<Rightarrow> (filesystem \<times> fs_store, AxError) outcome" where
  "mount_devfs st = (case devfs_new st of (f, st1) \<Rightarrow>
    bind_outcome (dev_mkdir st1 (f_root f) (str ''foo'')) (\<lambda>(foo_dir, st2).
    bind_outcome (add_device st2 (f_root f) (str ''null'') NullDev) (\<lambda>st3.
    bind_outcome (add_device st3 (f_root f) (str ''zero'') ZeroDev) (\<lambda>st4.
    bind_outcome (add_device st4 foo_dir (str ''bar'') ZeroDev) (\<lambda>st5. Ok (f, st5))))))"

text \<open>The steps that fill a new file system: creating a node, or looking a file up and writing its
  content at offset zero.\<close>

datatype populate_step = MkNode string VfsNodeType | WriteFile string string

fun fs_populate :: "nat \<Rightarrow> populate_step list \<Rightarrow> fs_store \<Rightarrow> (fs_store, AxError) outcome" where
  "fs_populate r [] st = Ok st"
| "fs_populate r (MkNode p ty # es) st = bind_outcome (vfs_create st r (str p) ty) (fs_populate r es)"
| "fs_populate r (WriteFile p content # es) st =
    bind_outcome (vfs_lookup st r (str p)) (\<lambda>n.
      bind_outcome (vfs_write_at st n 0 (str content)) (\<lambda>(_, st1). fs_populate r es st1))"

definition procfs_steps :: "populate_step list" where
  "procfs_steps = [MkNode ''sys'' Dir, MkNode ''sys/net'' Dir, MkNode ''sys/net/core'' Dir,
    MkNode ''sys/net/core/somaxconn'' File, WriteFile ''./sys/net/core/somaxconn'' (''4096'' @ [CHR 0x0A]),
    MkNode ''sys/vm'' Dir, MkNode ''sys/vm/overcommit_memory'' File,
    WriteFile ''./sys/vm/overcommit_memory'' (''0'' @ [CHR 0x0A]),
    MkNode ''self'' Dir, MkNode ''self/stat'' File]"

definition mount_procfs :: "fs_store \<Rightarrow> (filesystem \<times> fs_store, AxError) outcome" where
  "mount_procfs st = (case ramfs_new st of (f, st1) \<Rightarrow>
    bind_outcome (fs_populate (f_root f) procfs_steps st1) (\<lambda>st2. Ok (f, st2)))"

definition sysfs_steps :: "populate_step list" where
  "sysfs_steps = [MkNode ''kernel'' Dir, MkNode ''kernel/mm'' Dir, MkNode ''kernel/mm/transparent_hugepage'' Dir,
    MkNode ''kernel/mm/transparent_hugepage/enabled'' File,
    WriteFile ''./kernel/mm/transparent_hugepage/enabled'' (''always [madvise] never'' @ [CHR 0x0A]),
    MkNode ''devices'' Dir, MkNode ''devices/system'' Dir, MkNode ''devices/system/clocksource'' Dir,
    MkNode ''devices/system/clocksource/clocksource0'' Dir,
    MkNode ''devices/system/clocksource/clocksource0/current_clocksource'' File,
    WriteFile ''devices/system/clocksource/clocksource0/current_clocksource'' (''tsc'' @ [CHR 0x0A])]"

definition mount_sysfs :: "fs_store \<Rightarrow> (filesystem \<times> fs_store, AxError) outcome" where
  "mount_sysfs st = (case ramfs_new st of (f, st1) \<Rightarrow>
    bind_outcome (fs_populate (f_root f) sysfs_steps st1) (\<lambda>st2. Ok (f, st2)))"

text \<open>The features of the build select what is mounted; a failure panics.\<close>

record fs_features =
  feat_devfs :: bool
  feat_ramfs :: bool
  feat_procfs :: bool
  feat_sysfs :: bool

definition mount_if :: "bool \<Rightarrow> string \<Rightarrow> (fs_store \<Rightarrow> (filesystem \<times> fs_store, AxError) outcome) \<Rightarrow>
    root_state \<Rightarrow> root_state option" where
  "mount_if feature path mk rs = (if \<not> feature then Some rs
    else (case bind_outcome (mk (rs_store rs)) (\<lambda>(f, st). root_mount (str path) f (rs\<lparr> rs_store := st \<rparr>)) of
      Ok rs' \<Rightarrow> Some rs'
    | _ \<Rightarrow> None))"

definition init_rootfs :: "fs_features \<Rightarrow> filesystem \<Rightarrow> fs_store \<Rightarrow> root_state option" where
  "init_rootfs fe main st =
    Option.bind (mount_if (feat_devfs fe) ''/dev'' mount_devfs (root_new main st)) (\<lambda>rs1.
    Option.bind (mount_if (feat_ramfs fe) ''/tmp'' (\<lambda>st. Ok (ramfs_new st)) rs1) (\<lambda>rs2.
    Option.bind (mount_if (feat_procfs fe) ''/proc'' mount_procfs rs2) (\<lambda>rs3.
    Option.bind (mount_if (feat_sysfs fe) ''/sys'' mount_sysfs rs3) (\<lambda>rs4.
      Some (rs4\<lparr> rs_cur_dir := RootDirectory, rs_cur_path := [SLASH] \<rparr>)))))"

end
