(* ===== verification/Root_Fs_Proofs.thy ===== *)
theory Root_Fs_Proofs
  imports Root_Fs
begin

text \<open>
  Lemmas about the root directory: setting it up gives a state that satisfies the invariant, every
  operation on paths keeps it, and a path is served by the mount point with the longest match.
\<close>

section \<open>Setting up file systems\<close>

lemma fs_okI:
  assumes "\<And>n. n \<ge> fs_next st \<Longrightarrow> fs_nodes st n = None"
    "\<And>n p cs. dview st n = Some (p, cs) \<Longrightarrow> dir_ok st n p cs"
  shows "fs_ok st"
  using assms by (simp add: fs_ok_def)

lemma fs_okD:
  assumes "fs_ok st"
  shows "n \<ge> fs_next st \<Longrightarrow> fs_nodes st n = None" "fs_nodes st (fs_next st) = None" "dview st (fs_next st) = None"
    "dview st n = Some (p, cs) \<Longrightarrow> dir_ok st n p cs"
    "dview st n = Some (p, cs) \<Longrightarrow> (name, m) \<in> set cs \<Longrightarrow> fs_nodes st m \<noteq> None"
    "dview st n = Some (Some q, cs) \<Longrightarrow> dview st q \<noteq> None"
  using assms by (auto simp: fs_ok_def dview_def dir_ok_def entry_ok_def)

text \<open>A node that no directory has as an entry.\<close>

definition unlinked :: "fs_store \<Rightarrow> nat \<Rightarrow> bool" where
  "unlinked st r \<longleftrightarrow> (\<forall>n p cs name. dview st n = Some (p, cs) \<longrightarrow> (name, r) \<notin> set cs)"

lemma alloc_ok:
  assumes ok: "fs_ok st" and nd: "\<And>q cs. dir_view nd = Some (q, cs) \<Longrightarrow> cs = [] \<and> (\<forall>p. q = Some p \<longrightarrow> dview st p \<noteq> None)"
    and a: "fs_alloc nd st = (m, st')"
  shows "fs_ok st'" "m = fs_next st" "fs_nodes st' = (fs_nodes st)(m \<mapsto> nd)" "fs_next st' = Suc (fs_next st)"
    "fs_nodes st m = None" "unlinked st' m"
proof -
  show m: "m = fs_next st" and n: "fs_nodes st' = (fs_nodes st)(m \<mapsto> nd)" and x: "fs_next st' = Suc (fs_next st)"
    using a by (auto simp: fs_alloc_def)
  show new: "fs_nodes st m = None" using fs_okD(2) [OF ok] m by simp
  have v: "dview st' k = (if k = m then dir_view nd else dview st k)" for k by (simp add: dview_def n)
  have keep: "dview st k \<noteq> None \<Longrightarrow> k \<noteq> m" "fs_nodes st k \<noteq> None \<Longrightarrow> k \<noteq> m" for k using new by (auto simp: dview_def)
  have entry: "entry_ok st' k y z" if "entry_ok st k y z" for k y z
  proof -
    have "z \<noteq> m" using that keep by (auto simp: entry_ok_def)
    then show ?thesis using that by (simp add: entry_ok_def v n)
  qed
  have dir: "dir_ok st' k p cs" if "dir_ok st k p cs" for k p cs
  proof -
    have "dview st' q \<noteq> None" if "p = Some q" for q
      using that \<open>dir_ok st k p cs\<close> keep(1) [of q] by (simp add: dir_ok_def v)
    then show ?thesis using that entry by (simp add: dir_ok_def)
  qed
  show "fs_ok st'"
  proof (rule fs_okI)
    show "fs_nodes st' k = None" if "k \<ge> fs_next st'" for k using that fs_okD(1) [OF ok, of k] by (simp add: x n m)
    show "dir_ok st' k p cs" if k: "dview st' k = Some (p, cs)" for k p cs
    proof (cases "k = m")
      case True
      then have "dir_view nd = Some (p, cs)" using k by (simp add: v)
      from nd [OF this] have "cs = []" and p: "\<And>q. p = Some q \<Longrightarrow> dview st q \<noteq> None" by blast+
      moreover have "dview st' q \<noteq> None" if "p = Some q" for q using p [OF that] keep(1) [of q] by (simp add: v)
      ultimately show ?thesis by (simp add: dir_ok_def)
    next
      case False
      then have "dview st k = Some (p, cs)" using k by (simp add: v)
      from dir [OF fs_okD(4) [OF ok this]] show ?thesis .
    qed
  qed
  have "(x, m) \<notin> set cs" if "dview st' k = Some (p, cs)" for k p cs x
    using that nd fs_okD(5) [OF ok, of k p cs x m] new by (auto simp: v split: if_splits)
  then show "unlinked st' m" by (auto simp: unlinked_def)
qed

text \<open>Replacing the entries of a device directory.\<close>

lemma dev_add_ok:
  assumes ok: "fs_ok st" and a: "dev_add st n name m = Ok st'" and nm: "proper_name name"
    and m: "fs_nodes st m \<noteq> None" and v: "\<And>q cs. dview st m = Some (q, cs) \<Longrightarrow> q = Some n"
  shows "fs_ok st'" "fs_next st' = fs_next st" "fs_nodes st' k = None \<longleftrightarrow> fs_nodes st k = None"
    "k \<noteq> n \<Longrightarrow> fs_nodes st' k = fs_nodes st k" "unlinked st r \<Longrightarrow> r \<noteq> m \<Longrightarrow> unlinked st' r"
proof -
  obtain p cs where n: "fs_nodes st n = Some (DevDir p cs)" and st': "st' = fs_put n (DevDir p (btree_insert name m cs)) st"
    using a by (auto simp: dev_add_def split: option.splits node.splits)
  have v0: "dview st n = Some (p, cs)" by (simp add: dview_def n)
  have v': "dview st' k = (if k = n then Some (p, btree_insert name m cs) else dview st k)" for k
    by (simp add: st' dview_def fs_put_def)
  have n': "fs_nodes st' k = None \<longleftrightarrow> fs_nodes st k = None" for k by (auto simp: st' fs_put_def n)
  show "fs_nodes st' k = None \<longleftrightarrow> fs_nodes st k = None" by (rule n')
  show x: "fs_next st' = fs_next st" by (simp add: st' fs_put_def)
  show "k \<noteq> n \<Longrightarrow> fs_nodes st' k = fs_nodes st k" by (simp add: st' fs_put_def)
  have entry: "entry_ok st' k y z" if "entry_ok st k y z" for k y z
    using that v0 by (auto simp: entry_ok_def v' n' split: if_splits)
  have live: "dview st k \<noteq> None \<Longrightarrow> dview st' k \<noteq> None" for k by (simp add: v')
  have new: "entry_ok st n name m" using nm m v by (auto simp: entry_ok_def)
  note d = fs_okD(4) [OF ok]
  show "fs_ok st'"
  proof (rule fs_okI)
    show "fs_nodes st' k = None" if "k \<ge> fs_next st'" for k using that fs_okD(1) [OF ok, of k] by (simp add: x n')
    show "dir_ok st' k q ds" if k: "dview st' k = Some (q, ds)" for k q ds
    proof (cases "k = n")
      case False
      then have "dir_ok st k q ds" using k d by (simp add: v')
      then show ?thesis using entry live by (auto simp: dir_ok_def)
    next
      case True
      then have q: "q = p" "ds = btree_insert name m cs" using k by (simp_all add: v')
      have "dir_ok st n p cs" using d [OF v0] .
      then show ?thesis
        using entry live new set_btree_insert [of cs name m] unfolding q True
        by (auto simp: dir_ok_def btree_ok_insert)
    qed
  qed
  show "unlinked st' r" if "unlinked st r" "r \<noteq> m"
  proof -
    have "(x, r) \<notin> set (btree_insert name m cs)" for x
      using that v0 set_btree_insert [of cs name m] fs_okD(4) [OF ok v0] by (auto simp: unlinked_def dir_ok_def)
    then show ?thesis using that(1) by (auto simp: unlinked_def v' split: if_splits)
  qed
qed

text \<open>What setting up a file system keeps of the rest of the store: nodes stay, and directories
  without a link stay so.\<close>

definition grows :: "fs_store \<Rightarrow> fs_store \<Rightarrow> bool" where
  "grows st st' \<longleftrightarrow> fs_ok st' \<and> fs_next st \<le> fs_next st' \<and> (\<forall>k. fs_nodes st k \<noteq> None \<longrightarrow> fs_nodes st' k \<noteq> None) \<and>
    (\<forall>r. r < fs_next st \<and> unlinked st r \<longrightarrow> unlinked st' r)"

lemma grows_refl: "fs_ok st \<Longrightarrow> grows st st"
  by (simp add: grows_def)

lemma grows_trans: "grows a b \<Longrightarrow> grows b c \<Longrightarrow> grows a c"
  unfolding grows_def by (meson le_trans less_le_trans)

lemma live_less: "fs_ok st \<Longrightarrow> fs_nodes st k \<noteq> None \<Longrightarrow> k < fs_next st"
  using fs_okD(1) [of st k] by (metis not_le)

lemma alloc_grows:
  assumes "fs_ok st" "\<And>q cs. dir_view nd = Some (q, cs) \<Longrightarrow> cs = [] \<and> (\<forall>p. q = Some p \<longrightarrow> dview st p \<noteq> None)"
    "fs_alloc nd st = (m, st')"
  shows "grows st st'" "fs_nodes st' m = Some nd" "unlinked st' m" "m = fs_next st"
proof -
  note a = alloc_ok [OF assms]
  have v: "dview st' k = (if k = m then dir_view nd else dview st k)" for k by (simp add: dview_def a(3))
  have "unlinked st' r" if "unlinked st r" for r
    using that assms(2) by (auto simp: unlinked_def v split: if_splits)
  then show "grows st st'" using a by (simp add: grows_def)
  show "fs_nodes st' m = Some nd" "unlinked st' m" "m = fs_next st" using a by simp_all
qed

lemma dev_add_grows:
  assumes g: "grows st st1" and a: "dev_add st1 n name m = Ok st2" and nm: "proper_name name"
    and m: "fs_nodes st1 m \<noteq> None" "fs_next st \<le> m" and v: "\<And>q cs. dview st1 m = Some (q, cs) \<Longrightarrow> q = Some n"
  shows "grows st st2"
proof -
  have ok: "fs_ok st1" using g by (simp add: grows_def)
  note a' = dev_add_ok [OF ok a nm m(1) v]
  have "unlinked st2 r" if "r < fs_next st" "unlinked st r" for r
  proof (rule a'(5))
    show "unlinked st1 r" using g that by (simp add: grows_def)
    show "r \<noteq> m" using that(1) m(2) by simp
  qed
  then show ?thesis using g a'(1-3) by (simp add: grows_def)
qed

lemma str_proper: "proper_name (str ''foo'')" "proper_name (str ''null'')" "proper_name (str ''zero'')" "proper_name (str ''bar'')"
  by code_simp+

lemma create_grows:
  assumes ok: "fs_ok st" and n: "fs_nodes st n \<noteq> None" and c: "vfs_create st n path ty = Ok st'"
  shows "grows st st'"
proof -
  consider "st' = st" | d p cs name nd where "added st d p cs name nd st'" "new_node ty d = Some nd"
    using vfs_create_cases [OF ok n c] by blast
  then show ?thesis
  proof cases
    case 2
    note v = added_view [OF ok 2]
    have d: "dir_ok st d p cs" using fs_okD(4) [OF ok v(3)] .
    have "unlinked st' r" if r: "unlinked st r" "r < fs_next st" for r
    proof -
      have "(x, r) \<notin> set (btree_insert name (fs_next st) cs)" for x
        using r v(3) d set_btree_insert [of cs name "fs_next st"] by (auto simp: unlinked_def dir_ok_def)
      then show ?thesis using r(1) by (auto simp: unlinked_def v(5) split: if_splits)
    qed
    moreover have "fs_next st' = Suc (fs_next st)" using 2(1) by (simp add: added_def)
    ultimately show ?thesis using added_fs_ok [OF ok 2] by (auto simp: grows_def v(4))
  qed (simp add: grows_refl ok)
qed

lemma put_file_grows:
  assumes "fs_ok st" "fs_nodes st n = Some (RamFile c)"
  shows "grows st (fs_put n (RamFile c') st)"
  using put_file_ok [OF assms] put_file_view [OF assms(2)] by (simp add: grows_def unlinked_def)

lemma write_grows:
  assumes "fs_ok st" "vfs_write_at st n off buf = Ok (k, st')"
  shows "grows st st'"
  using assms put_file_grows grows_refl
  by (auto simp: vfs_write_at_def bind_outcome_eq_Ok split: option.splits node.splits)

lemma populate_grows:
  "fs_ok st \<Longrightarrow> fs_nodes st r \<noteq> None \<Longrightarrow> fs_populate r es st = Ok st' \<Longrightarrow> grows st st'"
proof (induction r es st arbitrary: st' rule: fs_populate.induct)
  case (1 r st)
  then show ?case by (simp add: grows_refl)
next
  case (2 r p ty es st)
  then obtain st1 where c: "vfs_create st r (str p) ty = Ok st1" and r: "fs_populate r es st1 = Ok st'"
    by (auto simp: bind_outcome_eq_Ok)
  have g: "grows st st1" using create_grows [OF 2(2,3) c] .
  then have "fs_ok st1" "fs_nodes st1 r \<noteq> None" using 2(3) unfolding grows_def by blast+
  from 2(1) [OF this r] show ?case using grows_trans [OF g] by blast
next
  case (3 r p content es st)
  then obtain n k st1 where w: "vfs_write_at st n 0 (str content) = Ok (k, st1)" and r: "fs_populate r es st1 = Ok st'"
    and e: "vfs_lookup st r (str p) = Ok n"
    by (auto simp: bind_outcome_eq_Ok)
  have g: "grows st st1" using write_grows [OF 3(2) w] .
  then have "fs_ok st1" "fs_nodes st1 r \<noteq> None" using 3(3) unfolding grows_def by blast+
  from 3(1) [OF this r] show ?case using grows_trans [OF g] by blast
qed

text \<open>The result of setting up a file system.\<close>

definition fresh_fs :: "fs_store \<Rightarrow> filesystem \<Rightarrow> fs_store \<Rightarrow> bool" where
  "fresh_fs st f st' \<longleftrightarrow> grows st st' \<and> fs_nodes st' (f_root f) \<noteq> None \<and> unlinked st' (f_root f) \<and>
    f_parent f = None \<and> fs_next st \<le> f_root f \<and> f_root f < fs_next st'"

lemma fresh_fs_grows: "fresh_fs st f st1 \<Longrightarrow> grows st1 st2 \<Longrightarrow> fresh_fs st f st2"
  unfolding fresh_fs_def using grows_trans [of st st1 st2] by (auto simp: grows_def)

lemma new_fresh:
  assumes "fs_ok st"
  shows "ramfs_new st = (f, st') \<Longrightarrow> fresh_fs st f st'"
    "devfs_new st = (f, st') \<Longrightarrow> fresh_fs st f st' \<and> (\<exists>cs. fs_nodes st' (f_root f) = Some (DevDir None cs))"
  using alloc_grows [OF assms, of "dir_node_new None"] alloc_grows [OF assms, of "dev_dir_new None"] alloc_ok(4) [OF assms]
  by (auto simp: ramfs_new_def devfs_new_def fresh_fs_def dir_node_new_def dev_dir_new_def fs_alloc_def split: prod.splits)

lemma add_device_grows:
  assumes ok: "fs_ok st" and d: "dir_view nd = None" and add: "add_device st n name nd = Ok st2" and nm: "proper_name name"
  shows "grows st st2"
proof -
  obtain m st1 where al: "fs_alloc nd st = (m, st1)" and a: "dev_add st1 n name m = Ok st2"
    using add by (auto simp: add_device_def split: prod.splits)
  note g = alloc_grows [OF ok _ al, unfolded d]
  have m: "fs_nodes st1 m = Some nd" using g by simp
  have v: "dview st1 m = None" by (simp add: dview_def m d)
  show ?thesis using dev_add_grows [OF g(1) a nm] g(4) m v by simp
qed

lemma mkdir_grows:
  assumes ok: "fs_ok st" and n: "fs_nodes st n = Some (DevDir p cs)" and nm: "proper_name name"
    and a: "dev_mkdir st n name = Ok (m, st2)"
  shows "grows st st2"
proof -
  obtain st1 where al: "fs_alloc (dev_dir_new (Some n)) st = (m, st1)" and add: "dev_add st1 n name m = Ok st2"
    using a by (auto simp: dev_mkdir_def bind_outcome_eq_Ok split: prod.splits)
  have d: "dview st n \<noteq> None" by (simp add: dview_def n)
  have "ds = [] \<and> (\<forall>p. q = Some p \<longrightarrow> dview st p \<noteq> None)" if "dir_view (dev_dir_new (Some n)) = Some (q, ds)" for q ds
    using that d by (auto simp: dev_dir_new_def)
  from alloc_grows [OF ok this al]
  have g: "grows st st1" "fs_nodes st1 m = Some (dev_dir_new (Some n))" "m = fs_next st" by simp_all
  have v: "dview st1 m = Some (Some n, [])" by (simp add: dview_def g(2) dev_dir_new_def)
  show ?thesis
  proof (rule dev_add_grows [OF g(1) add nm])
    show "fs_nodes st1 m \<noteq> None" by (simp only: g(2)) simp
    show "fs_next st \<le> m" by (simp only: g(3))
    show "q = Some n" if "dview st1 m = Some (q, ds)" for q ds using that v by simp
  qed
qed

lemma mount_devfs_fresh:
  assumes ok: "fs_ok st" and m: "mount_devfs st = Ok (f, st')"
  shows "fresh_fs st f st'"
proof -
  obtain foo st1 st2 st3 st4 where n: "devfs_new st = (f, st1)"
    and d: "dev_mkdir st1 (f_root f) (str ''foo'') = Ok (foo, st2)"
    and add: "add_device st2 (f_root f) (str ''null'') NullDev = Ok st3"
      "add_device st3 (f_root f) (str ''zero'') ZeroDev = Ok st4" "add_device st4 foo (str ''bar'') ZeroDev = Ok st'"
    using m by (auto simp: mount_devfs_def bind_outcome_eq_Ok split: prod.splits)
  have f1: "fresh_fs st f st1" and "\<exists>cs. fs_nodes st1 (f_root f) = Some (DevDir None cs)"
    using new_fresh(2) [OF ok n] by blast+
  then have g1: "grows st1 st2" using mkdir_grows [OF _ _ str_proper(1) d] by (auto simp: fresh_fs_def grows_def)
  have g2: "grows st2 st3" using add_device_grows [OF _ _ add(1) str_proper(2)] g1 by (simp add: grows_def)
  have g3: "grows st3 st4" using add_device_grows [OF _ _ add(2) str_proper(3)] g2 by (simp add: grows_def)
  have g4: "grows st4 st'" using add_device_grows [OF _ _ add(3) str_proper(4)] g3 by (simp add: grows_def)
  show ?thesis using fresh_fs_grows [OF f1] grows_trans g1 g2 g3 g4 by blast
qed

lemma mount_ram_fresh:
  assumes ok: "fs_ok st"
  shows "mount_procfs st = Ok (f, st') \<Longrightarrow> fresh_fs st f st'" "mount_sysfs st = Ok (f, st') \<Longrightarrow> fresh_fs st f st'"
proof -
  have *: "fresh_fs st f st'" if "ramfs_new st = (f, st1)" "fs_populate (f_root f) es st1 = Ok st'" for st1 es
  proof -
    have f: "fresh_fs st f st1" using new_fresh(1) [OF ok that(1)] .
    then have "grows st1 st'" using populate_grows [OF _ _ that(2)] by (simp add: fresh_fs_def grows_def)
    then show ?thesis using fresh_fs_grows [OF f] by blast
  qed
  show "mount_procfs st = Ok (f, st') \<Longrightarrow> fresh_fs st f st'" "mount_sysfs st = Ok (f, st') \<Longrightarrow> fresh_fs st f st'"
    using * by (auto simp: mount_procfs_def mount_sysfs_def bind_outcome_eq_Ok split: prod.splits)
qed

lemma fs_mount_grows:
  assumes ok: "fs_ok st" and u: "unlinked st (f_root f)" and r: "fs_nodes st (f_root f) = Some nd"
    and par: "f_parent f = None" and mp: "fs_nodes st mp \<noteq> None" and m: "fs_mount f mp st = Ok (f', st')"
  shows "grows st st'" "f_root f' = f_root f"
proof -
  define q where "q = vfs_parent st mp"
  have st': "st' = fs_put (f_root f) (set_parent q nd) st" and f': "f_root f' = f_root f"
    using m r par by (auto simp: fs_mount_def q_def split: option.splits)
  show "f_root f' = f_root f" by (rule f')
  have n': "fs_nodes st' k = None \<longleftrightarrow> fs_nodes st k = None" for k by (auto simp: st' fs_put_def r)
  have v': "dview st' k = (if k = f_root f then map_option (\<lambda>(_, cs). (q, cs)) (dview st k) else dview st k)" for k
    by (cases nd) (auto simp: st' fs_put_def dview_def r)
  have live: "dview st' k = None \<longleftrightarrow> dview st k = None" for k by (simp add: v')
  have q: "dview st p \<noteq> None" if "q = Some p" for p
  proof -
    have "\<exists>cs. dview st mp = Some (Some p, cs)"
      using that mp by (auto simp: q_def vfs_parent_def dview_def split: option.splits node.splits)
    then show ?thesis using fs_okD(6) [OF ok] by blast
  qed
  have entries: "entry_ok st' k x z" if "dview st k = Some (p, cs)" "(x, z) \<in> set cs" for k p cs x z
  proof -
    have "entry_ok st k x z" using fs_okD(4) [OF ok that(1)] that(2) by (simp add: dir_ok_def)
    moreover have "z \<noteq> f_root f" using u that by (auto simp: unlinked_def)
    ultimately show ?thesis by (simp add: entry_ok_def v' n')
  qed
  have dir: "dir_ok st' k p cs" if k: "dview st' k = Some (p, cs)" for k p cs
  proof -
    obtain p0 where v: "dview st k = Some (p0, cs)" and p: "p = p0 \<or> p = q"
      using k by (cases "k = f_root f") (auto simp: v')
    have d: "dir_ok st k p0 cs" using fs_okD(4) [OF ok v] .
    then have "dview st' y \<noteq> None" if "p = Some y" for y
      using p that q [of y] by (auto simp: dir_ok_def live)
    then show ?thesis using d entries [OF v] by (simp add: dir_ok_def)
  qed
  have "fs_next st' = fs_next st" by (simp add: st' fs_put_def)
  moreover from this have "fs_ok st'" using dir fs_okD(1) [OF ok] by (auto intro!: fs_okI simp: n')
  moreover have "unlinked st' x" if "unlinked st x" for x
    using that by (auto simp: unlinked_def v' split: if_splits)
  ultimately show "grows st st'" by (simp add: grows_def n')
qed

definition mounts_ok :: "root_state \<Rightarrow> bool" where
  "mounts_ok rs \<longleftrightarrow> fs_ok (rs_store rs) \<and> fs_nodes (rs_store rs) (f_root (rs_main rs)) \<noteq> None \<and>
    (\<forall>(p, f) \<in> set (rs_mounts rs). fs_nodes (rs_store rs) (f_root f) \<noteq> None \<and> starts_with_slash p \<and> p \<noteq> [SLASH])"

lemma mounts_ok_grows:
  assumes "mounts_ok rs" "grows (rs_store rs) st"
  shows "mounts_ok (rs\<lparr> rs_store := st \<rparr>)"
  using assms by (fastforce simp: mounts_ok_def grows_def)

lemma root_mount_ok:
  assumes ok: "mounts_ok (rs\<lparr> rs_store := st \<rparr>)" and f: "fresh_fs (rs_store rs) f st"
    and m: "root_mount path f (rs\<lparr> rs_store := st \<rparr>) = Ok rs'"
  shows "mounts_ok rs'" "rs_main rs' = rs_main rs" "grows st (rs_store rs')"
proof -
  let ?r = "f_root (rs_main rs)"
  obtain st1 n f1 st2 where p: "path \<noteq> [SLASH]" "starts_with_slash path" and c: "vfs_create st ?r path Dir = Ok st1"
    and l: "vfs_lookup st1 ?r path = Ok n" and fm: "fs_mount f n st1 = Ok (f1, st2)"
    and rs': "rs' = rs\<lparr> rs_store := st2, rs_mounts := rs_mounts rs @ [(path, f1)] \<rparr>"
    using m by (auto simp: root_mount_def bind_outcome_eq_Ok split: if_splits)
  have live: "fs_ok st" "fs_nodes st ?r \<noteq> None" using ok by (simp_all add: mounts_ok_def)
  have g1: "grows st st1" using create_grows [OF live c] .
  then have f1: "fresh_fs (rs_store rs) f st1" using fresh_fs_grows [OF f] by blast
  have ok1: "fs_ok st1" "fs_nodes st1 ?r \<noteq> None" using g1 live by (auto simp: grows_def)
  have n: "fs_nodes st1 n \<noteq> None" using lookup_valid [OF ok1] l by blast
  obtain nd where nd: "fs_nodes st1 (f_root f) = Some nd" using f1 by (auto simp: fresh_fs_def)
  have g2: "grows st1 st2" "f_root f1 = f_root f"
    using fs_mount_grows [OF ok1(1) _ nd _ n fm] f1 by (auto simp: fresh_fs_def)
  show g: "grows st (rs_store rs')" using grows_trans [OF g1 g2(1)] rs' by simp
  have "fs_nodes st2 (f_root f1) \<noteq> None" using g2 nd by (simp add: grows_def)
  then show "mounts_ok rs'"
    using mounts_ok_grows [OF ok, of st2] g p rs' by (simp add: mounts_ok_def)
  show "rs_main rs' = rs_main rs" using rs' by simp
qed

lemma mount_if_ok:
  assumes ok: "mounts_ok rs" and mk: "\<And>f st'. mk (rs_store rs) = Ok (f, st') \<Longrightarrow> fresh_fs (rs_store rs) f st'"
    and m: "mount_if b path mk rs = Some rs'"
  shows "mounts_ok rs'"
proof (cases b)
  case True
  then obtain f st where f: "mk (rs_store rs) = Ok (f, st)" and r: "root_mount (str path) f (rs\<lparr> rs_store := st \<rparr>) = Ok rs'"
    using m by (auto simp: mount_if_def bind_outcome_eq_Ok split: outcome.splits)
  have "mounts_ok (rs\<lparr> rs_store := st \<rparr>)" using mounts_ok_grows [OF ok] mk [OF f] by (simp add: fresh_fs_def)
  from root_mount_ok(1) [OF this mk [OF f] r] show ?thesis .
qed (use m ok in \<open>simp add: mount_if_def\<close>)

section \<open>The invariant of the root state\<close>

text \<open>The path of the current directory is absolute, has proper components only and ends in a slash.\<close>

definition dir_path :: "bytes list \<Rightarrow> bytes" where
  "dir_path cs = SLASH # concat (map (\<lambda>c. c @ [SLASH]) cs)"

definition cwd_ok :: "bytes \<Rightarrow> bool" where
  "cwd_ok p \<longleftrightarrow> (\<exists>cs. (\<forall>c\<in>set cs. proper_name c) \<and> p = dir_path cs)"

fun ref_ok :: "root_state \<Rightarrow> noderef \<Rightarrow> bool" where
  "ref_ok rs RootDirectory = True"
| "ref_ok rs (VNode n) = (fs_nodes (rs_store rs) n \<noteq> None)"

definition root_ok :: "root_state \<Rightarrow> bool" where
  "root_ok rs \<longleftrightarrow> mounts_ok rs \<and> ref_ok rs (rs_cur_dir rs) \<and> cwd_ok (rs_cur_path rs)"

lemma init_rootfs_ok:
  assumes ok: "fs_ok st" and main: "fs_nodes st (f_root main) \<noteq> None" and i: "init_rootfs fe main st = Some rs"
  shows "root_ok rs"
proof -
  obtain rs1 rs2 rs3 rs4 where m: "mount_if (feat_devfs fe) ''/dev'' mount_devfs (root_new main st) = Some rs1"
    "mount_if (feat_ramfs fe) ''/tmp'' (\<lambda>st. Ok (ramfs_new st)) rs1 = Some rs2"
    "mount_if (feat_procfs fe) ''/proc'' mount_procfs rs2 = Some rs3"
    "mount_if (feat_sysfs fe) ''/sys'' mount_sysfs rs3 = Some rs4"
    and rs: "rs = rs4\<lparr> rs_cur_dir := RootDirectory, rs_cur_path := [SLASH] \<rparr>"
    using i by (auto simp: init_rootfs_def bind_eq_Some_conv)
  have store: "mounts_ok r \<Longrightarrow> fs_ok (rs_store r)" for r by (simp add: mounts_ok_def)
  have 0: "mounts_ok (root_new main st)" using ok main by (simp add: mounts_ok_def root_new_def)
  have 1: "mounts_ok rs1" by (rule mount_if_ok [OF 0 _ m(1)]) (rule mount_devfs_fresh [OF store [OF 0]])
  have 2: "mounts_ok rs2" by (rule mount_if_ok [OF 1 _ m(2)]) (simp add: new_fresh(1) [OF store [OF 1]])
  have 3: "mounts_ok rs3" by (rule mount_if_ok [OF 2 _ m(3)]) (rule mount_ram_fresh(1) [OF store [OF 2]])
  have 4: "mounts_ok rs4" by (rule mount_if_ok [OF 3 _ m(4)]) (rule mount_ram_fresh(2) [OF store [OF 3]])
  have "cwd_ok [SLASH]" unfolding cwd_ok_def by (rule exI [of _ "[]"]) (simp add: dir_path_def)
  then show ?thesis using 4 by (simp add: root_ok_def mounts_ok_def rs)
qed

text \<open>Changes of the store that keep every node.\<close>

definition keeps :: "fs_store \<Rightarrow> fs_store \<Rightarrow> bool" where
  "keeps st st' \<longleftrightarrow> fs_ok st' \<and> (\<forall>k. fs_nodes st k \<noteq> None \<longrightarrow> fs_nodes st' k \<noteq> None)"

lemma keeps_root_ok:
  assumes "root_ok rs" "keeps (rs_store rs) st"
  shows "root_ok (rs\<lparr> rs_store := st \<rparr>)"
proof -
  have "mounts_ok rs" using assms(1) by (simp add: root_ok_def)
  then have "mounts_ok (rs\<lparr> rs_store := st \<rparr>)" using assms(2) by (fastforce simp: mounts_ok_def keeps_def)
  moreover have "ref_ok (rs\<lparr> rs_store := st \<rparr>) (rs_cur_dir rs)"
    using assms by (cases "rs_cur_dir rs") (simp_all add: root_ok_def keeps_def)
  ultimately show ?thesis using assms(1) by (simp add: root_ok_def)
qed

lemma create_keeps:
  "fs_ok st \<Longrightarrow> fs_nodes st n \<noteq> None \<Longrightarrow> vfs_create st n path ty = Ok st' \<Longrightarrow> keeps st st'"
  using create_grows [of st n path ty st'] by (simp add: grows_def keeps_def)

lemma remove_keeps:
  assumes "fs_ok st" "fs_nodes st n \<noteq> None" "vfs_remove st n path = Ok st'"
  shows "keeps st st'"
proof -
  obtain d p cs name where a: "dropped st d p cs name st'" using vfs_remove_spec [OF assms] by blast
  show ?thesis using dropped_fs_ok [OF assms(1) a] by (simp add: keeps_def dropped_view(3) [OF a])
qed

section \<open>The longest match\<close>

text \<open>How much of a path a mount point matches.\<close>

definition match_len :: "bytes \<Rightarrow> bytes \<times> filesystem \<Rightarrow> nat" where
  "match_len path mp = (if starts_with (tl (fst mp)) path then length (fst mp) - 1 else 0)"

lemma starts_with_append: "starts_with p (p @ r)"
  by (simp add: starts_with_def)

lemma mount_scan_Cons:
  "mount_scan path (m # ms) i idx ml =
    (if match_len path m > ml then mount_scan path ms (Suc i) i (match_len path m)
     else mount_scan path ms (Suc i) idx ml)"
  by (cases m) (auto simp: match_len_def)

lemma mount_scan_spec:
  "mount_scan path ms i idx ml = (idx', ml') \<Longrightarrow> ml \<le> ml' \<and> (\<forall>m\<in>set ms. match_len path m \<le> ml') \<and>
    (ml' = ml \<and> idx' = idx \<or> (\<exists>j<length ms. idx' = i + j \<and> match_len path (ms ! j) = ml' \<and> ml < ml' \<and>
      (\<forall>k<j. match_len path (ms ! k) < ml')))"
proof (induction ms arbitrary: i idx ml)
  case (Cons m ms)
  show ?case
  proof (cases "match_len path m > ml")
    case True
    then have "mount_scan path ms (Suc i) i (match_len path m) = (idx', ml')" using Cons.prems by (simp add: mount_scan_Cons)
    from Cons.IH [OF this] consider "ml' = match_len path m" "idx' = i" "\<forall>m\<in>set ms. match_len path m \<le> ml'"
      | j where "j < length ms" "idx' = Suc i + j" "match_len path (ms ! j) = ml'" "match_len path m < ml'"
        "\<forall>k<j. match_len path (ms ! k) < ml'" "\<forall>m\<in>set ms. match_len path m \<le> ml'" by blast
    then show ?thesis
    proof cases
      case 1
      then show ?thesis using True by auto
    next
      case (2 j)
      then have "match_len path ((m # ms) ! k) < ml'" if "k < Suc j" for k using that by (cases k) auto
      then have "\<exists>j<length (m # ms). idx' = i + j \<and> match_len path ((m # ms) ! j) = ml' \<and> ml < ml' \<and>
        (\<forall>k<j. match_len path ((m # ms) ! k) < ml')" using 2 True by (intro exI [of _ "Suc j"]) auto
      then show ?thesis using 2(4,6) True by auto
    qed
  next
    case False
    then have "mount_scan path ms (Suc i) idx ml = (idx', ml')" using Cons.prems by (simp add: mount_scan_Cons)
    from Cons.IH [OF this] consider "ml' = ml" "idx' = idx" "\<forall>m\<in>set ms. match_len path m \<le> ml'"
      | j where "j < length ms" "idx' = Suc i + j" "match_len path (ms ! j) = ml'" "ml < ml'"
        "\<forall>k<j. match_len path (ms ! k) < ml'" "\<forall>m\<in>set ms. match_len path m \<le> ml'" by blast
    then show ?thesis
    proof cases
      case 1
      then show ?thesis using False by auto
    next
      case (2 j)
      then have "match_len path ((m # ms) ! k) < ml'" if "k < Suc j" for k using that False by (cases k) auto
      then have "\<exists>j<length (m # ms). idx' = i + j \<and> match_len path ((m # ms) ! j) = ml' \<and> ml < ml' \<and>
        (\<forall>k<j. match_len path ((m # ms) ! k) < ml')" using 2 by (intro exI [of _ "Suc j"]) auto
      then show ?thesis using 2(4,6) False by auto
    qed
  qed
qed simp

text \<open>Removing slashes at both ends and leading \<open>./\<close> until there are none.\<close>

function strip_dots :: "bytes \<Rightarrow> bytes" where
  "strip_dots path0 = (let path = trim_slashes path0 in
    if starts_with [DOT, SLASH] path then strip_dots (drop 2 path) else path)"
  by pat_completeness auto
termination
proof (relation "measure length")
  fix path0 path :: bytes
  assume "path = trim_slashes path0" "starts_with [DOT, SLASH] path"
  then show "(drop 2 path, path0) \<in> measure length"
    using length_trim_slashes [of path0] starts_with_length [of "[DOT, SLASH]" path] by simp
qed simp

declare strip_dots.simps [simp del]

lemma lookup_mounted_strip:
  "lookup_mounted_fs rs path = (case mount_scan (strip_dots path) (rs_mounts rs) 0 0 0 of
      (idx, ml) \<Rightarrow> if ml = 0 then (rs_main rs, strip_dots path) else (snd (rs_mounts rs ! idx), drop ml (strip_dots path)))"
proof (induction path rule: strip_dots.induct)
  case (1 path)
  have d: "strip_dots path = (if starts_with [DOT, SLASH] (trim_slashes path) then strip_dots (drop 2 (trim_slashes path))
      else trim_slashes path)" by (subst strip_dots.simps) (simp add: Let_def)
  show ?case
  proof (cases "starts_with [DOT, SLASH] (trim_slashes path)")
    case True
    have "lookup_mounted_fs rs path = lookup_mounted_fs rs (drop 2 (trim_slashes path))"
      using True by (subst lookup_mounted_fs.simps) (simp add: Let_def)
    moreover have "strip_dots path = strip_dots (drop 2 (trim_slashes path))" using d True by simp
    ultimately show ?thesis using 1 [OF refl True] by (simp only:)
  next
    case False
    then show ?thesis unfolding d by (subst lookup_mounted_fs.simps) (simp add: Let_def)
  qed
qed

lemma lookup_mounted_cases:
  obtains (main) "lookup_mounted_fs rs path = (rs_main rs, strip_dots path)"
      "\<forall>m\<in>set (rs_mounts rs). match_len (strip_dots path) m = 0"
  | (mount) j where "j < length (rs_mounts rs)"
      "lookup_mounted_fs rs path = (snd (rs_mounts rs ! j), drop (match_len (strip_dots path) (rs_mounts rs ! j)) (strip_dots path))"
      "match_len (strip_dots path) (rs_mounts rs ! j) > 0"
      "\<forall>m\<in>set (rs_mounts rs). match_len (strip_dots path) m \<le> match_len (strip_dots path) (rs_mounts rs ! j)"
proof -
  obtain idx ml where s: "mount_scan (strip_dots path) (rs_mounts rs) 0 0 0 = (idx, ml)" by fastforce
  note l = lookup_mounted_strip [of rs path, unfolded s prod.case]
  from mount_scan_spec [OF s] consider "ml = 0" "\<forall>m\<in>set (rs_mounts rs). match_len (strip_dots path) m \<le> ml"
    | "idx < length (rs_mounts rs)" "match_len (strip_dots path) (rs_mounts rs ! idx) = ml" "0 < ml"
      "\<forall>m\<in>set (rs_mounts rs). match_len (strip_dots path) m \<le> ml" by auto
  then show thesis
  proof cases
    case 1
    then show thesis using main l by simp
  next
    case 2
    then show thesis using mount [of idx] l by simp
  qed
qed

section \<open>Operations keep the invariant\<close>

lemma lookup_mounted_live:
  assumes "mounts_ok rs" "lookup_mounted_fs rs path = (f, rest)"
  shows "fs_nodes (rs_store rs) (f_root f) \<noteq> None"
proof (cases rule: lookup_mounted_cases [of rs path])
  case main
  then show ?thesis using assms by (simp add: mounts_ok_def)
next
  case (mount j)
  then have "f = snd (rs_mounts rs ! j)" using assms(2) by simp
  then show ?thesis using assms(1) nth_mem [OF mount(1)] by (cases "rs_mounts rs ! j") (auto simp: mounts_ok_def)
qed

definition dir_ref_ok :: "root_state \<Rightarrow> noderef option \<Rightarrow> bool" where
  "dir_ref_ok rs dir \<longleftrightarrow> (\<forall>r. dir = Some r \<longrightarrow> ref_ok rs r)"

lemma parent_node_ok: "root_ok rs \<Longrightarrow> dir_ref_ok rs dir \<Longrightarrow> ref_ok rs (parent_node_of rs dir path)"
  by (auto simp: parent_node_of_def root_ok_def dir_ref_ok_def split: option.splits)

lemma root_ok_store: "root_ok rs \<Longrightarrow> fs_ok (rs_store rs)"
  by (simp add: root_ok_def mounts_ok_def)

lemma ref_lookup_live:
  assumes ok: "root_ok rs" and r: "ref_ok rs r"
  shows "ref_lookup rs r path \<noteq> Panic" "ref_lookup rs r path = Ok n \<Longrightarrow> fs_nodes (rs_store rs) n \<noteq> None"
proof -
  obtain k q where "ref_lookup rs r path = vfs_lookup (rs_store rs) k q" "fs_nodes (rs_store rs) k \<noteq> None"
  proof (cases r)
    case RootDirectory
    obtain f rest where "lookup_mounted_fs rs path = (f, rest)" by fastforce
    then show thesis
      using that [of "f_root f" rest] RootDirectory lookup_mounted_live [of rs path f rest] ok
      by (simp add: root_lookup_def root_ok_def)
  next
    case (VNode k)
    then show thesis using that r by simp
  qed
  then show "ref_lookup rs r path \<noteq> Panic" "ref_lookup rs r path = Ok n \<Longrightarrow> fs_nodes (rs_store rs) n \<noteq> None"
    using lookup_valid [OF root_ok_store [OF ok]] by simp_all
qed

lemma ref_create_ok:
  assumes ok: "root_ok rs" and r: "ref_ok rs r" and c: "ref_create rs r path ty = Ok rs'"
  shows "\<exists>st. rs' = rs\<lparr> rs_store := st \<rparr> \<and> keeps (rs_store rs) st"
proof (cases r)
  case RootDirectory
  obtain f rest where l: "lookup_mounted_fs rs path = (f, rest)" by fastforce
  have live: "fs_nodes (rs_store rs) (f_root f) \<noteq> None" using lookup_mounted_live [OF _ l] ok by (simp add: root_ok_def)
  have "rs' = rs \<or> (\<exists>st. vfs_create (rs_store rs) (f_root f) rest ty = Ok st \<and> rs' = rs\<lparr> rs_store := st \<rparr>)"
    using c l RootDirectory by (auto simp: root_create_def bind_outcome_eq_Ok split: if_splits)
  then show ?thesis
  proof
    assume "rs' = rs"
    then show ?thesis using root_ok_store [OF ok] by (intro exI [of _ "rs_store rs"]) (simp add: keeps_def)
  qed (use create_keeps [OF root_ok_store [OF ok] live] in blast)
next
  case (VNode n)
  then show ?thesis using c r create_keeps [OF root_ok_store [OF ok], of n] by (auto simp: bind_outcome_eq_Ok)
qed

lemma ref_remove_ok:
  assumes ok: "root_ok rs" and r: "ref_ok rs r" and c: "ref_remove rs r path = Ok rs'"
  shows "\<exists>st. rs' = rs\<lparr> rs_store := st \<rparr> \<and> keeps (rs_store rs) st"
proof (cases r)
  case RootDirectory
  obtain f rest where l: "lookup_mounted_fs rs path = (f, rest)" by fastforce
  have live: "fs_nodes (rs_store rs) (f_root f) \<noteq> None" using lookup_mounted_live [OF _ l] ok by (simp add: root_ok_def)
  have "\<exists>st. vfs_remove (rs_store rs) (f_root f) rest = Ok st \<and> rs' = rs\<lparr> rs_store := st \<rparr>"
    using c l RootDirectory by (auto simp: root_remove_def bind_outcome_eq_Ok split: if_splits)
  then show ?thesis using remove_keeps [OF root_ok_store [OF ok] live] by blast
next
  case (VNode n)
  then show ?thesis using c r remove_keeps [OF root_ok_store [OF ok], of n] by (auto simp: bind_outcome_eq_Ok)
qed

lemma create_file_ok:
  assumes ok: "root_ok rs" and d: "dir_ref_ok rs dir" and c: "fs_create_file rs dir path = (r, rs')"
  shows "root_ok rs'"
proof (cases "ref_create rs (parent_node_of rs dir path) path File")
  case (Ok rs1)
  obtain st where "rs1 = rs\<lparr> rs_store := st \<rparr>" "keeps (rs_store rs) st"
    using ref_create_ok [OF ok parent_node_ok [OF ok d] Ok] by blast
  then show ?thesis using c Ok ok keeps_root_ok [OF ok] by (auto simp: fs_create_file_def Let_def split: if_splits)
qed (use c ok in \<open>auto simp: fs_create_file_def Let_def split: if_splits\<close>)

lemma create_dir_ok:
  assumes ok: "root_ok rs" and d: "dir_ref_ok rs dir" and c: "fs_create_dir rs dir path = Ok rs'"
  shows "root_ok rs'"
proof -
  have "ref_create rs (parent_node_of rs dir path) path Dir = Ok rs'"
    using c by (auto simp: fs_create_dir_def split: outcome.splits if_splits)
  from ref_create_ok [OF ok parent_node_ok [OF ok d] this] show ?thesis using keeps_root_ok [OF ok] by blast
qed

lemma remove_file_ok:
  assumes ok: "root_ok rs" and d: "dir_ref_ok rs dir" and c: "fs_remove_file rs dir path = Ok rs'"
  shows "root_ok rs'"
proof -
  have "ref_remove rs (parent_node_of rs dir path) path = Ok rs'"
    using c by (auto simp: fs_remove_file_def bind_outcome_eq_Ok split: if_splits)
  from ref_remove_ok [OF ok parent_node_ok [OF ok d] this] show ?thesis using keeps_root_ok [OF ok] by blast
qed

lemma remove_dir_ok:
  assumes ok: "root_ok rs" and d: "dir_ref_ok rs dir" and c: "fs_remove_dir rs dir path = Ok rs'"
  shows "root_ok rs'"
proof -
  have "ref_remove rs (parent_node_of rs dir path) path = Ok rs'"
    using c by (auto simp: fs_remove_dir_def bind_outcome_eq_Ok Let_def split: if_splits)
  from ref_remove_ok [OF ok parent_node_ok [OF ok d] this] show ?thesis using keeps_root_ok [OF ok] by blast
qed

lemma ref_rename_not_ok: "ref_rename rs r old new \<noteq> Ok rs'"
  by (cases r) (auto simp: root_rename_def vfs_rename_def bind_outcome_eq_Ok split: prod.splits option.splits if_splits)

lemma rename_ok:
  assumes ok: "root_ok rs" and c: "fs_rename rs old new = (r, rs')"
  shows "root_ok rs'"
proof -
  have "rs' = rs \<or> fs_remove_file rs None new = Ok rs'"
    using c ref_rename_not_ok by (auto simp: fs_rename_def Let_def split: outcome.splits)
  then show ?thesis using ok remove_file_ok [OF ok, of None] by (auto simp: dir_ref_ok_def)
qed

lemma join_slash_end: "cs \<noteq> [] \<Longrightarrow> join_slash cs @ [SLASH] = concat (map (\<lambda>c. c @ [SLASH]) cs)"
proof (induction cs)
  case (Cons c cs)
  then show ?case by (cases "cs = []") (simp_all add: join_slash_Cons)
qed simp

lemma ends_with_slash: "ends_with [SLASH] p \<longleftrightarrow> p \<noteq> [] \<and> last p = SLASH"
  by (cases p rule: rev_cases) (auto simp: ends_with_def starts_with_def)

lemma absolute_path_shape:
  assumes "cwd_ok (rs_cur_path rs)" "absolute_path rs path = Ok p"
  shows "\<exists>cs. (\<forall>c\<in>set cs. proper_name c) \<and> p = render_path True cs"
proof -
  define q where "q = (if starts_with_slash path then path else rs_cur_path rs @ path)"
  have "starts_with_slash q" using assms(1) by (auto simp: q_def cwd_ok_def dir_path_def starts_with_slash_def)
  moreover have "canonicalize q = Some p" using assms(2) by (auto simp: absolute_path_def q_def split: option.splits if_splits)
  ultimately show ?thesis using canonicalize_shape [of q p] by auto
qed

lemma render_dir_path:
  assumes "\<forall>c\<in>set cs. proper_name c"
  shows "(if ends_with [SLASH] (render_path True cs) then render_path True cs else render_path True cs @ [SLASH]) = dir_path cs"
proof (cases "cs = []")
  case True
  then show ?thesis by (simp add: render_path_def dir_path_def ends_with_slash)
next
  case False
  have "proper_name (last cs)" using assms False by simp
  then have "last (last cs) \<noteq> SLASH" "last cs \<noteq> []" using last_in_set unfolding proper_name_def by metis+
  then have "\<not> ends_with [SLASH] (render_path True cs)"
    using join_slash_last [OF False] by (simp add: ends_with_slash render_path_def)
  then show ?thesis using join_slash_end [OF False] by (simp add: render_path_def dir_path_def)
qed

lemma set_current_dir_ok:
  assumes ok: "root_ok rs" and c: "set_current_dir rs path = Ok rs'"
  shows "root_ok rs'"
proof -
  obtain p where p: "absolute_path rs path = Ok p" using c by (auto simp: set_current_dir_def bind_outcome_eq_Ok)
  obtain cs where cs: "\<forall>c\<in>set cs. proper_name c" "p = render_path True cs"
    using absolute_path_shape [OF _ p] ok by (auto simp: root_ok_def)
  let ?a = "dir_path cs"
  have a: "(if ends_with [SLASH] p then p else p @ [SLASH]) = ?a" unfolding cs(2) by (rule render_dir_path [OF cs(1)])
  have w: "cwd_ok ?a" using cs(1) by (auto simp: cwd_ok_def)
  consider "rs' = rs\<lparr> rs_cur_dir := RootDirectory, rs_cur_path := ?a \<rparr>"
    | n where "fs_lookup rs None ?a = Ok n" "rs' = rs\<lparr> rs_cur_dir := VNode n, rs_cur_path := ?a \<rparr>"
    using c a p unfolding set_current_dir_def by (auto simp: bind_outcome_eq_Ok Let_def split: if_splits)
  then show ?thesis
  proof cases
    case 1
    then show ?thesis using ok w by (simp add: root_ok_def mounts_ok_def)
  next
    case (2 n)
    then have "ref_lookup rs (parent_node_of rs None ?a) ?a = Ok n"
      by (auto simp: fs_lookup_def bind_outcome_eq_Ok split: if_splits)
    moreover have "dir_ref_ok rs None" by (simp add: dir_ref_ok_def)
    ultimately have "fs_nodes (rs_store rs) n \<noteq> None"
      using ref_lookup_live(2) [OF ok parent_node_ok [OF ok]] by blast
    then show ?thesis using 2(2) ok w by (simp add: root_ok_def mounts_ok_def)
  qed
qed

section \<open>Reachable states\<close>

text \<open>The states after the root has been set up over a new RAM file system, with any features, and
  calls of clients; a client may pass any reference that it got.\<close>

inductive root_reach :: "root_state \<Rightarrow> bool" where
  init: "ramfs_new fs_empty = (main, st) \<Longrightarrow> init_rootfs fe main st = Some rs \<Longrightarrow> root_reach rs"
| create_file: "root_reach rs \<Longrightarrow> dir_ref_ok rs dir \<Longrightarrow> fs_create_file rs dir path = (r, rs') \<Longrightarrow> root_reach rs'"
| create_dir: "root_reach rs \<Longrightarrow> dir_ref_ok rs dir \<Longrightarrow> fs_create_dir rs dir path = Ok rs' \<Longrightarrow> root_reach rs'"
| remove_file: "root_reach rs \<Longrightarrow> dir_ref_ok rs dir \<Longrightarrow> fs_remove_file rs dir path = Ok rs' \<Longrightarrow> root_reach rs'"
| remove_dir: "root_reach rs \<Longrightarrow> dir_ref_ok rs dir \<Longrightarrow> fs_remove_dir rs dir path = Ok rs' \<Longrightarrow> root_reach rs'"
| set_current_dir: "root_reach rs \<Longrightarrow> set_current_dir rs path = Ok rs' \<Longrightarrow> root_reach rs'"
| rename: "root_reach rs \<Longrightarrow> fs_rename rs old new = (u, rs') \<Longrightarrow> root_reach rs'"
| write_at: "root_reach rs \<Longrightarrow> vfs_write_at (rs_store rs) n off buf = Ok (k, st) \<Longrightarrow> root_reach (rs\<lparr> rs_store := st \<rparr>)"
| truncate: "root_reach rs \<Longrightarrow> vfs_truncate (rs_store rs) n sz = Ok st \<Longrightarrow> root_reach (rs\<lparr> rs_store := st \<rparr>)"

lemma write_keeps: "fs_ok st \<Longrightarrow> vfs_write_at st n off buf = Ok (k, st') \<Longrightarrow> keeps st st'"
  using write_grows [of st n off buf k st'] by (simp add: grows_def keeps_def)

lemma truncate_keeps:
  assumes "fs_ok st" "vfs_truncate st n sz = Ok st'"
  shows "keeps st st'"
proof -
  have "grows st st'"
    using assms put_file_grows [OF assms(1)] grows_refl [OF assms(1)]
    by (auto simp: vfs_truncate_def split: option.splits node.splits)
  then show ?thesis by (simp add: grows_def keeps_def)
qed

lemma root_reach_ok: "root_reach rs \<Longrightarrow> root_ok rs"
proof (induction rule: root_reach.induct)
  case (init main st fe rs)
  then have "fs_ok st" "fs_nodes st (f_root main) \<noteq> None"
    using ramfs_new_ok by (auto simp: ramfs_new_def fs_alloc_def)
  then show ?case using init_rootfs_ok init by blast
next
  case (create_file rs dir path r rs')
  then show ?case by (blast intro: create_file_ok)
next
  case (create_dir rs dir path rs')
  then show ?case by (blast intro: create_dir_ok)
next
  case (remove_file rs dir path rs')
  then show ?case by (blast intro: remove_file_ok)
next
  case (remove_dir rs dir path rs')
  then show ?case by (blast intro: remove_dir_ok)
next
  case (set_current_dir rs path rs')
  then show ?case by (blast intro: set_current_dir_ok)
next
  case (rename rs old new u rs')
  then show ?case by (blast intro: rename_ok)
next
  case (write_at rs n off buf k st)
  then show ?case using keeps_root_ok write_keeps root_ok_store by blast
next
  case (truncate rs n sz st)
  then show ?case using keeps_root_ok truncate_keeps root_ok_store by blast
qed

lemma fs_lookup_live:
  assumes ok: "root_ok rs" and d: "dir_ref_ok rs dir"
  shows "fs_lookup rs dir path \<noteq> Panic" "fs_lookup rs dir path = Ok n \<Longrightarrow> fs_nodes (rs_store rs) n \<noteq> None"
proof -
  let ?r = "ref_lookup rs (parent_node_of rs dir path) path"
  note l = ref_lookup_live [OF ok parent_node_ok [OF ok d], of path path]
  have "fs_lookup rs dir path \<noteq> Panic \<and> (\<forall>n. fs_lookup rs dir path = Ok n \<longrightarrow> ?r = Ok n)"
  proof (cases ?r)
    case (Ok n)
    obtain a where "vfs_get_attr (rs_store rs) n = Ok a" using get_attr_ok l(2) [OF Ok] by blast
    then show ?thesis using Ok by (auto simp: fs_lookup_def)
  qed (use l(1) in \<open>auto simp: fs_lookup_def\<close>)
  then show "fs_lookup rs dir path \<noteq> Panic" "fs_lookup rs dir path = Ok n \<Longrightarrow> fs_nodes (rs_store rs) n \<noteq> None"
    using l(2) by blast+
qed

section \<open>Properties\<close>

text \<open>The root file system with the device and RAM file systems mounted, for the witnesses.\<close>

definition demo_features :: fs_features where
  "demo_features = \<lparr> feat_devfs = True, feat_ramfs = True, feat_procfs = False, feat_sysfs = False \<rparr>"

definition demo_init :: "root_state option" where
  "demo_init = (case ramfs_new fs_empty of (main, st) \<Rightarrow> init_rootfs demo_features main st)"

definition demo_rs :: root_state where
  "demo_rs = the demo_init"

lemma demo_init_some: "demo_init \<noteq> None"
  by code_simp

lemma demo_rs_reach: "root_reach demo_rs"
proof -
  obtain main st where m: "ramfs_new fs_empty = (main, st)" by fastforce
  then have "init_rootfs demo_features main st = Some demo_rs"
    using demo_init_some by (auto simp: demo_rs_def demo_init_def)
  with m show ?thesis by (rule root_reach.init)
qed

text \<open>C27: In every reachable state the store satisfies its invariant, the path of the current directory
  consists of proper components between slashes, and looking up any path, from any directory a client
  holds, does not panic and gives a node of the store.\<close>

theorem root_invariant:
  assumes "root_reach rs"
  shows "fs_ok (rs_store rs) \<and> (\<exists>cs. (\<forall>c\<in>set cs. proper_name c) \<and> current_dir rs = dir_path cs) \<and>
    (\<forall>dir path. dir_ref_ok rs dir \<longrightarrow> fs_lookup rs dir path \<noteq> Panic \<and>
      (\<forall>n. fs_lookup rs dir path = Ok n \<longrightarrow> fs_nodes (rs_store rs) n \<noteq> None))"
proof -
  note ok = root_reach_ok [OF assms]
  show ?thesis
    using root_ok_store [OF ok] ok fs_lookup_live [OF ok] unfolding root_ok_def cwd_ok_def current_dir_def by blast
qed

theorem root_invariant_witness:
  "fs_ok (rs_store demo_rs) \<and> fs_lookup demo_rs None (str ''/dev/foo/bar'') \<noteq> Panic"
  using root_invariant [OF demo_rs_reach] by (simp add: dir_ref_ok_def)

text \<open>C28: A path is served by the mounted file system whose mount point, without its leading slash, is
  the longest prefix of the path with slashes and leading dots removed, and in it by the rest of the
  path; when no mount point is a prefix, the main file system serves the whole path.\<close>

theorem longest_mount_serves:
  assumes "root_reach rs"
  shows "(lookup_mounted_fs rs path = (rs_main rs, strip_dots path) \<and>
      (\<forall>(p, f) \<in> set (rs_mounts rs). \<not> starts_with (tl p) (strip_dots path))) \<or>
    (\<exists>(p, f) \<in> set (rs_mounts rs). \<exists>rest. strip_dots path = tl p @ rest \<and> lookup_mounted_fs rs path = (f, rest) \<and>
      (\<forall>(p', f') \<in> set (rs_mounts rs). starts_with (tl p') (strip_dots path) \<longrightarrow> length p' \<le> length p))"
proof -
  have m: "tl p \<noteq> []" if "(p, f) \<in> set (rs_mounts rs)" for p f
    using root_reach_ok [OF assms] that by (cases p) (auto simp: root_ok_def mounts_ok_def starts_with_slash_def)
  have len: "match_len q (p, f) = (if starts_with (tl p) q then length (tl p) else 0)" for q p f
    by (simp add: match_len_def)
  show ?thesis
  proof (cases rule: lookup_mounted_cases [of rs path])
    case main
    have "\<not> starts_with (tl p) (strip_dots path)" if "(p, f) \<in> set (rs_mounts rs)" for p f
    proof -
      have "match_len (strip_dots path) (p, f) = 0" using main(2) that by blast
      then show ?thesis using m [OF that] by (cases p) (auto simp: len split: if_splits)
    qed
    then show ?thesis using main(1) by blast
  next
    case (mount j)
    obtain p f where pf: "rs_mounts rs ! j = (p, f)" by fastforce
    then have mem: "(p, f) \<in> set (rs_mounts rs)" using mount(1) nth_mem by metis
    have s: "starts_with (tl p) (strip_dots path)" using mount(3) pf by (simp add: len split: if_splits)
    then have "strip_dots path = tl p @ drop (length (tl p)) (strip_dots path)"
      unfolding starts_with_def by (metis append_take_drop_id)
    moreover have "length p' \<le> length p" if "(p', f') \<in> set (rs_mounts rs)" "starts_with (tl p') (strip_dots path)" for p' f'
    proof -
      have "match_len (strip_dots path) (p', f') \<le> match_len (strip_dots path) (p, f)" using mount(4) that(1) pf by auto
      then have "length (tl p') \<le> length (tl p)" using that(2) s by (simp add: len)
      then show ?thesis using m [OF mem] by (cases p; cases p') auto
    qed
    moreover have "lookup_mounted_fs rs path = (f, drop (length (tl p)) (strip_dots path))" using mount(2) pf s by (simp add: len)
    ultimately show ?thesis using mem by blast
  qed
qed

theorem longest_mount_serves_witness:
  "\<exists>f. (str ''/dev'', f) \<in> set (rs_mounts demo_rs) \<and> lookup_mounted_fs demo_rs (str ''/./dev/null'') = (f, str ''/null'')"
proof -
  have q: "strip_dots (str ''/./dev/null'') = str ''dev/null''" and m: "map fst (rs_mounts demo_rs) = [str ''/dev'', str ''/tmp'']"
    and d: "str ''dev/null'' = tl (str ''/dev'') @ str ''/null''"
    and t: "starts_with (tl (str ''/dev'')) (str ''dev/null'')" "\<not> starts_with (tl (str ''/tmp'')) (str ''dev/null'')"
    by code_simp+
  obtain f g where fg: "rs_mounts demo_rs = [(str ''/dev'', f), (str ''/tmp'', g)]"
    using m by (auto simp: map_eq_Cons_conv)
  have "\<exists>p f rest. (p, f) \<in> set (rs_mounts demo_rs) \<and> str ''dev/null'' = tl p @ rest \<and>
      lookup_mounted_fs demo_rs (str ''/./dev/null'') = (f, rest)"
    using longest_mount_serves [OF demo_rs_reach, of "str ''/./dev/null''"] t(1) unfolding q fg by fastforce
  then obtain p h rest where p: "(p, h) \<in> set (rs_mounts demo_rs)" "str ''dev/null'' = tl p @ rest"
    and l: "lookup_mounted_fs demo_rs (str ''/./dev/null'') = (h, rest)" by blast
  have "p = str ''/dev''" using p t(2) starts_with_append [of "tl p" rest] unfolding fg by auto
  then have "rest = str ''/null''" using p(2) d by simp
  then show ?thesis using p(1) l \<open>p = str ''/dev''\<close> by blast
qed

end
