(* ===== verification/Fops.thy ===== *)
theory Fops
  imports Root_Fs_Proofs
begin

text \<open>
  Opened files and directories, \<open>src/modules/axfs/src/fops.rs\<close>: options, permissions turned into
  capabilities, the cursor, and reading and writing at it. A call that can change the cursor or the
  state and still fail returns its outcome with both.
\<close>

section \<open>Options\<close>

record OpenOptions =
  opt_read :: bool
  opt_write :: bool
  opt_append :: bool
  opt_truncate :: bool
  opt_create :: bool
  opt_create_new :: bool

definition options_new :: OpenOptions where
  "options_new = \<lparr> opt_read = False, opt_write = False, opt_append = False, opt_truncate = False,
     opt_create = False, opt_create_new = False \<rparr>"

definition set_read :: "bool \<Rightarrow> OpenOptions \<Rightarrow> OpenOptions" where "set_read b opts = opts\<lparr> opt_read := b \<rparr>"
definition set_write :: "bool \<Rightarrow> OpenOptions \<Rightarrow> OpenOptions" where "set_write b opts = opts\<lparr> opt_write := b \<rparr>"
definition set_append :: "bool \<Rightarrow> OpenOptions \<Rightarrow> OpenOptions" where "set_append b opts = opts\<lparr> opt_append := b \<rparr>"
definition set_truncate :: "bool \<Rightarrow> OpenOptions \<Rightarrow> OpenOptions" where "set_truncate b opts = opts\<lparr> opt_truncate := b \<rparr>"
definition set_create :: "bool \<Rightarrow> OpenOptions \<Rightarrow> OpenOptions" where "set_create b opts = opts\<lparr> opt_create := b \<rparr>"
definition set_create_new :: "bool \<Rightarrow> OpenOptions \<Rightarrow> OpenOptions" where "set_create_new b opts = opts\<lparr> opt_create_new := b \<rparr>"

definition options_valid :: "OpenOptions \<Rightarrow> bool" where
  "options_valid opts =
    (if \<not> opt_read opts \<and> \<not> opt_write opts \<and> \<not> opt_append opts then False
     else (case (opt_write opts, opt_append opts) of
        (True, False) \<Rightarrow> True
      | (False, False) \<Rightarrow> \<not> (opt_truncate opts \<or> opt_create opts \<or> opt_create_new opts)
      | (_, True) \<Rightarrow> \<not> (opt_truncate opts \<and> \<not> opt_create_new opts)))"

definition options_cap :: "OpenOptions \<Rightarrow> Cap" where
  "options_cap opts = (let cap = 0;
     cap1 = (if opt_read opts then cap OR CAP_READ else cap)
   in if opt_write opts \<or> opt_append opts then cap1 OR CAP_WRITE else cap1)"

definition perm_to_cap :: "VfsNodePerm \<Rightarrow> Cap" where
  "perm_to_cap perm = (let cap = 0;
     cap1 = (if owner_readable perm then cap OR CAP_READ else cap);
     cap2 = (if owner_writable perm then cap1 OR CAP_WRITE else cap1)
   in if owner_executable perm then cap2 OR CAP_EXECUTE else cap2)"

section \<open>Files\<close>

record open_file =
  file_node :: "nat WithCap"
  file_is_append :: bool
  file_offset :: u64

text \<open>Which node is opened, and the state after it has been created.\<close>

definition open_node :: "root_state \<Rightarrow> noderef option \<Rightarrow> bytes \<Rightarrow> OpenOptions \<Rightarrow> (nat, AxError) outcome \<times> root_state" where
  "open_node rs dir path opts =
    (let node_option = fs_lookup rs dir path in
     if opt_create opts \<or> opt_create_new opts then
       (case node_option of
          Ok n \<Rightarrow> if opt_create_new opts then (Err AlreadyExists, rs) else (Ok n, rs)
        | Err e \<Rightarrow> if e = NotFound then fs_create_file rs dir path else (Err e, rs)
        | Panic \<Rightarrow> (Panic, rs))
     else (node_option, rs))"

definition open_check :: "root_state \<Rightarrow> nat \<Rightarrow> OpenOptions \<Rightarrow> (Cap, AxError) outcome" where
  "open_check rs n opts =
    bind_outcome (vfs_get_attr (rs_store rs) n)
      (\<lambda>attr. if attr_is_dir attr \<and> (opt_create opts \<or> opt_create_new opts \<or> opt_write opts \<or> opt_append opts \<or> opt_truncate opts)
         then Err IsADirectory
         else if \<not> flags_contain (perm_to_cap (attr_mode attr)) (options_cap opts) then Err PermissionDenied
         else Ok (options_cap opts))"

definition file_open_at :: "root_state \<Rightarrow> noderef option \<Rightarrow> bytes \<Rightarrow> OpenOptions \<Rightarrow>
    (open_file, AxError) outcome \<times> root_state" where
  "file_open_at rs dir path opts =
    (if \<not> options_valid opts then (Err InvalidInput, rs)
     else (case open_node rs dir path opts of
       (Ok n, rs1) \<Rightarrow> (case open_check rs1 n opts of
           Ok cap \<Rightarrow>
             let f = \<lparr> file_node = withcap_new n cap, file_is_append = opt_append opts, file_offset = 0 \<rparr>
             in if opt_truncate opts
                then (case vfs_truncate (rs_store rs1) n 0 of
                   Ok st \<Rightarrow> (Ok f, rs1\<lparr> rs_store := st \<rparr>)
                 | Err e \<Rightarrow> (Err e, rs1)
                 | Panic \<Rightarrow> (Panic, rs1))
                else (Ok f, rs1)
         | Err e \<Rightarrow> (Err e, rs1)
         | Panic \<Rightarrow> (Panic, rs1))
     | (Err e, rs1) \<Rightarrow> (Err e, rs1)
     | (Panic, rs1) \<Rightarrow> (Panic, rs1)))"

definition file_open :: "root_state \<Rightarrow> bytes \<Rightarrow> OpenOptions \<Rightarrow> (open_file, AxError) outcome \<times> root_state" where
  "file_open rs path opts = file_open_at rs None path opts"

definition fops_get_attr :: "root_state \<Rightarrow> open_file \<Rightarrow> (VfsNodeAttr, AxError) outcome" where
  "fops_get_attr rs f = bind_outcome (cap_access 0 (file_node f)) (vfs_get_attr (rs_store rs))"

definition fops_truncate :: "root_state \<Rightarrow> open_file \<Rightarrow> u64 \<Rightarrow> (root_state, AxError) outcome" where
  "fops_truncate rs f sz = bind_outcome (cap_access CAP_WRITE (file_node f))
    (\<lambda>n. bind_outcome (vfs_truncate (rs_store rs) n sz) (\<lambda>st. Ok (rs\<lparr> rs_store := st \<rparr>)))"

text \<open>Reading into a buffer of the given length; the result is what is stored in it.\<close>

definition fops_read :: "root_state \<Rightarrow> open_file \<Rightarrow> nat \<Rightarrow> (bytes \<times> open_file, AxError) outcome" where
  "fops_read rs f blen = bind_outcome (cap_access CAP_READ (file_node f))
    (\<lambda>n. bind_outcome (vfs_read_at (rs_store rs) n (file_offset f) blen)
      (\<lambda>bs. Ok (bs, f\<lparr> file_offset := file_offset f + of_nat (length bs) \<rparr>)))"

definition fops_read_at :: "root_state \<Rightarrow> open_file \<Rightarrow> u64 \<Rightarrow> nat \<Rightarrow> (bytes, AxError) outcome" where
  "fops_read_at rs f off blen = bind_outcome (cap_access CAP_READ (file_node f))
    (\<lambda>n. vfs_read_at (rs_store rs) n off blen)"

definition fops_write :: "root_state \<Rightarrow> open_file \<Rightarrow> bytes \<Rightarrow> (nat, AxError) outcome \<times> open_file \<times> root_state" where
  "fops_write rs f buf = (case cap_access CAP_WRITE (file_node f) of
     Ok n \<Rightarrow>
       (case (if file_is_append f then bind_outcome (fops_get_attr rs f) (\<lambda>a. Ok (f\<lparr> file_offset := attr_size a \<rparr>)) else Ok f) of
          Ok f1 \<Rightarrow> (case vfs_write_at (rs_store rs) n (file_offset f1) buf of
              Ok (k, st) \<Rightarrow> (Ok k, f1\<lparr> file_offset := file_offset f1 + of_nat k \<rparr>, rs\<lparr> rs_store := st \<rparr>)
            | Err e \<Rightarrow> (Err e, f1, rs)
            | Panic \<Rightarrow> (Panic, f1, rs))
        | Err e \<Rightarrow> (Err e, f, rs)
        | Panic \<Rightarrow> (Panic, f, rs))
   | Err e \<Rightarrow> (Err e, f, rs)
   | Panic \<Rightarrow> (Panic, f, rs))"

definition fops_write_at :: "root_state \<Rightarrow> open_file \<Rightarrow> u64 \<Rightarrow> bytes \<Rightarrow> (nat \<times> root_state, AxError) outcome" where
  "fops_write_at rs f off buf = bind_outcome (cap_access CAP_WRITE (file_node f))
    (\<lambda>n. bind_outcome (vfs_write_at (rs_store rs) n off buf) (\<lambda>(k, st). Ok (k, rs\<lparr> rs_store := st \<rparr>)))"

definition fops_flush :: "root_state \<Rightarrow> open_file \<Rightarrow> (unit, AxError) outcome" where
  "fops_flush rs f = bind_outcome (cap_access CAP_WRITE (file_node f)) (vfs_fsync (rs_store rs))"

text \<open>Offsets relative to a position are signed.\<close>

datatype SeekFrom = SeekStart u64 | SeekEnd "64 word" | SeekCurrent "64 word"

definition checked_add_signed :: "u64 \<Rightarrow> 64 word \<Rightarrow> u64 option" where
  "checked_add_signed x d = (let s = uint x + sint d in if 0 \<le> s \<and> s < 2 ^ 64 then Some (word_of_int s) else None)"

definition fops_seek :: "root_state \<Rightarrow> open_file \<Rightarrow> SeekFrom \<Rightarrow> (u64 \<times> open_file, AxError) outcome" where
  "fops_seek rs f pos = bind_outcome (fops_get_attr rs f)
    (\<lambda>a. bind_outcome (ok_or (case pos of
          SeekStart p \<Rightarrow> Some p
        | SeekCurrent d \<Rightarrow> checked_add_signed (file_offset f) d
        | SeekEnd d \<Rightarrow> checked_add_signed (attr_size a) d) InvalidInput)
      (\<lambda>new_offset. Ok (new_offset, f\<lparr> file_offset := new_offset \<rparr>)))"

section \<open>Directories\<close>

record open_dir =
  dir_node :: "nat WithCap"
  dir_entry_idx :: nat

definition dir_open_at :: "root_state \<Rightarrow> noderef option \<Rightarrow> bytes \<Rightarrow> OpenOptions \<Rightarrow> (open_dir, AxError) outcome" where
  "dir_open_at rs dir path opts =
    (if \<not> opt_read opts then Err InvalidInput
     else if opt_create opts \<or> opt_create_new opts \<or> opt_write opts \<or> opt_append opts \<or> opt_truncate opts then Err InvalidInput
     else bind_outcome (fs_lookup rs dir path)
       (\<lambda>n. bind_outcome (vfs_get_attr (rs_store rs) n)
         (\<lambda>attr. if \<not> attr_is_dir attr then Err NotADirectory
            else if \<not> flags_contain (perm_to_cap (attr_mode attr)) (options_cap opts) then Err PermissionDenied
            else Ok \<lparr> dir_node = withcap_new n (options_cap opts), dir_entry_idx = 0 \<rparr>)))"

definition dir_access_at :: "open_dir \<Rightarrow> bytes \<Rightarrow> (noderef option, AxError) outcome" where
  "dir_access_at d path = (if starts_with_slash path then Ok None
    else bind_outcome (cap_access CAP_EXECUTE (dir_node d)) (\<lambda>n. Ok (Some (VNode n))))"

definition open_dir_path :: "root_state \<Rightarrow> bytes \<Rightarrow> OpenOptions \<Rightarrow> (open_dir, AxError) outcome" where
  "open_dir_path rs path opts = dir_open_at rs None path opts"

definition open_dir_at :: "root_state \<Rightarrow> open_dir \<Rightarrow> bytes \<Rightarrow> OpenOptions \<Rightarrow> (open_dir, AxError) outcome" where
  "open_dir_at rs d path opts = bind_outcome (dir_access_at d path) (\<lambda>dir. dir_open_at rs dir path opts)"

definition open_file_at :: "root_state \<Rightarrow> open_dir \<Rightarrow> bytes \<Rightarrow> OpenOptions \<Rightarrow> (open_file, AxError) outcome \<times> root_state" where
  "open_file_at rs d path opts = (case dir_access_at d path of
     Ok dir \<Rightarrow> file_open_at rs dir path opts | Err e \<Rightarrow> (Err e, rs) | Panic \<Rightarrow> (Panic, rs))"

definition dir_create_file :: "root_state \<Rightarrow> open_dir \<Rightarrow> bytes \<Rightarrow> (nat, AxError) outcome \<times> root_state" where
  "dir_create_file rs d path = (case dir_access_at d path of
     Ok dir \<Rightarrow> fs_create_file rs dir path | Err e \<Rightarrow> (Err e, rs) | Panic \<Rightarrow> (Panic, rs))"

definition dir_create_dir :: "root_state \<Rightarrow> open_dir \<Rightarrow> bytes \<Rightarrow> (root_state, AxError) outcome" where
  "dir_create_dir rs d path = bind_outcome (dir_access_at d path) (\<lambda>dir. fs_create_dir rs dir path)"

definition dir_remove_file :: "root_state \<Rightarrow> open_dir \<Rightarrow> bytes \<Rightarrow> (root_state, AxError) outcome" where
  "dir_remove_file rs d path = bind_outcome (dir_access_at d path) (\<lambda>dir. fs_remove_file rs dir path)"

definition dir_remove_dir :: "root_state \<Rightarrow> open_dir \<Rightarrow> bytes \<Rightarrow> (root_state, AxError) outcome" where
  "dir_remove_dir rs d path = bind_outcome (dir_access_at d path) (\<lambda>dir. fs_remove_dir rs dir path)"

definition dir_read_dir :: "root_state \<Rightarrow> open_dir \<Rightarrow> nat \<Rightarrow> (VfsDirEntry list \<times> open_dir, AxError) outcome" where
  "dir_read_dir rs d len = bind_outcome (cap_access CAP_READ (dir_node d))
    (\<lambda>n. bind_outcome (vfs_read_dir (rs_store rs) n (dir_entry_idx d) len)
      (\<lambda>es. Ok (es, d\<lparr> dir_entry_idx := dir_entry_idx d + length es \<rparr>)))"

end
