(* ===== verification/Fops_Properties.thy ===== *)
theory Fops_Properties
  imports Fops
begin

text \<open>
  The properties of opened files: access is limited to what the options asked for and the permissions
  allow, a new file gives back what was written to it also after it has been opened again, appending
  writes at the end, and seeking never wraps.
\<close>

section \<open>Capabilities of opened files\<close>

lemma cap_flags:
  "flags_contain (options_cap opts) CAP_READ \<longleftrightarrow> opt_read opts"
  "flags_contain (options_cap opts) CAP_WRITE \<longleftrightarrow> opt_write opts \<or> opt_append opts"
  "\<not> flags_contain (options_cap opts) CAP_EXECUTE"
  "flags_contain c 0"
  by (simp_all add: options_cap_def flags_contain_def CAP_READ_def CAP_WRITE_def CAP_EXECUTE_def)

lemma open_okD:
  assumes "file_open_at rs dir path opts = (Ok f, rs')"
  obtains n rs1 where "options_valid opts" "open_node rs dir path opts = (Ok n, rs1)" "open_check rs1 n opts = Ok (options_cap opts)"
    "f = \<lparr> file_node = withcap_new n (options_cap opts), file_is_append = opt_append opts, file_offset = 0 \<rparr>"
    "if opt_truncate opts then \<exists>st. vfs_truncate (rs_store rs1) n 0 = Ok st \<and> rs' = rs1\<lparr> rs_store := st \<rparr> else rs' = rs1"
proof -
  have v: "options_valid opts" using assms by (cases "options_valid opts") (simp_all add: file_open_at_def)
  obtain r rs1 where r: "open_node rs dir path opts = (r, rs1)" by fastforce
  obtain n where n: "r = Ok n" using assms v r by (cases r) (simp_all add: file_open_at_def)
  obtain cap where c: "open_check rs1 n opts = Ok cap"
    using assms v r n by (cases "open_check rs1 n opts") (simp_all add: file_open_at_def)
  have cap: "cap = options_cap opts" using c by (auto simp: open_check_def bind_outcome_eq_Ok split: if_splits)
  have "f = \<lparr> file_node = withcap_new n cap, file_is_append = opt_append opts, file_offset = 0 \<rparr> \<and>
      (if opt_truncate opts then \<exists>st. vfs_truncate (rs_store rs1) n 0 = Ok st \<and> rs' = rs1\<lparr> rs_store := st \<rparr> else rs' = rs1)"
    using assms v r n c
    by (cases "vfs_truncate (rs_store rs1) n 0") (auto simp: file_open_at_def Let_def split: if_splits)
  with v r n c cap show thesis using that by blast
qed

lemma not_writable:
  assumes "file_open_at rs dir path opts = (Ok f, rs')" "\<not> opt_write opts" "\<not> opt_append opts"
  shows "rs' = rs" "cap_access CAP_WRITE (file_node f) = Err PermissionDenied"
proof -
  obtain n rs1 where v: "options_valid opts" "open_node rs dir path opts = (Ok n, rs1)"
    "f = \<lparr> file_node = withcap_new n (options_cap opts), file_is_append = opt_append opts, file_offset = 0 \<rparr>"
    "if opt_truncate opts then \<exists>st. vfs_truncate (rs_store rs1) n 0 = Ok st \<and> rs' = rs1\<lparr> rs_store := st \<rparr> else rs' = rs1"
    using open_okD [OF assms(1)] by metis
  have o: "\<not> opt_truncate opts" "\<not> opt_create opts" "\<not> opt_create_new opts"
    using v(1) assms(2,3) by (auto simp: options_valid_def split: if_splits)
  then show "rs' = rs" using v(2,4) by (simp add: open_node_def Let_def)
  show "cap_access CAP_WRITE (file_node f) = Err PermissionDenied"
    using v(3) assms(2,3) by (simp add: cap_access_def can_access_def withcap_new_def cap_flags)
qed

text \<open>No option asks for the right to execute, so a directory that was opened by this interface never
  gives access to a path relative to it.\<close>

lemma relative_access_denied:
  assumes "dir_open_at rs dir path opts = Ok d" "\<not> starts_with_slash q"
  shows "dir_access_at d q = Err PermissionDenied" "open_file_at rs' d q opts' = (Err PermissionDenied, rs')"
    "dir_create_dir rs' d q = Err PermissionDenied"
proof -
  have "wc_cap (dir_node d) = options_cap opts"
    using assms(1) by (auto simp: dir_open_at_def bind_outcome_eq_Ok withcap_new_def split: if_splits)
  then show a: "dir_access_at d q = Err PermissionDenied"
    using assms(2) by (simp add: dir_access_at_def cap_access_def can_access_def cap_flags)
  then show "open_file_at rs' d q opts' = (Err PermissionDenied, rs')" "dir_create_dir rs' d q = Err PermissionDenied"
    by (simp_all add: open_file_at_def dir_create_dir_def)
qed

text \<open>Files of the RAM and device file systems do not implement \<open>fsync\<close>, so flushing them fails.\<close>

lemma flush_fails:
  assumes "fs_nodes (rs_store rs) (wc_inner (file_node f)) = Some (RamFile c)" "can_access CAP_WRITE (file_node f)"
  shows "fops_flush rs f = Err InvalidInput"
  using assms by (simp add: fops_flush_def cap_access_def vfs_fsync_def)

section \<open>Lookups only depend on directories\<close>

lemma lookup_cong:
  assumes v: "\<And>k. dview st k = dview st' k" and n: "\<And>k. fs_nodes st k = None \<longleftrightarrow> fs_nodes st' k = None"
  shows "vfs_lookup st n path = vfs_lookup st' n path"
proof (induction "length path" arbitrary: n path rule: less_induct)
  case less
  consider "fs_nodes st n = None" | "fs_nodes st n \<noteq> None" "dview st n = None" | p cs where "dview st n = Some (p, cs)"
    by (cases "dview st n") auto
  then show ?case
  proof cases
    case 1
    then have "fs_nodes st' n = None" using n by blast
    then show ?thesis using 1 by (simp add: vfs_lookup.simps [of st n] vfs_lookup.simps [of st' n])
  next
    case 2
    then have "fs_nodes st' n \<noteq> None" "dview st' n = None" using n v by auto
    then show ?thesis using 2 vfs_lookup_not_dir by simp
  next
    case (3 p cs)
    obtain name rest where sp: "split_path path = (name, rest)" by (cases "split_path path")
    have v': "dview st' n = Some (p, cs)" using 3 v by simp
    have s: "dir_step st' n p cs name = dir_step st n p cs name" by (simp add: dir_step_def)
    show ?thesis
    proof (cases rest)
      case None
      then show ?thesis using vfs_lookup_dir [OF 3 sp] vfs_lookup_dir [OF v' sp] s by simp
    next
      case (Some r)
      then have "length r < length path" using sp split_path_shorter by blast
      then show ?thesis using vfs_lookup_dir [OF 3 sp] vfs_lookup_dir [OF v' sp] s less.hyps Some by simp
    qed
  qed
qed

lemma lookup_mounted_cong:
  assumes "rs_main rs' = rs_main rs" "rs_mounts rs' = rs_mounts rs"
  shows "lookup_mounted_fs rs' path = lookup_mounted_fs rs path"
  unfolding lookup_mounted_strip assms ..

lemma lookup_mounted_store [simp]: "lookup_mounted_fs (rs\<lparr> rs_store := st \<rparr>) path = lookup_mounted_fs rs path"
  by (rule lookup_mounted_cong) simp_all

lemma parent_node_store [simp]: "parent_node_of (rs\<lparr> rs_store := st \<rparr>) dir path = parent_node_of rs dir path"
  by (simp add: parent_node_of_def split: option.splits)

lemma ref_lookup_put_file:
  assumes "fs_nodes (rs_store rs) n = Some (RamFile c)"
  shows "ref_lookup (rs\<lparr> rs_store := fs_put n (RamFile c') (rs_store rs) \<rparr>) r path = ref_lookup rs r path"
proof -
  have "vfs_lookup (fs_put n (RamFile c') (rs_store rs)) k q = vfs_lookup (rs_store rs) k q" for k q
    by (rule lookup_cong) (use put_file_view [OF assms] in auto)
  then show ?thesis by (cases r) (simp_all add: root_lookup_def)
qed

section \<open>Opening new files\<close>

lemma ref_create_new:
  assumes ok: "root_ok rs" and r: "ref_ok rs r" and l: "ref_lookup rs r path = Err NotFound"
    and c: "ref_create rs r path File = Ok rs1" and n: "ref_lookup rs1 r path = Ok n"
  shows "fs_nodes (rs_store rs1) n = Some (RamFile [])"
proof -
  let ?st = "rs_store rs"
  obtain k q where k: "fs_nodes ?st k \<noteq> None" "\<And>rs'. rs_main rs' = rs_main rs \<Longrightarrow> rs_mounts rs' = rs_mounts rs \<Longrightarrow>
      ref_lookup rs' r path = vfs_lookup (rs_store rs') k q"
    "ref_create rs r path File = Ok rs1 \<Longrightarrow> rs1 = rs \<or> vfs_create ?st k q File = Ok (rs_store rs1)"
  proof (cases r)
    case RootDirectory
    obtain f rest where m: "lookup_mounted_fs rs path = (f, rest)" by fastforce
    have "lookup_mounted_fs rs' path = (f, rest)" if "rs_main rs' = rs_main rs" "rs_mounts rs' = rs_mounts rs" for rs'
      using m lookup_mounted_cong [OF that] by simp
    then have "ref_lookup rs' r path = vfs_lookup (rs_store rs') (f_root f) rest"
      if "rs_main rs' = rs_main rs" "rs_mounts rs' = rs_mounts rs" for rs' using that RootDirectory by (simp add: root_lookup_def)
    moreover have "rs1 = rs \<or> vfs_create ?st (f_root f) rest File = Ok (rs_store rs1)" if "ref_create rs r path File = Ok rs1"
      using that RootDirectory m by (auto simp: root_create_def bind_outcome_eq_Ok split: if_splits)
    ultimately show thesis using that [of "f_root f" rest] lookup_mounted_live [OF _ m] ok unfolding root_ok_def by blast
  next
    case (VNode k)
    have "rs1 = rs \<or> vfs_create ?st k path File = Ok (rs_store rs1)" if "ref_create rs r path File = Ok rs1"
      using that VNode by (auto simp: bind_outcome_eq_Ok)
    then show thesis using that [of k path] r VNode by simp
  qed
  obtain st where rs1: "rs1 = rs\<lparr> rs_store := st \<rparr>" using ref_create_ok [OF ok r c] by blast
  have "vfs_lookup ?st k q = Err NotFound" using k(2) [of rs] l by simp
  moreover have lk: "vfs_lookup (rs_store rs1) k q = Ok n" using k(2) [of rs1] n rs1 by simp
  ultimately have ne: "rs_store rs1 \<noteq> ?st" by auto
  then have cr: "vfs_create ?st k q File = Ok (rs_store rs1)" using k(3) [OF c] by auto
  obtain d p cs name nd where a: "added ?st d p cs name nd (rs_store rs1)" "new_node File d = Some nd"
    "vfs_lookup (rs_store rs1) k q = Ok (fs_next ?st)"
    using vfs_create_cases [OF root_ok_store [OF ok] k(1) cr] ne by blast
  have "n = fs_next ?st" using a(3) lk by simp
  then show ?thesis
    using added_view(1) [OF root_ok_store [OF ok] a(1,2)] added_view(4) [OF root_ok_store [OF ok] a(1,2), of n] a(2) by simp
qed

lemma create_file_new:
  assumes ok: "root_ok rs" and d: "dir_ref_ok rs dir" and l: "fs_lookup rs dir path = Err NotFound"
    and c: "fs_create_file rs dir path = (Ok n, rs1)"
  shows "fs_nodes (rs_store rs1) n = Some (RamFile [])" "fs_lookup rs1 dir path = Ok n" "\<exists>st. rs1 = rs\<lparr> rs_store := st \<rparr>"
    "root_ok rs1"
proof -
  let ?r = "parent_node_of rs dir path"
  have p: "path \<noteq> []" "\<not> ends_with [SLASH] path" using c by (auto simp: fs_create_file_def split: if_splits)
  have cr: "ref_create rs ?r path File = Ok rs1" and n: "ref_lookup rs1 ?r path = Ok n"
    using c p by (auto simp: fs_create_file_def Let_def split: outcome.splits)
  have r: "ref_ok rs ?r" using parent_node_ok [OF ok d] .
  have "ref_lookup rs ?r path = Err NotFound"
    using l p ref_lookup_live(1) [OF ok r, of path] by (cases "ref_lookup rs ?r path") (simp_all add: fs_lookup_def)
  from ref_create_new [OF ok r this cr n] show "fs_nodes (rs_store rs1) n = Some (RamFile [])" .
  show s: "\<exists>st. rs1 = rs\<lparr> rs_store := st \<rparr>" using ref_create_ok [OF ok r cr] by blast
  then have "parent_node_of rs1 dir path = ?r" by auto
  then show "fs_lookup rs1 dir path = Ok n" using n p by (simp add: fs_lookup_def)
  show "root_ok rs1" using create_file_ok [OF ok d c] .
qed

lemma fops_write_file:
  assumes n: "fs_nodes (rs_store rs) n = Some (RamFile c)" and f: "file_node f = withcap_new n cap" "flags_contain cap CAP_WRITE"
    and off: "off = (if file_is_append f then of_nat (length c) else file_offset f)"
    and w: "unat off + length buf < 2 ^ 64"
  shows "\<exists>c'. fops_write rs f buf = (Ok (length buf), f\<lparr> file_offset := off + of_nat (length buf) \<rparr>,
      rs\<lparr> rs_store := fs_put n (RamFile c') (rs_store rs) \<rparr>) \<and> file_write_at off buf c = Ok (length buf, c')"
proof -
  obtain c' where c': "file_write_at off buf c = Ok (length buf, c')" using file_write_at_spec [OF w] by blast
  have acc: "cap_access CAP_WRITE (file_node f) = Ok n" "cap_access 0 (file_node f) = Ok n"
    using f by (simp_all add: cap_access_def can_access_def withcap_new_def cap_flags)
  have "(if file_is_append f then bind_outcome (fops_get_attr rs f) (\<lambda>a. Ok (f\<lparr> file_offset := attr_size a \<rparr>)) else Ok f) =
      Ok (f\<lparr> file_offset := off \<rparr>)"
    using off n acc(2) by (simp add: fops_get_attr_def vfs_get_attr_def attr_new_file_def)
  moreover have "vfs_write_at (rs_store rs) n off buf = Ok (length buf, fs_put n (RamFile c') (rs_store rs))"
    using n c' by (simp add: vfs_write_at_def)
  ultimately show ?thesis using acc(1) c' by (simp add: fops_write_def)
qed

lemma file_write_new:
  assumes "length buf < 2 ^ 64" "file_write_at 0 buf [] = Ok (k, c')"
  shows "c' = buf"
proof -
  have "length c' = length buf" "\<forall>i<length c'. c' ! i = buf ! i"
    using file_write_at_spec [of 0 buf "[]"] assms by auto
  then show ?thesis by (simp add: nth_equalityI)
qed

lemma fs_lookup_put_file:
  assumes "fs_nodes (rs_store rs) n = Some (RamFile c)" "\<not> ends_with [SLASH] path"
  shows "fs_lookup (rs\<lparr> rs_store := fs_put n (RamFile c') (rs_store rs) \<rparr>) dir path = fs_lookup rs dir path"
  using assms(2) ref_lookup_put_file [OF assms(1)] by (simp add: fs_lookup_def)

text \<open>Opening a file that does not exist gives a new empty one.\<close>

lemma open_new:
  assumes ok: "root_ok rs" and d: "dir_ref_ok rs dir" and l: "fs_lookup rs dir path = Err NotFound"
    and o: "file_open_at rs dir path opts = (Ok f, rs1)"
  shows "\<exists>n. f = \<lparr> file_node = withcap_new n (options_cap opts), file_is_append = opt_append opts, file_offset = 0 \<rparr> \<and>
    fs_nodes (rs_store rs1) n = Some (RamFile []) \<and> fs_lookup rs1 dir path = Ok n \<and> \<not> ends_with [SLASH] path"
proof -
  obtain n rs' where v: "open_node rs dir path opts = (Ok n, rs')"
    "f = \<lparr> file_node = withcap_new n (options_cap opts), file_is_append = opt_append opts, file_offset = 0 \<rparr>"
    "if opt_truncate opts then \<exists>st. vfs_truncate (rs_store rs') n 0 = Ok st \<and> rs1 = rs'\<lparr> rs_store := st \<rparr> else rs1 = rs'"
    using open_okD [OF o] by metis
  have c: "fs_create_file rs dir path = (Ok n, rs')" using v(1) l by (simp add: open_node_def Let_def split: if_splits)
  note n = create_file_new [OF ok d l c]
  have p: "\<not> ends_with [SLASH] path" using c by (auto simp: fs_create_file_def split: if_splits)
  have "rs1 = rs' \<or> rs1 = rs'\<lparr> rs_store := fs_put n (RamFile []) (rs_store rs') \<rparr>"
    using v(3) n(1) by (auto simp: vfs_truncate_def file_truncate_def vec_resize_def split: if_splits)
  then show ?thesis
    using v(2) n(1,2) p fs_lookup_put_file [OF n(1) p] by (auto simp: fs_put_def)
qed

section \<open>Properties\<close>

text \<open>Options of the witnesses.\<close>

definition opts_r :: OpenOptions where "opts_r = set_read True options_new"
definition opts_rwc :: OpenOptions where "opts_rwc = set_create True (set_write True opts_r)"

text \<open>C29: Opening a file without asking for write or append access changes nothing, and through the
  file nothing can be changed either: truncating and writing are refused.\<close>

theorem read_only_file_safe:
  assumes "file_open_at rs dir path opts = (Ok f, rs')" "\<not> opt_write opts" "\<not> opt_append opts"
  shows "rs' = rs \<and> fops_truncate rs1 f sz = Err PermissionDenied \<and> fops_write rs1 f buf = (Err PermissionDenied, f, rs1) \<and>
    fops_write_at rs1 f off buf = Err PermissionDenied"
  using not_writable [OF assms] by (simp add: fops_truncate_def fops_write_def fops_write_at_def)

theorem read_only_file_safe_witness:
  "\<exists>f. file_open_at demo_rs None (str ''/dev/zero'') opts_r = (Ok f, demo_rs) \<and>
    fops_write_at demo_rs f 0 [1] = Err PermissionDenied"
proof -
  have "is_ok (fst (file_open_at demo_rs None (str ''/dev/zero'') opts_r))" "\<not> opt_write opts_r" "\<not> opt_append opts_r"
    by code_simp+
  then obtain f rs' where f: "file_open_at demo_rs None (str ''/dev/zero'') opts_r = (Ok f, rs')"
    by (cases "file_open_at demo_rs None (str ''/dev/zero'') opts_r"; cases "fst (file_open_at demo_rs None (str ''/dev/zero'') opts_r)")
      (auto simp: is_ok_def)
  then show ?thesis using read_only_file_safe [OF f] \<open>\<not> opt_write opts_r\<close> \<open>\<not> opt_append opts_r\<close> by auto
qed

lemma open_to_read:
  assumes "fs_lookup rs dir path = Ok n" "fs_nodes (rs_store rs) n = Some (RamFile c)"
  shows "file_open_at rs dir path opts_r = (Ok \<lparr> file_node = withcap_new n CAP_READ, file_is_append = False, file_offset = 0 \<rparr>, rs)"
proof -
  have o: "options_valid opts_r" "opt_create opts_r = False" "opt_create_new opts_r = False" "opt_truncate opts_r = False"
    "opt_append opts_r = False" "opt_write opts_r = False" "options_cap opts_r = CAP_READ"
    "flags_contain (perm_to_cap default_file) CAP_READ"
    by code_simp+
  then show ?thesis
    using assms
    by (simp add: file_open_at_def open_node_def open_check_def Let_def vfs_get_attr_def attr_new_file_def attr_is_dir_def)
qed

text \<open>C26: A file that is created by opening a new path keeps what is written to it: the write stores the
  whole buffer, and opening the path again for reading and reading at least as many bytes gives back
  exactly the buffer.\<close>

theorem new_file_roundtrip:
  assumes "root_reach rs" "dir_ref_ok rs dir" "fs_lookup rs dir path = Err NotFound"
    and o: "file_open_at rs dir path opts = (Ok f, rs1)" and wr: "opt_write opts \<or> opt_append opts"
    and len: "length buf \<le> blen" "blen < 2 ^ 64"
  shows "\<exists>f' rs2 g g'. fops_write rs1 f buf = (Ok (length buf), f', rs2) \<and>
    file_open_at rs2 dir path opts_r = (Ok g, rs2) \<and> fops_read rs2 g blen = Ok (buf, g')"
proof -
  obtain n where f: "f = \<lparr> file_node = withcap_new n (options_cap opts), file_is_append = opt_append opts, file_offset = 0 \<rparr>"
    and n: "fs_nodes (rs_store rs1) n = Some (RamFile [])" "fs_lookup rs1 dir path = Ok n" "\<not> ends_with [SLASH] path"
    using open_new [OF root_reach_ok [OF assms(1)] assms(2,3) o] by blast
  have z: "0 = (if file_is_append f then of_nat (length ([] :: bytes)) else file_offset f)" using f by simp
  have "flags_contain (options_cap opts) CAP_WRITE" using wr by (simp add: cap_flags)
  then obtain c' where w: "fops_write rs1 f buf = (Ok (length buf), f\<lparr> file_offset := 0 + of_nat (length buf) \<rparr>,
      rs1\<lparr> rs_store := fs_put n (RamFile c') (rs_store rs1) \<rparr>)" "file_write_at 0 buf [] = Ok (length buf, c')"
    using fops_write_file [OF n(1) _ _ z, of "options_cap opts" buf] f len by auto
  have c': "c' = buf" using file_write_new [OF _ w(2)] len by simp
  let ?rs2 = "rs1\<lparr> rs_store := fs_put n (RamFile buf) (rs_store rs1) \<rparr>"
  have "fs_lookup ?rs2 dir path = Ok n" using fs_lookup_put_file [OF n(1,3)] n(2) by simp
  from open_to_read [OF this, of buf] have g: "file_open_at ?rs2 dir path opts_r =
      (Ok \<lparr> file_node = withcap_new n CAP_READ, file_is_append = False, file_offset = 0 \<rparr>, ?rs2)"
    by (simp add: fs_put_def)
  have "file_read_at 0 blen buf = Ok buf" using file_read_at_spec [of 0 blen buf] len by simp
  then have "\<exists>g'. fops_read ?rs2 \<lparr> file_node = withcap_new n CAP_READ, file_is_append = False, file_offset = 0 \<rparr> blen = Ok (buf, g')"
    by (simp add: fops_read_def cap_access_def can_access_def withcap_new_def flags_contain_def vfs_read_at_def fs_put_def)
  then show ?thesis using w(1) c' g by auto
qed

theorem new_file_roundtrip_witness:
  "\<exists>f rs1 f' rs2 g g'. file_open_at demo_rs None (str ''/tmp/a'') opts_rwc = (Ok f, rs1) \<and>
    fops_write rs1 f [7, 8, 9] = (Ok 3, f', rs2) \<and> file_open_at rs2 None (str ''/tmp/a'') opts_r = (Ok g, rs2) \<and>
    fops_read rs2 g 10 = Ok ([7, 8, 9], g')"
proof -
  let ?o = "file_open_at demo_rs None (str ''/tmp/a'') opts_rwc"
  have "is_ok (fst ?o)" and w: "opt_write opts_rwc" and l: "fs_lookup demo_rs None (str ''/tmp/a'') = Err NotFound"
    by code_simp+
  then obtain f rs1 where f: "?o = (Ok f, rs1)" by (cases ?o; cases "fst ?o") (auto simp: is_ok_def)
  have "dir_ref_ok demo_rs None" by (simp add: dir_ref_ok_def)
  from new_file_roundtrip [OF demo_rs_reach this l f, of "[7, 8, 9]" 10] w f show ?thesis by (simp add: numeral_3_eq_3)
qed

text \<open>C30: A file opened for appending writes at the end of the file wherever its cursor is: the new
  content is the old content followed by the buffer.\<close>

theorem append_writes_at_end:
  assumes n: "fs_nodes (rs_store rs) n = Some (RamFile c)" and f: "file_node f = withcap_new n cap" "flags_contain cap CAP_WRITE"
    and a: "file_is_append f" and len: "length c + length buf < 2 ^ 64"
  shows "\<exists>f' rs'. fops_write rs f buf = (Ok (length buf), f', rs') \<and> fs_nodes (rs_store rs') n = Some (RamFile (c @ buf))"
proof -
  have o: "unat (of_nat (length c) :: u64) = length c" using len by (simp add: unat_of_nat)
  obtain c' where w: "fops_write rs f buf = (Ok (length buf), f\<lparr> file_offset := of_nat (length c) + of_nat (length buf) \<rparr>,
      rs\<lparr> rs_store := fs_put n (RamFile c') (rs_store rs) \<rparr>)" "file_write_at (of_nat (length c)) buf c = Ok (length buf, c')"
    using fops_write_file [OF n f, of "of_nat (length c)" buf] a len o by auto
  have "length c' = length (c @ buf)" "\<forall>i<length c'. c' ! i = (c @ buf) ! i"
    using file_write_at_spec [of "of_nat (length c)" buf c] w(2) len o by (auto simp: nth_append)
  then have "c' = c @ buf" by (simp add: nth_equalityI)
  then show ?thesis using w(1) by (simp add: fs_put_def)
qed

theorem append_writes_at_end_witness:
  "\<exists>f' rs'. fops_write (root_new \<lparr> f_parent = None, f_root = 0 \<rparr> demo_file)
      \<lparr> file_node = withcap_new 2 CAP_WRITE, file_is_append = True, file_offset = 5 \<rparr> [7] = (Ok 1, f', rs') \<and>
    fs_nodes (rs_store rs') 2 = Some (RamFile [7])"
proof -
  let ?rs = "root_new \<lparr> f_parent = None, f_root = 0 \<rparr> demo_file"
  let ?f = "\<lparr> file_node = withcap_new 2 CAP_WRITE, file_is_append = True, file_offset = 5 \<rparr>"
  have "fs_nodes (rs_store ?rs) 2 = Some (RamFile [])" by (simp add: root_new_def demo_nodes)
  from append_writes_at_end [OF this, of ?f CAP_WRITE "[7]"] show ?thesis by (simp add: flags_contain_def)
qed

lemma checked_add_signed_Some: "checked_add_signed x d = Some p \<Longrightarrow> uint p = uint x + sint d"
proof -
  have "uint (word_of_int s :: u64) = s" if "0 \<le> s" "s < 2 ^ 64" for s
    using that by (simp add: uint_word_of_int)
  then show "checked_add_signed x d = Some p \<Longrightarrow> uint p = uint x + sint d"
    unfolding checked_add_signed_def Let_def by (metis option.distinct(1) option.inject)
qed

lemma checked_add_signed_None: "checked_add_signed x d = None \<longleftrightarrow> uint x + sint d \<notin> {0..<2 ^ 64}"
  by (auto simp: checked_add_signed_def Let_def)

text \<open>C31: Seeking gives the exact sum of the base position and the signed offset, and is refused when the
  sum is negative or does not fit; the cursor moves only when it succeeds.\<close>

theorem seek_exact:
  assumes n: "vfs_get_attr (rs_store rs) (wc_inner (file_node f)) = Ok a"
  shows "(case fops_seek rs f pos of
      Ok (p, f') \<Rightarrow> f' = f\<lparr> file_offset := p \<rparr> \<and>
        uint p = (case pos of SeekStart x \<Rightarrow> uint x | SeekCurrent d \<Rightarrow> uint (file_offset f) + sint d
          | SeekEnd d \<Rightarrow> uint (attr_size a) + sint d)
    | Err e \<Rightarrow> e = InvalidInput \<and> (case pos of SeekStart x \<Rightarrow> False
        | SeekCurrent d \<Rightarrow> uint (file_offset f) + sint d \<notin> {0..<2 ^ 64}
        | SeekEnd d \<Rightarrow> uint (attr_size a) + sint d \<notin> {0..<2 ^ 64})
    | Panic \<Rightarrow> False)"
proof -
  have "fops_get_attr rs f = Ok a" using n by (simp add: fops_get_attr_def cap_access_def can_access_def cap_flags)
  then show ?thesis
    by (cases pos) (auto simp: fops_seek_def ok_or_def checked_add_signed_None dest: checked_add_signed_Some
        split: option.splits)
qed

theorem seek_exact_witness:
  "fops_seek (root_new \<lparr> f_parent = None, f_root = 0 \<rparr> demo_file)
      \<lparr> file_node = withcap_new 2 CAP_READ, file_is_append = False, file_offset = 5 \<rparr> (SeekCurrent (- 6)) = Err InvalidInput"
proof -
  let ?rs = "root_new \<lparr> f_parent = None, f_root = 0 \<rparr> demo_file"
  let ?f = "\<lparr> file_node = withcap_new 2 CAP_READ, file_is_append = False, file_offset = 5 \<rparr>"
  have "vfs_get_attr (rs_store ?rs) (wc_inner (file_node ?f)) = Ok (attr_new_file 0 0)"
    by (simp add: root_new_def vfs_get_attr_def demo_nodes withcap_new_def)
  note s = seek_exact [OF this, of "SeekCurrent (- 6)"]
  have "uint (p :: u64) \<noteq> - 1" for p using uint_ge_0 [of p] by linarith
  then show ?thesis using s by (cases "fops_seek ?rs ?f (SeekCurrent (- 6))") auto
qed

end
