(* ===== verification/Flatten_Objects.thy ===== *)
theory Flatten_Objects
  imports Prelude
begin

text \<open>
  The container of numbered objects, \<open>src/crates/flatten_objects\<close>. The bitmap of used identifiers
  comes from the package \<open>bitmaps\<close> and is a parameter: a locale states what it documents. An object
  slot is \<open>None\<close> until it is written; reading it before, or an index outside the array, is \<open>Panic\<close>.
\<close>

section \<open>The bitmap\<close>

record 'b bitmap_ops =
  bm_zero :: 'b
  bm_get :: "'b \<Rightarrow> nat \<Rightarrow> bool"
  bm_set :: "'b \<Rightarrow> nat \<Rightarrow> bool \<Rightarrow> 'b"
  bm_first_false :: "'b \<Rightarrow> nat option"

definition BITMAP_BITS :: nat where "BITMAP_BITS = 1024"

section \<open>Operations\<close>

record ('a, 'b) FlattenObjects =
  fo_objects :: "nat \<Rightarrow> 'a option"
  fo_id_bitmap :: 'b
  fo_count :: nat

definition fo_new :: "'b bitmap_ops \<Rightarrow> nat \<Rightarrow> ('a, 'b) FlattenObjects option" where
  "fo_new B cap = (if cap \<le> 1024 then Some \<lparr> fo_objects = (\<lambda>_. None), fo_id_bitmap = bm_zero B, fo_count = 0 \<rparr> else None)"

definition is_assigned :: "'b bitmap_ops \<Rightarrow> nat \<Rightarrow> ('a, 'b) FlattenObjects \<Rightarrow> nat \<Rightarrow> bool" where
  "is_assigned B cap fo oid \<longleftrightarrow> oid < cap \<and> bm_get B (fo_id_bitmap fo) oid"

definition fo_get :: "'b bitmap_ops \<Rightarrow> nat \<Rightarrow> ('a, 'b) FlattenObjects \<Rightarrow> nat \<Rightarrow> ('a option, unit) outcome" where
  "fo_get B cap fo oid = (if is_assigned B cap fo oid
     then (case fo_objects fo oid of Some v \<Rightarrow> Ok (Some v) | None \<Rightarrow> Panic) else Ok None)"

text \<open>\<open>get_mut\<close> followed by storing a new value through the reference.\<close>

definition fo_get_mut :: "'b bitmap_ops \<Rightarrow> nat \<Rightarrow> ('a, 'b) FlattenObjects \<Rightarrow> nat \<Rightarrow> 'a \<Rightarrow>
    (('a, 'b) FlattenObjects option, unit) outcome" where
  "fo_get_mut B cap fo oid v = (if is_assigned B cap fo oid
     then (case fo_objects fo oid of Some _ \<Rightarrow> Ok (Some (fo\<lparr> fo_objects := (fo_objects fo)(oid \<mapsto> v) \<rparr>)) | None \<Rightarrow> Panic)
     else Ok None)"

definition fo_add :: "'b bitmap_ops \<Rightarrow> nat \<Rightarrow> 'a \<Rightarrow> ('a, 'b) FlattenObjects \<Rightarrow> nat option \<times> ('a, 'b) FlattenObjects" where
  "fo_add B cap v fo = (case bm_first_false B (fo_id_bitmap fo) of
     None \<Rightarrow> (None, fo)
   | Some oid \<Rightarrow> if oid < cap
       then (Some oid, fo\<lparr> fo_count := fo_count fo + 1, fo_id_bitmap := bm_set B (fo_id_bitmap fo) oid True,
                           fo_objects := (fo_objects fo)(oid \<mapsto> v) \<rparr>)
       else (None, fo))"

definition fo_add_at :: "'b bitmap_ops \<Rightarrow> nat \<Rightarrow> nat \<Rightarrow> 'a \<Rightarrow> ('a, 'b) FlattenObjects \<Rightarrow>
    (nat option \<times> ('a, 'b) FlattenObjects, unit) outcome" where
  "fo_add_at B cap oid v fo =
    (if is_assigned B cap fo oid then Ok (None, fo)
     else if oid < cap
       then Ok (Some oid, fo\<lparr> fo_count := fo_count fo + 1, fo_id_bitmap := bm_set B (fo_id_bitmap fo) oid True,
                              fo_objects := (fo_objects fo)(oid \<mapsto> v) \<rparr>)
       else Panic)"

definition fo_remove :: "'b bitmap_ops \<Rightarrow> nat \<Rightarrow> nat \<Rightarrow> ('a, 'b) FlattenObjects \<Rightarrow>
    ('a option \<times> ('a, 'b) FlattenObjects, unit) outcome" where
  "fo_remove B cap oid fo = (if is_assigned B cap fo oid
     then (case fo_objects fo oid of
         Some v \<Rightarrow> Ok (Some v, fo\<lparr> fo_id_bitmap := bm_set B (fo_id_bitmap fo) oid False, fo_count := fo_count fo - 1 \<rparr>)
       | None \<Rightarrow> Panic)
     else Ok (None, fo))"

section \<open>The container as a map\<close>

definition fo_map :: "'b bitmap_ops \<Rightarrow> nat \<Rightarrow> ('a, 'b) FlattenObjects \<Rightarrow> nat \<Rightarrow> 'a option" where
  "fo_map B cap fo oid = (if is_assigned B cap fo oid then fo_objects fo oid else None)"

definition fo_ok :: "'b bitmap_ops \<Rightarrow> nat \<Rightarrow> ('a, 'b) FlattenObjects \<Rightarrow> bool" where
  "fo_ok B cap fo \<longleftrightarrow> cap \<le> BITMAP_BITS \<and> (\<forall>oid. is_assigned B cap fo oid \<longrightarrow> fo_objects fo oid \<noteq> None) \<and>
    (\<forall>oid<BITMAP_BITS. bm_get B (fo_id_bitmap fo) oid \<longrightarrow> oid < cap) \<and>
    fo_count fo = card {oid. is_assigned B cap fo oid}"

locale id_bitmap =
  fixes B :: "'b bitmap_ops"
  assumes get_zero: "i < BITMAP_BITS \<Longrightarrow> \<not> bm_get B (bm_zero B) i"
    and get_set: "i < BITMAP_BITS \<Longrightarrow> j < BITMAP_BITS \<Longrightarrow>
      bm_get B (bm_set B b i v) j = (if j = i then v else bm_get B b j)"
    and first_false_Some: "bm_first_false B b = Some i \<Longrightarrow>
      i < BITMAP_BITS \<and> \<not> bm_get B b i \<and> (\<forall>j<i. bm_get B b j)"
    and first_false_None: "bm_first_false B b = None \<Longrightarrow> i < BITMAP_BITS \<Longrightarrow> bm_get B b i"
begin

lemma new_ok:
  assumes "fo_new B cap = Some fo"
  shows "fo_ok B cap fo" "fo_map B cap fo = Map.empty"
proof -
  have "cap \<le> BITMAP_BITS" "fo_id_bitmap fo = bm_zero B" "fo_count fo = 0"
    using assms by (auto simp: fo_new_def BITMAP_BITS_def split: if_splits)
  moreover from this have "\<not> is_assigned B cap fo oid" for oid using get_zero by (auto simp: is_assigned_def)
  ultimately show "fo_ok B cap fo" "fo_map B cap fo = Map.empty"
    using get_zero by (auto simp: fo_ok_def fo_map_def)
qed

lemma assigned_set:
  assumes "cap \<le> BITMAP_BITS" "oid < cap" "fo_id_bitmap fo' = bm_set B (fo_id_bitmap fo) oid v"
  shows "is_assigned B cap fo' k \<longleftrightarrow> (if k = oid then v else is_assigned B cap fo k)"
  using assms get_set [of oid k] by (auto simp: is_assigned_def)

lemma assigned_finite: "finite {oid. is_assigned B cap fo oid}"
  by (rule finite_subset [of _ "{..<cap}"]) (auto simp: is_assigned_def)

lemma put_ok:
  assumes ok: "fo_ok B cap fo" and oid: "oid < cap" "\<not> is_assigned B cap fo oid"
    and fo': "fo' = fo\<lparr> fo_count := fo_count fo + 1, fo_id_bitmap := bm_set B (fo_id_bitmap fo) oid True,
      fo_objects := (fo_objects fo)(oid \<mapsto> v) \<rparr>"
  shows "fo_ok B cap fo'" "fo_map B cap fo' = (fo_map B cap fo)(oid \<mapsto> v)"
proof -
  have cap: "cap \<le> BITMAP_BITS" using ok by (simp add: fo_ok_def)
  have a: "is_assigned B cap fo' k \<longleftrightarrow> k = oid \<or> is_assigned B cap fo k" for k
    using assigned_set [OF cap oid(1), of fo' fo True k] by (auto simp: fo')
  have "{k. is_assigned B cap fo' k} = insert oid {k. is_assigned B cap fo k}" using a by auto
  then have "fo_count fo' = card {k. is_assigned B cap fo' k}"
    using ok oid(2) card_insert_disjoint [OF assigned_finite, of oid cap fo] fo' by (simp add: fo_ok_def)
  moreover have "bm_get B (fo_id_bitmap fo') k \<Longrightarrow> k < cap" if "k < BITMAP_BITS" for k
    using ok that oid(1) cap get_set [of oid k] by (auto simp: fo' fo_ok_def split: if_splits)
  ultimately show "fo_ok B cap fo'" using ok a by (auto simp: fo_ok_def fo')
  have "fo_objects fo' = (fo_objects fo)(oid \<mapsto> v)" by (simp add: fo')
  then show "fo_map B cap fo' = (fo_map B cap fo)(oid \<mapsto> v)" by (auto simp: fo_map_def a fun_eq_iff)
qed

lemma remove_ok:
  assumes ok: "fo_ok B cap fo" and oid: "is_assigned B cap fo oid"
    and fo': "fo' = fo\<lparr> fo_id_bitmap := bm_set B (fo_id_bitmap fo) oid False, fo_count := fo_count fo - 1 \<rparr>"
  shows "fo_ok B cap fo'" "fo_map B cap fo' = (fo_map B cap fo)(oid := None)"
proof -
  have cap: "cap \<le> BITMAP_BITS" "oid < cap" using ok oid by (simp_all add: fo_ok_def is_assigned_def)
  have a: "is_assigned B cap fo' k \<longleftrightarrow> k \<noteq> oid \<and> is_assigned B cap fo k" for k
    using assigned_set [OF cap, of fo' fo False k] by (auto simp: fo')
  have "{k. is_assigned B cap fo' k} = {k. is_assigned B cap fo k} - {oid}" using a by auto
  then have "fo_count fo' = card {k. is_assigned B cap fo' k}"
    using ok oid assigned_finite [of cap fo] by (simp add: fo' fo_ok_def card_Diff_singleton)
  moreover have "bm_get B (fo_id_bitmap fo') k \<Longrightarrow> k < cap" if "k < BITMAP_BITS" for k
    using ok that cap get_set [of oid k] by (auto simp: fo' fo_ok_def split: if_splits)
  ultimately show "fo_ok B cap fo'" using ok a by (auto simp: fo_ok_def fo')
  have "fo_objects fo' = fo_objects fo" by (simp add: fo')
  then show "fo_map B cap fo' = (fo_map B cap fo)(oid := None)" by (auto simp: fo_map_def a fun_eq_iff)
qed

lemma add_spec:
  assumes ok: "fo_ok B cap fo" and a: "fo_add B cap v fo = (r, fo')"
  shows "case r of
      Some oid \<Rightarrow> oid < cap \<and> fo_map B cap fo oid = None \<and> (\<forall>j<oid. fo_map B cap fo j \<noteq> None) \<and>
        fo_ok B cap fo' \<and> fo_map B cap fo' = (fo_map B cap fo)(oid \<mapsto> v)
    | None \<Rightarrow> fo' = fo \<and> (\<forall>j<cap. fo_map B cap fo j \<noteq> None)"
proof -
  have cap: "cap \<le> BITMAP_BITS" and some: "\<And>j. is_assigned B cap fo j \<Longrightarrow> fo_map B cap fo j \<noteq> None"
    using ok by (auto simp: fo_ok_def fo_map_def)
  show ?thesis
  proof (cases "bm_first_false B (fo_id_bitmap fo)")
    case None
    then have "is_assigned B cap fo j" if "j < cap" for j
      using first_false_None [OF None, of j] that cap by (simp add: is_assigned_def)
    then show ?thesis using a None some by (auto simp: fo_add_def)
  next
    case (Some oid)
    note f = first_false_Some [OF Some]
    show ?thesis
    proof (cases "oid < cap")
      case True
      then have n: "\<not> is_assigned B cap fo oid" using f by (simp add: is_assigned_def)
      have "is_assigned B cap fo j" if "j < oid" for j using f that True by (simp add: is_assigned_def)
      then have below: "\<forall>j<oid. fo_map B cap fo j \<noteq> None" using some by blast
      have "r = Some oid" and fo': "fo' = fo\<lparr> fo_count := fo_count fo + 1, fo_id_bitmap := bm_set B (fo_id_bitmap fo) oid True,
          fo_objects := (fo_objects fo)(oid \<mapsto> v) \<rparr>"
        using a Some True by (simp_all add: fo_add_def)
      then show ?thesis using True below n put_ok [OF ok True n fo'] by (simp add: fo_map_def [of B cap fo oid])
    next
      case False
      then have "is_assigned B cap fo j" if "j < cap" for j using f that by (simp add: is_assigned_def)
      then show ?thesis using a Some False some by (auto simp: fo_add_def)
    qed
  qed
qed

lemma add_at_spec:
  assumes ok: "fo_ok B cap fo" and oid: "oid < cap"
  shows "\<exists>r fo'. fo_add_at B cap oid v fo = Ok (r, fo') \<and> fo_ok B cap fo' \<and>
    (if fo_map B cap fo oid = None then r = Some oid \<and> fo_map B cap fo' = (fo_map B cap fo)(oid \<mapsto> v) else r = None \<and> fo' = fo)"
proof (cases "is_assigned B cap fo oid")
  case True
  then show ?thesis using ok by (auto simp: fo_add_at_def fo_map_def fo_ok_def)
next
  case False
  then show ?thesis using oid put_ok [OF ok oid False refl, of v] by (auto simp: fo_add_at_def fo_map_def)
qed

lemma get_spec: "fo_ok B cap fo \<Longrightarrow> fo_get B cap fo oid = Ok (fo_map B cap fo oid)"
  by (auto simp: fo_get_def fo_map_def fo_ok_def)

lemma remove_spec:
  assumes ok: "fo_ok B cap fo"
  shows "\<exists>fo'. fo_remove B cap oid fo = Ok (fo_map B cap fo oid, fo') \<and> fo_ok B cap fo' \<and>
    fo_map B cap fo' = (fo_map B cap fo)(oid := None)"
proof (cases "is_assigned B cap fo oid")
  case True
  then obtain v where "fo_objects fo oid = Some v" using ok by (auto simp: fo_ok_def)
  then show ?thesis using True remove_ok [OF ok True refl] by (auto simp: fo_remove_def fo_map_def)
next
  case False
  then show ?thesis using ok by (auto simp: fo_remove_def fo_map_def)
qed

lemma count_spec: "fo_ok B cap fo \<Longrightarrow> fo_count fo = card (dom (fo_map B cap fo))"
  by (auto simp: fo_ok_def fo_map_def dom_def intro!: arg_cong [of _ _ card])

end

text \<open>A bitmap as a predicate with a search from the front.\<close>

definition fun_bitmap :: "(nat \<Rightarrow> bool) bitmap_ops" where
  "fun_bitmap = \<lparr> bm_zero = (\<lambda>_. False), bm_get = (\<lambda>b i. b i), bm_set = (\<lambda>b i v. b(i := v)),
     bm_first_false = (\<lambda>b. find (\<lambda>i. \<not> b i) [0..<BITMAP_BITS]) \<rparr>"

interpretation fb: id_bitmap fun_bitmap
proof unfold_locales
  fix b :: "nat \<Rightarrow> bool" and i
  assume "bm_first_false fun_bitmap b = Some i"
  then have "i < BITMAP_BITS" "\<not> b i" "\<forall>j<i. b j"
    by (auto simp: fun_bitmap_def find_Some_iff)
  then show "i < BITMAP_BITS \<and> \<not> bm_get fun_bitmap b i \<and> (\<forall>j<i. bm_get fun_bitmap b j)" by (simp add: fun_bitmap_def)
qed (auto simp: fun_bitmap_def find_None_iff)

end
