(* ===== verification/Pipe.thy ===== *)
theory Pipe
  imports Vfs
begin

text \<open>
  Pipes, \<open>src/api/arceos_posix_api/src/imp/pipe.rs\<close>: the ring buffer, the two loops of \<open>read\<close> and
  \<open>write\<close>, one iteration of which runs under the lock of the buffer, and a system of one reader and
  one writer whose iterations interleave in any order.
\<close>

section \<open>The ring buffer\<close>

datatype RingBufferStatus = RingFull | RingEmpty | RingNormal

definition RING_BUFFER_SIZE :: nat where "RING_BUFFER_SIZE = 256"

record PipeRingBuffer =
  ring_arr :: bytes
  ring_head :: nat
  ring_tail :: nat
  ring_status :: RingBufferStatus

definition ring_new :: PipeRingBuffer where
  "ring_new = \<lparr> ring_arr = replicate RING_BUFFER_SIZE 0, ring_head = 0, ring_tail = 0, ring_status = RingEmpty \<rparr>"

text \<open>An index outside the array would panic (\<open>None\<close>).\<close>

definition write_byte :: "u8 \<Rightarrow> PipeRingBuffer \<Rightarrow> PipeRingBuffer option" where
  "write_byte byte r =
    (if ring_tail r < length (ring_arr r) then
       let r1 = r\<lparr> ring_status := RingNormal, ring_arr := (ring_arr r)[ring_tail r := byte],
                   ring_tail := (ring_tail r + 1) mod RING_BUFFER_SIZE \<rparr>
       in Some (if ring_tail r1 = ring_head r1 then r1\<lparr> ring_status := RingFull \<rparr> else r1)
     else None)"

definition read_byte :: "PipeRingBuffer \<Rightarrow> (u8 \<times> PipeRingBuffer) option" where
  "read_byte r =
    (if ring_head r < length (ring_arr r) then
       let c = ring_arr r ! ring_head r;
           r1 = r\<lparr> ring_status := RingNormal, ring_head := (ring_head r + 1) mod RING_BUFFER_SIZE \<rparr>
       in Some (c, if ring_head r1 = ring_tail r1 then r1\<lparr> ring_status := RingEmpty \<rparr> else r1)
     else None)"

definition available_read :: "PipeRingBuffer \<Rightarrow> nat" where
  "available_read r =
    (if ring_status r = RingEmpty then 0
     else if ring_tail r > ring_head r then ring_tail r - ring_head r
     else ring_tail r + RING_BUFFER_SIZE - ring_head r)"

definition available_write :: "PipeRingBuffer \<Rightarrow> nat" where
  "available_write r = (if ring_status r = RingFull then 0 else RING_BUFFER_SIZE - available_read r)"

subsection \<open>The buffer as a queue\<close>

definition ring_ok :: "PipeRingBuffer \<Rightarrow> bool" where
  "ring_ok r \<longleftrightarrow> length (ring_arr r) = RING_BUFFER_SIZE \<and> ring_head r < RING_BUFFER_SIZE \<and> ring_tail r < RING_BUFFER_SIZE \<and>
    (ring_head r = ring_tail r \<longleftrightarrow> ring_status r \<noteq> RingNormal)"

definition ring_contents :: "PipeRingBuffer \<Rightarrow> bytes" where
  "ring_contents r = map (\<lambda>i. ring_arr r ! ((ring_head r + i) mod RING_BUFFER_SIZE)) [0..<available_read r]"

lemma ring_new_ok: "ring_ok ring_new" "ring_contents ring_new = []"
  by (simp_all add: ring_ok_def ring_new_def ring_contents_def available_read_def RING_BUFFER_SIZE_def)

lemma length_ring_contents [simp]: "length (ring_contents r) = available_read r"
  by (simp add: ring_contents_def)

lemma available_le: "ring_ok r \<Longrightarrow> available_read r \<le> RING_BUFFER_SIZE"
  by (auto simp: ring_ok_def available_read_def)

lemma available_write_read: "ring_ok r \<Longrightarrow> available_write r = RING_BUFFER_SIZE - available_read r"
  by (cases "ring_status r") (auto simp: ring_ok_def available_write_def available_read_def)

text \<open>The end of the data is where the next byte is written.\<close>

lemma ring_tail_pos:
  assumes "ring_ok r"
  shows "(ring_head r + available_read r) mod RING_BUFFER_SIZE = ring_tail r"
proof (cases "ring_status r = RingEmpty")
  case False
  then consider "ring_tail r > ring_head r" | "ring_tail r \<le> ring_head r" by linarith
  then show ?thesis
  proof cases
    case 2
    then have "ring_head r + available_read r = ring_tail r + RING_BUFFER_SIZE"
      using False assms by (simp add: available_read_def ring_ok_def)
    then show ?thesis using assms by (simp add: ring_ok_def)
  qed (use False assms in \<open>simp add: available_read_def ring_ok_def\<close>)
qed (use assms in \<open>simp add: available_read_def ring_ok_def\<close>)

lemma mod_ring_inj:
  assumes "i < RING_BUFFER_SIZE" "j < RING_BUFFER_SIZE" "(h + i) mod RING_BUFFER_SIZE = (h + j) mod RING_BUFFER_SIZE"
  shows "i = j"
proof -
  have *: "i = j" if "i \<le> j" "j < n" "(h + i) mod n = (h + j) mod n" for i j n :: nat
  proof -
    have "(j - i) mod n = 0" using that by (metis add_diff_cancel_left mod_eq_dvd_iff_nat mod_0_imp_dvd dvd_imp_mod_0 add_le_cancel_left)
    then show ?thesis using that by (metis diff_is_0_eq le_antisym less_imp_diff_less mod_less)
  qed
  then show ?thesis using assms by (metis nat_le_linear)
qed

lemma write_byte_spec:
  assumes ok: "ring_ok r" and room: "available_read r < RING_BUFFER_SIZE"
  shows "\<exists>r'. write_byte b r = Some r' \<and> ring_ok r' \<and> ring_contents r' = ring_contents r @ [b]"
proof -
  let ?N = RING_BUFFER_SIZE and ?n = "available_read r"
  obtain r' where w: "write_byte b r = Some r'" using ok by (auto simp: write_byte_def Let_def ring_ok_def)
  have N: "0 < ?N" by (simp add: RING_BUFFER_SIZE_def)
  have arr: "ring_arr r' = (ring_arr r)[ring_tail r := b]" and h: "ring_head r' = ring_head r"
    and t: "ring_tail r' = (ring_tail r + 1) mod ?N"
    and s: "ring_status r' = (if ring_tail r' = ring_head r' then RingFull else RingNormal)"
    using w by (auto simp: write_byte_def Let_def split: if_splits)
  have ok': "ring_ok r'" using ok N by (simp add: ring_ok_def arr h t s)
  have "(ring_head r + Suc ?n) mod ?N = ring_tail r'"
    using ring_tail_pos [OF ok] t by (metis Suc_eq_plus1 add_Suc_right mod_Suc_eq)
  then have "(ring_head r + Suc ?n) mod ?N = (ring_head r + available_read r') mod ?N"
    using ring_tail_pos [OF ok'] h by simp
  moreover have "available_read r' \<noteq> 0"
    using s ok' by (auto simp: available_read_def ring_ok_def split: if_splits)
  ultimately have n': "available_read r' = Suc ?n"
    using mod_ring_inj [of "Suc ?n mod ?N" "available_read r' mod ?N" "ring_head r"] room available_le [OF ok'] N
    by (cases "Suc ?n = ?N"; cases "available_read r' = ?N") (auto simp: mod_add_right_eq)
  have "ring_arr r' ! ((ring_head r + i) mod ?N) = (if i < ?n then ring_arr r ! ((ring_head r + i) mod ?N) else b)" if "i < Suc ?n" for i
  proof (cases "i < ?n")
    case True
    then have "(ring_head r + i) mod ?N \<noteq> ring_tail r"
      using mod_ring_inj [of i ?n "ring_head r"] ring_tail_pos [OF ok] room by auto
    then show ?thesis using True by (simp add: arr)
  next
    case False
    then have "(ring_head r + i) mod ?N = ring_tail r" using that ring_tail_pos [OF ok] by (simp add: less_Suc_eq)
    then show ?thesis using False ok by (simp add: arr ring_ok_def)
  qed
  then have "ring_contents r' = ring_contents r @ [b]" by (simp add: ring_contents_def n' h)
  then show ?thesis using w ok' by blast
qed

lemma read_byte_spec:
  assumes ok: "ring_ok r" and c: "ring_contents r = b # bs"
  shows "\<exists>r'. read_byte r = Some (b, r') \<and> ring_ok r' \<and> ring_contents r' = bs"
proof -
  let ?N = RING_BUFFER_SIZE and ?n = "available_read r"
  have n: "?n = Suc (length bs)" using c length_ring_contents [of r] by simp
  have N: "0 < ?N" by (simp add: RING_BUFFER_SIZE_def)
  obtain r' where w: "read_byte r = Some (ring_arr r ! ring_head r, r')" using ok by (auto simp: read_byte_def Let_def ring_ok_def)
  have arr: "ring_arr r' = ring_arr r" and t: "ring_tail r' = ring_tail r" and h: "ring_head r' = (ring_head r + 1) mod ?N"
    and s: "ring_status r' = (if ring_head r' = ring_tail r' then RingEmpty else RingNormal)"
    using w by (auto simp: read_byte_def Let_def split: if_splits)
  have ok': "ring_ok r'" using ok N by (simp add: ring_ok_def arr h t s)
  have "(ring_head r' + length bs) mod ?N = ring_tail r"
    using ring_tail_pos [OF ok] n h by (metis Suc_eq_plus1 add.commute add_Suc_right mod_add_left_eq plus_1_eq_Suc)
  then have "(ring_head r' + length bs) mod ?N = (ring_head r' + available_read r') mod ?N"
    using ring_tail_pos [OF ok'] t by simp
  moreover have "length bs < ?N" using n available_le [OF ok] by simp
  moreover have "available_read r' < ?N"
    using s ok' by (auto simp: available_read_def ring_ok_def split: if_splits)
  ultimately have n': "available_read r' = length bs" using mod_ring_inj by metis
  have c0: "ring_contents r = map (\<lambda>i. ring_arr r ! ((ring_head r + i) mod ?N)) (0 # map Suc [0..<length bs])"
    by (simp only: ring_contents_def n upt_conv_Cons [of 0 "Suc (length bs)"] map_Suc_upt)
  have "(ring_head r + Suc i) mod ?N = (ring_head r' + i) mod ?N" for i
    by (simp add: h mod_simps)
  then have "bs = ring_contents r'" "b = ring_arr r ! ring_head r"
    using c c0 ok by (simp_all add: ring_contents_def n' arr ring_ok_def comp_def)
  then show ?thesis using w ok' by auto
qed

section \<open>The two ends\<close>

text \<open>The loop over the bytes that are available: \<open>k\<close> rounds are left, \<open>acc\<close> is what has been
  stored in the buffer of the caller. The flag tells that the call returns.\<close>

fun read_for :: "nat \<Rightarrow> nat \<Rightarrow> bytes \<Rightarrow> PipeRingBuffer \<Rightarrow> (bool \<times> bytes \<times> PipeRingBuffer) option" where
  "read_for 0 max_len acc r = Some (False, acc, r)"
| "read_for (Suc k) max_len acc r = (if length acc = max_len then Some (True, acc, r)
    else (case read_byte r of None \<Rightarrow> None | Some (b, r') \<Rightarrow> read_for k max_len (acc @ [b]) r'))"

fun write_for :: "nat \<Rightarrow> bytes \<Rightarrow> nat \<Rightarrow> PipeRingBuffer \<Rightarrow> (bool \<times> nat \<times> PipeRingBuffer) option" where
  "write_for 0 buf n r = Some (False, n, r)"
| "write_for (Suc k) buf n r = (if n = length buf then Some (True, n, r)
    else (case write_byte (buf ! n) r of None \<Rightarrow> None | Some r' \<Rightarrow> write_for k buf (Suc n) r'))"

text \<open>One round of the outer loop, under the lock: the call returns, gives way to other tasks, or goes
  round again.\<close>

datatype round = Return | Yield | Again

definition pipe_read_round :: "bool \<Rightarrow> nat \<Rightarrow> bytes \<Rightarrow> PipeRingBuffer \<Rightarrow> (round \<times> bytes \<times> PipeRingBuffer) option" where
  "pipe_read_round write_end_close max_len acc r =
    (let loop_read = available_read r in
     if loop_read = 0 then Some (if write_end_close then Return else Yield, acc, r)
     else map_option (\<lambda>(ret, acc', r'). (if ret then Return else Again, acc', r')) (read_for loop_read max_len acc r))"

definition pipe_write_round :: "bytes \<Rightarrow> nat \<Rightarrow> PipeRingBuffer \<Rightarrow> (round \<times> nat \<times> PipeRingBuffer) option" where
  "pipe_write_round buf n r =
    (let loop_write = available_write r in
     if loop_write = 0 then Some (Yield, n, r)
     else map_option (\<lambda>(ret, n', r'). (if ret then Return else Again, n', r')) (write_for loop_write buf n r))"

text \<open>What \<open>poll\<close> reports for an end.\<close>

definition pipe_poll :: "bool \<Rightarrow> PipeRingBuffer \<Rightarrow> bool \<times> bool" where
  "pipe_poll readable r = (readable \<and> available_read r > 0, \<not> readable \<and> available_write r > 0)"

lemma read_for_spec:
  "ring_ok r \<Longrightarrow> k \<le> available_read r \<Longrightarrow> length acc \<le> max_len \<Longrightarrow>
    \<exists>ret r'. read_for k max_len acc r = Some (ret, acc @ take (min k (max_len - length acc)) (ring_contents r), r') \<and> ring_ok r' \<and>
      ring_contents r' = drop (min k (max_len - length acc)) (ring_contents r) \<and> (ret \<longleftrightarrow> max_len - length acc < k)"
proof (induction k arbitrary: acc r)
  case (Suc k)
  show ?case
  proof (cases "length acc = max_len")
    case False
    obtain b bs where c: "ring_contents r = b # bs" using Suc.prems(2) length_ring_contents [of r] by (cases "ring_contents r") auto
    obtain r1 where r1: "read_byte r = Some (b, r1)" "ring_ok r1" "ring_contents r1 = bs"
      using read_byte_spec [OF Suc.prems(1) c] by blast
    have "k \<le> available_read r1" using Suc.prems(2) c r1(3) length_ring_contents [of r] length_ring_contents [of r1] by simp
    moreover have "length (acc @ [b]) \<le> max_len" using False Suc.prems(3) by simp
    ultimately obtain ret r' where "read_for k max_len (acc @ [b]) r1 =
        Some (ret, (acc @ [b]) @ take (min k (max_len - length (acc @ [b]))) bs, r')" "ring_ok r'"
      "ring_contents r' = drop (min k (max_len - length (acc @ [b]))) bs" "ret \<longleftrightarrow> max_len - length (acc @ [b]) < k"
      using Suc.IH [OF r1(2)] r1(3) by metis
    moreover have "max_len - length acc = Suc (max_len - length (acc @ [b]))" using False Suc.prems(3) by simp
    ultimately show ?thesis using False c r1(1) by simp
  qed (use Suc.prems in auto)
qed auto

lemma write_for_spec:
  "ring_ok r \<Longrightarrow> available_read r + k \<le> RING_BUFFER_SIZE \<Longrightarrow> n \<le> length buf \<Longrightarrow>
    \<exists>ret r'. write_for k buf n r = Some (ret, n + min k (length buf - n), r') \<and> ring_ok r' \<and>
      ring_contents r' = ring_contents r @ take (min k (length buf - n)) (drop n buf) \<and> (ret \<longleftrightarrow> length buf - n < k)"
proof (induction k arbitrary: n r)
  case (Suc k)
  show ?case
  proof (cases "n = length buf")
    case False
    obtain r1 where r1: "write_byte (buf ! n) r = Some r1" "ring_ok r1" "ring_contents r1 = ring_contents r @ [buf ! n]"
      using write_byte_spec [OF Suc.prems(1), of "buf ! n"] Suc.prems(2) by auto
    have "available_read r1 + k \<le> RING_BUFFER_SIZE"
      using Suc.prems(2) r1(3) length_ring_contents [of r1] by simp
    moreover have "Suc n \<le> length buf" using False Suc.prems(3) by simp
    ultimately obtain ret r' where "write_for k buf (Suc n) r1 = Some (ret, Suc n + min k (length buf - Suc n), r')" "ring_ok r'"
      "ring_contents r' = ring_contents r1 @ take (min k (length buf - Suc n)) (drop (Suc n) buf)" "ret \<longleftrightarrow> length buf - Suc n < k"
      using Suc.IH [OF r1(2)] by metis
    moreover have "length buf - n = Suc (length buf - Suc n)" "drop n buf = buf ! n # drop (Suc n) buf"
      using False Suc.prems(3) by (simp_all add: Cons_nth_drop_Suc)
    ultimately show ?thesis using False r1 by simp
  qed (use Suc.prems in auto)
qed auto

lemma read_round_spec:
  assumes "ring_ok r" "length acc \<le> max_len"
  shows "\<exists>rd r' k. pipe_read_round closed max_len acc r = Some (rd, acc @ take k (ring_contents r), r') \<and> ring_ok r' \<and>
    ring_contents r' = drop k (ring_contents r) \<and> length acc + k \<le> max_len \<and> k \<le> available_read r \<and>
    (rd = Return \<longrightarrow> closed \<and> ring_contents r = [] \<or> length acc + k = max_len \<and> k < available_read r) \<and>
    (rd = Yield \<longleftrightarrow> \<not> closed \<and> available_read r = 0)"
proof (cases "available_read r = 0")
  case True
  then show ?thesis using assms by (intro exI [of _ "if closed then Return else Yield"] exI [of _ r] exI [of _ 0])
      (auto simp: pipe_read_round_def simp flip: length_ring_contents)
next
  case False
  obtain ret r' where s: "read_for (available_read r) max_len acc r =
      Some (ret, acc @ take (min (available_read r) (max_len - length acc)) (ring_contents r), r')" "ring_ok r'"
    "ring_contents r' = drop (min (available_read r) (max_len - length acc)) (ring_contents r)"
    "ret \<longleftrightarrow> max_len - length acc < available_read r"
    using read_for_spec [OF assms(1) order_refl assms(2)] by blast
  then show ?thesis using False assms(2)
    by (intro exI [of _ "if ret then Return else Again"] exI [of _ r'] exI [of _ "min (available_read r) (max_len - length acc)"])
      (auto simp: pipe_read_round_def Let_def)
qed

lemma write_round_spec:
  assumes "ring_ok r" "n \<le> length buf"
  shows "\<exists>rd r' k. pipe_write_round buf n r = Some (rd, n + k, r') \<and> ring_ok r' \<and>
    ring_contents r' = ring_contents r @ take k (drop n buf) \<and> n + k \<le> length buf \<and>
    (rd = Return \<longrightarrow> n + k = length buf) \<and> (rd = Yield \<longleftrightarrow> available_write r = 0)"
proof (cases "available_write r = 0")
  case True
  then show ?thesis using assms
    by (intro exI [of _ Yield] exI [of _ r] exI [of _ 0]) (simp add: pipe_write_round_def)
next
  case False
  have "available_read r + available_write r \<le> RING_BUFFER_SIZE"
    using available_write_read [OF assms(1)] available_le [OF assms(1)] by simp
  then obtain ret r' where s: "write_for (available_write r) buf n r = Some (ret, n + min (available_write r) (length buf - n), r')" "ring_ok r'"
    "ring_contents r' = ring_contents r @ take (min (available_write r) (length buf - n)) (drop n buf)"
    "ret \<longleftrightarrow> length buf - n < available_write r"
    using write_for_spec [OF assms(1) _ assms(2)] by blast
  then show ?thesis using False assms(2)
    by (intro exI [of _ "if ret then Return else Again"] exI [of _ r'] exI [of _ "min (available_write r) (length buf - n)"])
      (auto simp: pipe_write_round_def Let_def)
qed

text \<open>A read that takes exactly what is in the buffer does not return: it goes round again and then
  waits for more, although its buffer is full.\<close>

lemma exact_read_waits:
  assumes "ring_ok r" "available_read r = max_len" "max_len > 0"
  shows "\<exists>acc r'. pipe_read_round False max_len [] r = Some (Again, acc, r') \<and> length acc = max_len \<and>
    pipe_read_round False max_len acc r' = Some (Yield, acc, r')"
proof -
  obtain ret r' where s: "read_for max_len max_len [] r = Some (ret, take max_len (ring_contents r), r')"
    "ring_contents r' = drop max_len (ring_contents r)" "\<not> ret"
    using read_for_spec [OF assms(1), of max_len "[]" max_len] assms by auto
  have "available_read r' = 0" using s(2) assms(2) length_ring_contents [of r'] by simp
  then show ?thesis using s assms by (simp add: pipe_read_round_def Let_def)
qed

section \<open>One reader and one writer\<close>

text \<open>A pipe with a read call and a write call in progress, each with what it has done so far, and the
  results of the calls that have returned.\<close>

record pipe_system =
  ps_ring :: PipeRingBuffer
  ps_closed :: bool
  ps_reader :: "(nat \<times> bytes) option"
  ps_writer :: "(bytes \<times> nat) option"
  ps_reads :: "bytes list"
  ps_writes :: "bytes list"

definition pipe_new :: pipe_system where
  "pipe_new = \<lparr> ps_ring = ring_new, ps_closed = False, ps_reader = None, ps_writer = None, ps_reads = [], ps_writes = [] \<rparr>"

text \<open>What has been taken out of the pipe and what has been put in.\<close>

definition ps_received :: "pipe_system \<Rightarrow> bytes" where
  "ps_received s = concat (ps_reads s) @ (case ps_reader s of None \<Rightarrow> [] | Some (_, acc) \<Rightarrow> acc)"

definition ps_sent :: "pipe_system \<Rightarrow> bytes" where
  "ps_sent s = concat (ps_writes s) @ (case ps_writer s of None \<Rightarrow> [] | Some (buf, n) \<Rightarrow> take n buf)"

inductive pipe_step :: "pipe_system \<Rightarrow> pipe_system \<Rightarrow> bool" where
  read_call: "ps_reader s = None \<Longrightarrow> pipe_step s (s\<lparr> ps_reader := Some (max_len, []) \<rparr>)"
| read_round: "ps_reader s = Some (max_len, acc) \<Longrightarrow>
    pipe_read_round (ps_closed s) max_len acc (ps_ring s) = Some (rd, acc', r') \<Longrightarrow>
    pipe_step s (if rd = Return then s\<lparr> ps_ring := r', ps_reader := None, ps_reads := ps_reads s @ [acc'] \<rparr>
      else s\<lparr> ps_ring := r', ps_reader := Some (max_len, acc') \<rparr>)"
| write_call: "ps_writer s = None \<Longrightarrow> \<not> ps_closed s \<Longrightarrow> pipe_step s (s\<lparr> ps_writer := Some (buf, 0) \<rparr>)"
| write_round: "ps_writer s = Some (buf, n) \<Longrightarrow> pipe_write_round buf n (ps_ring s) = Some (rd, n', r') \<Longrightarrow>
    pipe_step s (if rd = Return then s\<lparr> ps_ring := r', ps_writer := None, ps_writes := ps_writes s @ [buf] \<rparr>
      else s\<lparr> ps_ring := r', ps_writer := Some (buf, n') \<rparr>)"
| close_write: "ps_writer s = None \<Longrightarrow> pipe_step s (s\<lparr> ps_closed := True \<rparr>)"

inductive pipe_reach :: "pipe_system \<Rightarrow> bool" where
  start: "pipe_reach pipe_new"
| step: "pipe_reach s \<Longrightarrow> pipe_step s s' \<Longrightarrow> pipe_reach s'"

definition pipe_inv :: "pipe_system \<Rightarrow> bool" where
  "pipe_inv s \<longleftrightarrow> ring_ok (ps_ring s) \<and> ps_received s @ ring_contents (ps_ring s) = ps_sent s \<and>
    (\<forall>m acc. ps_reader s = Some (m, acc) \<longrightarrow> length acc \<le> m) \<and>
    (\<forall>buf n. ps_writer s = Some (buf, n) \<longrightarrow> n \<le> length buf)"

lemma pipe_new_inv: "pipe_inv pipe_new"
  by (simp add: pipe_inv_def pipe_new_def ps_received_def ps_sent_def ring_new_ok)

lemma pipe_step_inv: "pipe_step s s' \<Longrightarrow> pipe_inv s \<Longrightarrow> pipe_inv s'"
proof (induction rule: pipe_step.induct)
  case (read_round s max_len acc rd acc' r')
  then have ok: "ring_ok (ps_ring s)" "length acc \<le> max_len" by (auto simp: pipe_inv_def)
  obtain k where k: "acc' = acc @ take k (ring_contents (ps_ring s))" "ring_ok r'" "ring_contents r' = drop k (ring_contents (ps_ring s))"
    "length acc + k \<le> max_len"
    using read_round_spec [OF ok, of "ps_closed s"] read_round.hyps(2) by auto
  have "concat (ps_reads s) @ acc' @ ring_contents r' = ps_sent s"
    using read_round.prems read_round.hyps(1) k(1,3) by (simp add: pipe_inv_def ps_received_def)
  moreover have "length acc' \<le> max_len" using k(1,4) by simp
  ultimately show ?case using read_round.prems k(2) by (auto simp: pipe_inv_def ps_received_def ps_sent_def)
next
  case (write_round s buf n rd n' r')
  then have ok: "ring_ok (ps_ring s)" "n \<le> length buf" by (auto simp: pipe_inv_def)
  obtain k where k: "n' = n + k" "ring_ok r'" "ring_contents r' = ring_contents (ps_ring s) @ take k (drop n buf)"
    "n + k \<le> length buf" "rd = Return \<Longrightarrow> n + k = length buf"
    using write_round_spec [OF ok] write_round.hyps(2) by auto
  have t: "take n' buf = take n buf @ take k (drop n buf)" using k(1) by (simp add: take_add)
  then have "ps_received s @ ring_contents r' = concat (ps_writes s) @ take n' buf"
    using write_round.prems write_round.hyps(1) k(3) by (simp add: pipe_inv_def ps_sent_def flip: append_assoc)
  moreover have "rd = Return \<Longrightarrow> take n' buf = buf" using k(1,5) by simp
  ultimately show ?case using write_round.prems k(1,2,4) by (auto simp: pipe_inv_def ps_received_def ps_sent_def)
qed (auto simp: pipe_inv_def ps_received_def ps_sent_def)

lemma pipe_reach_inv: "pipe_reach s \<Longrightarrow> pipe_inv s"
  by (induction rule: pipe_reach.induct) (simp_all add: pipe_new_inv pipe_step_inv)

text \<open>C32: However the rounds of reader and writer interleave, the bytes taken out of a pipe followed by
  those still in the buffer are exactly the bytes put in, in order; a round of either side never
  panics, and a read returns early only when the writer is gone and everything has been read.\<close>

theorem pipe_fifo:
  assumes "pipe_reach s"
  shows "ps_received s @ ring_contents (ps_ring s) = ps_sent s \<and>
    (\<forall>max_len acc. ps_reader s = Some (max_len, acc) \<longrightarrow>
      (\<exists>rd acc' r'. pipe_read_round (ps_closed s) max_len acc (ps_ring s) = Some (rd, acc', r') \<and>
        (rd = Return \<longrightarrow> length acc' = max_len \<or> ps_closed s \<and> ps_received s = ps_sent s))) \<and>
    (\<forall>buf n. ps_writer s = Some (buf, n) \<longrightarrow> pipe_write_round buf n (ps_ring s) \<noteq> None)"
proof -
  have inv: "pipe_inv s" using assms by (rule pipe_reach_inv)
  have "\<exists>rd acc' r'. pipe_read_round (ps_closed s) max_len acc (ps_ring s) = Some (rd, acc', r') \<and>
      (rd = Return \<longrightarrow> length acc' = max_len \<or> ps_closed s \<and> ps_received s = ps_sent s)"
    if r: "ps_reader s = Some (max_len, acc)" for max_len acc
  proof -
    have "ring_ok (ps_ring s)" "length acc \<le> max_len" using inv r by (auto simp: pipe_inv_def)
    from read_round_spec [OF this, of "ps_closed s"] obtain rd r' k where
      k: "pipe_read_round (ps_closed s) max_len acc (ps_ring s) = Some (rd, acc @ take k (ring_contents (ps_ring s)), r')"
      "rd = Return \<longrightarrow> ps_closed s \<and> ring_contents (ps_ring s) = [] \<or> length acc + k = max_len \<and> k < available_read (ps_ring s)"
      by blast
    moreover have "ring_contents (ps_ring s) = [] \<Longrightarrow> ps_received s = ps_sent s" using inv by (simp add: pipe_inv_def)
    ultimately show ?thesis by auto
  qed
  moreover have "pipe_write_round buf n (ps_ring s) \<noteq> None" if "ps_writer s = Some (buf, n)" for buf n
    using write_round_spec [of "ps_ring s" n buf] inv that by (auto simp: pipe_inv_def)
  ultimately show ?thesis using inv by (auto simp: pipe_inv_def)
qed

theorem pipe_fifo_witness:
  "\<exists>s. pipe_reach s \<and> ps_writes s = [[1, 2]] \<and> ps_received s @ ring_contents (ps_ring s) = [1, 2]"
proof -
  have a: "available_read ring_new = 0" "available_write ring_new = 256"
    by (simp_all add: available_write_def available_read_def ring_new_def RING_BUFFER_SIZE_def)
  then obtain ret r' where "write_for 256 [1, 2] 0 ring_new = Some (ret, 2, r')" "ret"
    using write_for_spec [OF ring_new_ok(1), of 256 0 "[1, 2]"] by (auto simp: RING_BUFFER_SIZE_def numeral_2_eq_2)
  then have w: "pipe_write_round [1, 2] 0 ring_new = Some (Return, 2, r')" by (simp add: pipe_write_round_def a)
  let ?s1 = "pipe_new\<lparr> ps_writer := Some ([1, 2], 0) \<rparr>"
  have 1: "pipe_reach ?s1" by (rule pipe_reach.step [OF pipe_reach.start pipe_step.write_call]) (simp_all add: pipe_new_def)
  have "pipe_step ?s1 (?s1\<lparr> ps_ring := r', ps_writer := None, ps_writes := ps_writes ?s1 @ [[1, 2]] \<rparr>)"
    using pipe_step.write_round [of ?s1 "[1, 2]" 0 Return 2 r'] w by (simp add: pipe_new_def)
  from pipe_reach.step [OF 1 this] have 2: "pipe_reach (?s1\<lparr> ps_ring := r', ps_writer := None, ps_writes := ps_writes ?s1 @ [[1, 2]] \<rparr>)" .
  show ?thesis using 2 pipe_fifo [OF 2] by (auto simp: pipe_new_def ps_sent_def)
qed

end
