(* ===== verification/Fd_Table.thy ===== *)
theory Fd_Table
  imports Flatten_Objects Pipe
begin

text \<open>
  File descriptors, \<open>src/api/arceos_posix_api/src/imp/fd_ops.rs\<close>, and the creation of pipes in
  \<open>pipe.rs\<close>. An error is the name of the \<open>LinuxError\<close>, an enumeration that is generated from the C
  headers; a negative descriptor becomes a huge index. Files other than pipe ends and the standard
  streams are a parameter of the type of objects.
\<close>

datatype 'f file_like = Stdin | Stdout | PipeEnd (pipe_buffer: nat) (pipe_readable: bool) | OtherFile 'f

record ('f, 'b) posix =
  px_fds :: "('f file_like, 'b) FlattenObjects"
  px_pipes :: "nat \<Rightarrow> PipeRingBuffer option"
  px_next :: nat

definition AX_FILE_LIMIT :: nat where "AX_FILE_LIMIT = 1024"

text \<open>The conversion \<open>fd as usize\<close> of an \<open>i32\<close>.\<close>

definition fd_index :: "int \<Rightarrow> nat" where
  "fd_index fd = nat (fd mod 2 ^ 64)"

definition fd_table_init :: "'b bitmap_ops \<Rightarrow> ('f file_like, 'b) FlattenObjects option" where
  "fd_table_init B = Option.bind (fo_new B AX_FILE_LIMIT) (\<lambda>t0.
    case fo_add_at B AX_FILE_LIMIT 0 Stdin t0 of Ok (Some _, t1) \<Rightarrow>
      (case fo_add_at B AX_FILE_LIMIT 1 Stdout t1 of Ok (Some _, t2) \<Rightarrow>
        (case fo_add_at B AX_FILE_LIMIT 2 Stdout t2 of Ok (Some _, t3) \<Rightarrow> Some t3 | _ \<Rightarrow> None)
      | _ \<Rightarrow> None)
    | _ \<Rightarrow> None)"

definition get_file_like :: "'b bitmap_ops \<Rightarrow> ('f, 'b) posix \<Rightarrow> int \<Rightarrow> ('f file_like, string) outcome" where
  "get_file_like B px fd = (case fo_get B AX_FILE_LIMIT (px_fds px) (fd_index fd) of
     Ok (Some f) \<Rightarrow> Ok f
   | Ok None \<Rightarrow> Err ''EBADF''
   | _ \<Rightarrow> Panic)"

definition add_file_like :: "'b bitmap_ops \<Rightarrow> 'f file_like \<Rightarrow> ('f, 'b) posix \<Rightarrow> (int, string) outcome \<times> ('f, 'b) posix" where
  "add_file_like B f px = (case fo_add B AX_FILE_LIMIT f (px_fds px) of
     (Some i, t) \<Rightarrow> (Ok (int i), px\<lparr> px_fds := t \<rparr>)
   | (None, t) \<Rightarrow> (Err ''EMFILE'', px\<lparr> px_fds := t \<rparr>))"

definition close_file_like :: "'b bitmap_ops \<Rightarrow> int \<Rightarrow> ('f, 'b) posix \<Rightarrow> (unit, string) outcome \<times> ('f, 'b) posix" where
  "close_file_like B fd px = (case fo_remove B AX_FILE_LIMIT (fd_index fd) (px_fds px) of
     Ok (Some _, t) \<Rightarrow> (Ok (), px\<lparr> px_fds := t \<rparr>)
   | Ok (None, t) \<Rightarrow> (Err ''EBADF'', px\<lparr> px_fds := t \<rparr>)
   | _ \<Rightarrow> (Panic, px))"

definition sys_close :: "'b bitmap_ops \<Rightarrow> int \<Rightarrow> ('f, 'b) posix \<Rightarrow> (int, string) outcome \<times> ('f, 'b) posix" where
  "sys_close B fd px = (if 0 \<le> fd \<and> fd \<le> 2 then (Ok 0, px)
    else (case close_file_like B fd px of
       (Ok _, px') \<Rightarrow> (Ok 0, px') | (Err e, px') \<Rightarrow> (Err e, px') | (Panic, px') \<Rightarrow> (Panic, px')))"

definition dup_fd :: "'b bitmap_ops \<Rightarrow> int \<Rightarrow> ('f, 'b) posix \<Rightarrow> (int, string) outcome \<times> ('f, 'b) posix" where
  "dup_fd B old_fd px = (case get_file_like B px old_fd of
     Ok f \<Rightarrow> add_file_like B f px | Err e \<Rightarrow> (Err e, px) | Panic \<Rightarrow> (Panic, px))"

definition sys_dup :: "'b bitmap_ops \<Rightarrow> int \<Rightarrow> ('f, 'b) posix \<Rightarrow> (int, string) outcome \<times> ('f, 'b) posix" where
  "sys_dup B old_fd px = dup_fd B old_fd px"

text \<open>The commands of \<open>fcntl\<close>; \<open>set_nonblocking\<close> only fails for files outside this model, whose
  answer is a parameter.\<close>

datatype fcntl_cmd = F_DUPFD | F_DUPFD_CLOEXEC | F_SETFL | F_other

definition sys_fcntl :: "'b bitmap_ops \<Rightarrow> ('f file_like \<Rightarrow> (unit, string) outcome) \<Rightarrow> int \<Rightarrow> fcntl_cmd \<Rightarrow> ('f, 'b) posix \<Rightarrow>
    (int, string) outcome \<times> ('f, 'b) posix" where
  "sys_fcntl B set_nonblocking fd cmd px = (case cmd of
     F_DUPFD \<Rightarrow> dup_fd B fd px
   | F_DUPFD_CLOEXEC \<Rightarrow> dup_fd B fd px
   | F_SETFL \<Rightarrow> if fd = 0 \<or> fd = 1 \<or> fd = 2 then (Ok 0, px)
       else (bind_outcome (get_file_like B px fd) (\<lambda>f. bind_outcome (set_nonblocking f) (\<lambda>_. Ok 0)), px)
   | F_other \<Rightarrow> (Ok 0, px))"

definition sys_dup2 :: "'b bitmap_ops \<Rightarrow> ('f file_like \<Rightarrow> (unit, string) outcome) \<Rightarrow> int \<Rightarrow> int \<Rightarrow> ('f, 'b) posix \<Rightarrow>
    (int, string) outcome \<times> ('f, 'b) posix" where
  "sys_dup2 B set_nonblocking old_fd new_fd px =
    (if old_fd = new_fd then (case sys_fcntl B set_nonblocking old_fd F_other px of
        (Ok r, px') \<Rightarrow> (Ok (if r \<ge> 0 then old_fd else r), px')
      | r \<Rightarrow> r)
     else if fd_index new_fd \<ge> AX_FILE_LIMIT then (Err ''EBADF'', px)
     else (case get_file_like B px old_fd of
        Ok f \<Rightarrow> (case fo_add_at B AX_FILE_LIMIT (fd_index new_fd) f (px_fds px) of
            Ok (Some _, t) \<Rightarrow> (Ok new_fd, px\<lparr> px_fds := t \<rparr>)
          | Ok (None, t) \<Rightarrow> (Err ''EMFILE'', px\<lparr> px_fds := t \<rparr>)
          | _ \<Rightarrow> (Panic, px))
      | Err e \<Rightarrow> (Err e, px)
      | Panic \<Rightarrow> (Panic, px)))"

text \<open>A new pipe: an empty buffer shared by its two ends.\<close>

definition pipe_ends :: "('f, 'b) posix \<Rightarrow> ('f file_like \<times> 'f file_like) \<times> ('f, 'b) posix" where
  "pipe_ends px = ((PipeEnd (px_next px) True, PipeEnd (px_next px) False),
     px\<lparr> px_pipes := (px_pipes px)(px_next px \<mapsto> ring_new), px_next := Suc (px_next px) \<rparr>)"

text \<open>The number of descriptors the caller asks for must be two; the result gives the descriptors of
  the two ends.\<close>

definition sys_pipe :: "'b bitmap_ops \<Rightarrow> nat \<Rightarrow> ('f, 'b) posix \<Rightarrow> (int \<times> int, string) outcome \<times> ('f, 'b) posix" where
  "sys_pipe B fds_len px =
    (if fds_len \<noteq> 2 then (Err ''EFAULT'', px)
     else (case pipe_ends px of ((read_end, write_end), px0) \<Rightarrow>
       (case add_file_like B read_end px0 of
          (Ok read_fd, px1) \<Rightarrow> (case add_file_like B write_end px1 of
              (Ok write_fd, px2) \<Rightarrow> (Ok (read_fd, write_fd), px2)
            | (Err e, px2) \<Rightarrow> (Err e, snd (close_file_like B read_fd px2))
            | (Panic, px2) \<Rightarrow> (Panic, px2))
        | (Err e, px1) \<Rightarrow> (Err e, px1)
        | (Panic, px1) \<Rightarrow> (Panic, px1))))"

section \<open>The table as a map\<close>

abbreviation fd_map :: "'b bitmap_ops \<Rightarrow> ('f, 'b) posix \<Rightarrow> nat \<Rightarrow> 'f file_like option" where
  "fd_map B px \<equiv> fo_map B AX_FILE_LIMIT (px_fds px)"

definition posix_ok :: "'b bitmap_ops \<Rightarrow> ('f, 'b) posix \<Rightarrow> bool" where
  "posix_ok B px \<longleftrightarrow> fo_ok B AX_FILE_LIMIT (px_fds px) \<and> (\<forall>n\<ge>px_next px. px_pipes px n = None)"

lemma fd_index_int: "i < AX_FILE_LIMIT \<Longrightarrow> fd_index (int i) = i"
  by (simp add: fd_index_def AX_FILE_LIMIT_def)

text \<open>Duplicating a descriptor onto itself reports success without looking at the table.\<close>

lemma dup2_same: "sys_dup2 B nb fd fd px = (Ok fd, px)"
  by (simp add: sys_dup2_def sys_fcntl_def)

context id_bitmap
begin

lemma get_file_like_spec:
  "posix_ok B px \<Longrightarrow> get_file_like B px fd = (case fd_map B px (fd_index fd) of Some f \<Rightarrow> Ok f | None \<Rightarrow> Err ''EBADF'')"
  by (simp add: get_file_like_def posix_ok_def get_spec split: option.splits)

lemma add_file_like_spec:
  assumes ok: "posix_ok B px" and a: "add_file_like B f px = (r, px')"
  shows "case r of
      Ok fd \<Rightarrow> \<exists>i<AX_FILE_LIMIT. fd = int i \<and> fd_map B px i = None \<and> (\<forall>j<i. fd_map B px j \<noteq> None) \<and> posix_ok B px' \<and>
        fd_map B px' = (fd_map B px)(i \<mapsto> f) \<and> px_pipes px' = px_pipes px \<and> px_next px' = px_next px
    | Err e \<Rightarrow> e = ''EMFILE'' \<and> px' = px \<and> (\<forall>j<AX_FILE_LIMIT. fd_map B px j \<noteq> None)
    | Panic \<Rightarrow> False"
proof -
  obtain q t where q: "fo_add B AX_FILE_LIMIT f (px_fds px) = (q, t)" by fastforce
  have "fo_ok B AX_FILE_LIMIT (px_fds px)" using ok by (simp add: posix_ok_def)
  note s = add_spec [OF this q]
  show ?thesis using ok a q s by (cases q) (auto simp: add_file_like_def posix_ok_def)
qed

lemma close_file_like_spec:
  assumes ok: "posix_ok B px"
  shows "\<exists>px'. close_file_like B fd px = (if fd_map B px (fd_index fd) = None then Err ''EBADF'' else Ok (), px') \<and> posix_ok B px' \<and>
    fd_map B px' = (fd_map B px)(fd_index fd := None) \<and> px_pipes px' = px_pipes px \<and> px_next px' = px_next px"
proof -
  have "fo_ok B AX_FILE_LIMIT (px_fds px)" using ok by (simp add: posix_ok_def)
  from remove_spec [OF this, of "fd_index fd"] show ?thesis
    using ok by (cases "fd_map B px (fd_index fd)") (auto simp: close_file_like_def posix_ok_def)
qed

lemma sys_pipe_spec:
  assumes ok: "posix_ok B px" and p: "sys_pipe B 2 px = (r, px')"
  shows "posix_ok B px' \<and> (case r of
      Ok (rfd, wfd) \<Rightarrow> \<exists>i j. rfd = int i \<and> wfd = int j \<and> i \<noteq> j \<and> fd_map B px i = None \<and> fd_map B px j = None \<and>
        fd_map B px' = (fd_map B px)(i \<mapsto> PipeEnd (px_next px) True, j \<mapsto> PipeEnd (px_next px) False) \<and>
        px_pipes px' = (px_pipes px)(px_next px \<mapsto> ring_new) \<and> px_pipes px (px_next px) = None
    | Err e \<Rightarrow> e = ''EMFILE'' \<and> fd_map B px' = fd_map B px \<and>
        (\<exists>k. \<forall>j<AX_FILE_LIMIT. j \<noteq> k \<longrightarrow> fd_map B px j \<noteq> None)
    | Panic \<Rightarrow> False)"
proof -
  define px0 where "px0 = px\<lparr> px_pipes := (px_pipes px)(px_next px \<mapsto> ring_new), px_next := Suc (px_next px) \<rparr>"
  let ?re = "PipeEnd (px_next px) True :: 'a file_like" and ?we = "PipeEnd (px_next px) False :: 'a file_like"
  have ends: "pipe_ends px = ((?re, ?we), px0)" by (simp add: pipe_ends_def px0_def)
  have ok0: "posix_ok B px0" and m0: "fd_map B px0 = fd_map B px" using ok by (simp_all add: posix_ok_def px0_def)
  obtain r1 px1 where 1: "add_file_like B ?re px0 = (r1, px1)" by fastforce
  note s1 = add_file_like_spec [OF ok0 1]
  show ?thesis
  proof (cases r1)
    case (Err e)
    then have "r = Err ''EMFILE''" "px' = px0" "\<forall>j<AX_FILE_LIMIT. fd_map B px j \<noteq> None"
      using p 1 ends s1 m0 by (simp_all add: sys_pipe_def)
    then show ?thesis using ok0 m0 by simp
  next
    case Panic
    then show ?thesis using s1 by simp
  next
    case (Ok fd)
    then obtain i where i: "i < AX_FILE_LIMIT" "fd = int i" "fd_map B px i = None" "\<forall>j<i. fd_map B px j \<noteq> None" "posix_ok B px1"
      "fd_map B px1 = (fd_map B px)(i \<mapsto> ?re)" "px_pipes px1 = px_pipes px0" "px_next px1 = px_next px0"
      using s1 m0 by auto
    obtain r2 px2 where 2: "add_file_like B ?we px1 = (r2, px2)" by fastforce
    note s2 = add_file_like_spec [OF i(5) 2]
    show ?thesis
    proof (cases r2)
      case Panic
      then show ?thesis using s2 by simp
    next
      case (Ok fd2)
      then obtain j where j: "fd2 = int j" "fd_map B px1 j = None" "posix_ok B px2" "fd_map B px2 = (fd_map B px1)(j \<mapsto> ?we)"
        "px_pipes px2 = px_pipes px1" using s2 by auto
      have ij: "i \<noteq> j" "fd_map B px j = None" using j(2) i(6) by (auto split: if_splits)
      have r: "r = Ok (int i, int j)" "px' = px2" using p ends 1 2 \<open>r1 = Ok fd\<close> Ok i(2) j(1) by (simp_all add: sys_pipe_def)
      have "px_pipes px2 = (px_pipes px)(px_next px \<mapsto> ring_new)" using j(5) i(7) by (simp add: px0_def)
      moreover have "px_pipes px (px_next px) = None" using ok by (simp add: posix_ok_def)
      ultimately show ?thesis using r j(3,4) i(3,6) ij by auto
    next
      case (Err e)
      then have e: "e = ''EMFILE''" "px2 = px1" "\<forall>j<AX_FILE_LIMIT. fd_map B px1 j \<noteq> None" using s2 by simp_all
      obtain px3 where c: "close_file_like B fd px1 = (Ok (), px3)" "posix_ok B px3" "fd_map B px3 = (fd_map B px1)(i := None)"
        using close_file_like_spec [OF i(5), of fd] i(1,2,6) by (auto simp: fd_index_int)
      have r: "r = Err ''EMFILE''" "px' = px3" using p ends 1 2 \<open>r1 = Ok fd\<close> Err e(1,2) c(1) by (simp_all add: sys_pipe_def)
      have "fd_map B px3 = fd_map B px" using c(3) i(3,6) by (auto simp: fun_eq_iff)
      moreover have "\<forall>j<AX_FILE_LIMIT. j \<noteq> i \<longrightarrow> fd_map B px j \<noteq> None" using e(3) i(6) by (auto split: if_splits)
      ultimately show ?thesis using r c(2) by auto
    qed
  qed
qed

end

section \<open>Properties\<close>

text \<open>C33: Creating a pipe opens two descriptors that were closed, for the two ends of a new empty buffer,
  and changes no other descriptor; when fewer than two are free it fails with \<open>EMFILE\<close> and leaves
  every descriptor as it was.\<close>

theorem pipe_descriptors:
  assumes "id_bitmap B" "posix_ok B px" "sys_pipe B 2 px = (r, px')"
  shows "posix_ok B px' \<and> (case r of
      Ok (rfd, wfd) \<Rightarrow> \<exists>i j. rfd = int i \<and> wfd = int j \<and> i \<noteq> j \<and> fd_map B px i = None \<and> fd_map B px j = None \<and>
        fd_map B px' = (fd_map B px)(i \<mapsto> PipeEnd (px_next px) True, j \<mapsto> PipeEnd (px_next px) False) \<and>
        px_pipes px' = (px_pipes px)(px_next px \<mapsto> ring_new) \<and> px_pipes px (px_next px) = None
    | Err e \<Rightarrow> e = ''EMFILE'' \<and> fd_map B px' = fd_map B px \<and>
        (\<exists>k. \<forall>j<AX_FILE_LIMIT. j \<noteq> k \<longrightarrow> fd_map B px j \<noteq> None)
    | Panic \<Rightarrow> False)"
  using id_bitmap.sys_pipe_spec [OF assms] .

definition demo_px :: "(unit, nat \<Rightarrow> bool) posix" where
  "demo_px = \<lparr> px_fds = the (fd_table_init fun_bitmap), px_pipes = (\<lambda>_. None), px_next = 0 \<rparr>"

lemma fd_table_init_ok:
  assumes "id_bitmap B"
  shows "\<exists>t. fd_table_init B = Some t \<and> fo_ok B AX_FILE_LIMIT t \<and> fo_map B AX_FILE_LIMIT t = [0 \<mapsto> Stdin, 1 \<mapsto> Stdout, 2 \<mapsto> Stdout]"
proof -
  have lim: "0 < AX_FILE_LIMIT" "1 < AX_FILE_LIMIT" "2 < AX_FILE_LIMIT" by (simp_all add: AX_FILE_LIMIT_def)
  obtain t0 :: "('b file_like, 'a) FlattenObjects" where t0: "fo_new B AX_FILE_LIMIT = Some t0" by (auto simp: fo_new_def AX_FILE_LIMIT_def)
  note n = id_bitmap.new_ok [OF assms t0] and put = id_bitmap.add_at_spec [OF assms]
  obtain t1 where t1: "fo_add_at B AX_FILE_LIMIT 0 Stdin t0 = Ok (Some 0, t1)" "fo_ok B AX_FILE_LIMIT t1" "fo_map B AX_FILE_LIMIT t1 = [0 \<mapsto> Stdin]"
    using put [OF n(1) lim(1), of Stdin] n(2) by auto
  obtain t2 where t2: "fo_add_at B AX_FILE_LIMIT 1 Stdout t1 = Ok (Some 1, t2)" "fo_ok B AX_FILE_LIMIT t2"
    "fo_map B AX_FILE_LIMIT t2 = [0 \<mapsto> Stdin, 1 \<mapsto> Stdout]"
    using put [OF t1(2) lim(2), of Stdout] t1(3) by auto
  obtain t3 where t3: "fo_add_at B AX_FILE_LIMIT 2 Stdout t2 = Ok (Some 2, t3)" "fo_ok B AX_FILE_LIMIT t3"
    "fo_map B AX_FILE_LIMIT t3 = [0 \<mapsto> Stdin, 1 \<mapsto> Stdout, 2 \<mapsto> Stdout]"
    using put [OF t2(2) lim(3), of Stdout] t2(3) by auto
  show ?thesis using t0 t1 t2 t3 by (auto simp: fd_table_init_def)
qed

lemma demo_px_ok: "posix_ok fun_bitmap demo_px" "fd_map fun_bitmap demo_px = [0 \<mapsto> Stdin, 1 \<mapsto> Stdout, 2 \<mapsto> Stdout]"
proof -
  obtain t :: "(unit file_like, nat \<Rightarrow> bool) FlattenObjects" where t: "fd_table_init fun_bitmap = Some t"
    "fo_ok fun_bitmap AX_FILE_LIMIT t" "fo_map fun_bitmap AX_FILE_LIMIT t = [0 \<mapsto> Stdin, 1 \<mapsto> Stdout, 2 \<mapsto> Stdout]"
    using fd_table_init_ok [OF fb.id_bitmap_axioms] by blast
  then show "posix_ok fun_bitmap demo_px" "fd_map fun_bitmap demo_px = [0 \<mapsto> Stdin, 1 \<mapsto> Stdout, 2 \<mapsto> Stdout]"
    by (simp_all add: demo_px_def posix_ok_def)
qed

theorem pipe_descriptors_witness:
  "\<exists>i j px'. sys_pipe fun_bitmap 2 demo_px = (Ok (int i, int j), px') \<and> fd_map fun_bitmap px' i = Some (PipeEnd 0 True) \<and>
    fd_map fun_bitmap px' j = Some (PipeEnd 0 False) \<and> px_pipes px' 0 = Some ring_new"
proof -
  obtain r px' where p: "sys_pipe fun_bitmap 2 demo_px = (r, px')" by fastforce
  note s = pipe_descriptors [OF fb.id_bitmap_axioms demo_px_ok(1) p]
  have free: "\<not> (\<forall>j<AX_FILE_LIMIT. j \<noteq> k \<longrightarrow> fd_map fun_bitmap demo_px j \<noteq> None)" for k
  proof
    assume a: "\<forall>j<AX_FILE_LIMIT. j \<noteq> k \<longrightarrow> fd_map fun_bitmap demo_px j \<noteq> None"
    have "3 < AX_FILE_LIMIT" "4 < AX_FILE_LIMIT" by (simp_all add: AX_FILE_LIMIT_def)
    moreover have "fd_map fun_bitmap demo_px 3 = None" "fd_map fun_bitmap demo_px 4 = None" by (simp_all add: demo_px_ok(2))
    ultimately show False using a by (metis numeral_eq_iff semiring_norm(87,89))
  qed
  obtain q where "r = Ok q"
  proof (cases r)
    case (Err e)
    then have "\<exists>k. \<forall>j<AX_FILE_LIMIT. j \<noteq> k \<longrightarrow> fd_map fun_bitmap demo_px j \<noteq> None" using s by simp
    then show thesis using free by blast
  qed (use s that in auto)
  moreover have "px_next demo_px = 0" by (simp add: demo_px_def)
  ultimately show ?thesis using s p by (cases q) auto
qed

end
