(* ===== verification/Mutex.thy ===== *)
theory Mutex
  imports Task_Properties
begin

text \<open>
  The blocking mutex of \<open>src/modules/axsync/src/mutex.rs\<close> over the wait queues of the task
  system. The owner is the identifier in \<open>owner_id\<close>, with \<open>None\<close> for zero. Between the atomic
  accesses a task may be preempted, so the position of every task in \<open>lock\<close> and \<open>force_unlock\<close>
  is part of the state. The lemmas show that at most one task holds the mutex and that no task
  is left waiting for a free one.
\<close>

section \<open>The mutex\<close>

text \<open>\<open>Locking\<close>: about to compare and exchange; \<open>Waiting\<close>: in \<open>wait_until\<close>; \<open>Relocking\<close>: about to compare and
  exchange although it holds the mutex; \<open>Notifying\<close>: the owner is cleared and \<open>notify_one\<close> comes next.\<close>

datatype mutex_pc = Outside | Locking | Waiting | Holding | Relocking | Notifying

record 't mutex =
  mx_owner :: "'t option"
  mx_pc :: "'t \<Rightarrow> mutex_pc"

definition set_pc :: "'t \<Rightarrow> mutex_pc \<Rightarrow> 't mutex \<Rightarrow> 't mutex" where
  "set_pc t p m = m\<lparr> mx_pc := (mx_pc m)(t := p) \<rparr>"

definition mutex_new :: "'t mutex" where
  "mutex_new = \<lparr> mx_owner = None, mx_pc = (\<lambda>_. Outside) \<rparr>"

definition mutex_is_locked :: "'t mutex \<Rightarrow> bool" where
  "mutex_is_locked m = (mx_owner m \<noteq> None)"

text \<open>One turn of the loop of \<open>lock\<close> up to the call of \<open>wait_until\<close>. The weak exchange may fail
  although the mutex is free (\<open>spurious\<close>); \<open>None\<close> is the failed assertion.\<close>

definition lock_attempt :: "bool \<Rightarrow> 't \<Rightarrow> 't mutex \<Rightarrow> 't mutex option" where
  "lock_attempt spurious current_id m = (case mx_owner m of
     None \<Rightarrow> Some (if spurious then set_pc current_id Waiting m
                   else set_pc current_id Holding (m\<lparr> mx_owner := Some current_id \<rparr>))
   | Some owner_id \<Rightarrow> if owner_id \<noteq> current_id then Some (set_pc current_id Waiting m) else None)"

definition mutex_try_lock :: "'t \<Rightarrow> 't mutex \<Rightarrow> bool \<times> 't mutex" where
  "mutex_try_lock current_id m = (if mx_owner m = None
    then (True, set_pc current_id Holding (m\<lparr> mx_owner := Some current_id \<rparr>)) else (False, m))"

definition unlock_swap :: "'t \<Rightarrow> 't mutex \<Rightarrow> 't mutex option" where
  "unlock_swap current_id m =
    (let owner_id = mx_owner m; m' = m\<lparr> mx_owner := None \<rparr> in
     if owner_id = Some current_id then Some (set_pc current_id Notifying m') else None)"

section \<open>Runs\<close>

text \<open>What happens to a task without its doing.\<close>

inductive background :: "('t, 's) sched_ops \<Rightarrow> ('t, 's) kernel \<Rightarrow> ('t, 's) kernel \<Rightarrow> bool" for ops where
  bg_time: "k_now k \<le> now \<Longrightarrow> background ops k (k\<lparr> k_now := now \<rparr>)"
| bg_irq: "on_timer_tick ops k = Some k' \<Longrightarrow> background ops k k'"
| bg_preempt: "current_check_preempt_pending ops k = Some k' \<Longrightarrow> background ops k k'"

text \<open>A step of the running task or of the kernel. A task outside \<open>lock\<close> and \<open>force_unlock\<close> may
  make any other call, \<open>lock\<close> and \<open>try_lock\<close> also while it holds the mutex; the queue \<open>q\<close> is a private field,
  so only the mutex uses it. A task whose assertion fails makes no further step.\<close>

inductive mutex_step :: "('t, 's) sched_ops \<Rightarrow> string set \<Rightarrow> 't wait_queue \<Rightarrow> ('t, 's) kernel \<times> 't mutex \<Rightarrow>
    ('t, 's) kernel \<times> 't mutex \<Rightarrow> bool" for ops N q where
  lock_call: "mx_pc m (k_current k) = Outside \<Longrightarrow> k_cont k (k_current k) = C_run \<Longrightarrow>
    mutex_step ops N q (k, m) (k, set_pc (k_current k) Locking m)"
| lock_again: "mx_pc m (k_current k) = Holding \<Longrightarrow> k_cont k (k_current k) = C_run \<Longrightarrow>
    mutex_step ops N q (k, m) (k, set_pc (k_current k) Relocking m)"
| lock_exchange: "mx_pc m (k_current k) \<in> {Locking, Relocking} \<Longrightarrow> lock_attempt spurious (k_current k) m = Some m' \<Longrightarrow>
    mutex_step ops N q (k, m) (k, m')"
| lock_wait: "mx_pc m (k_current k) = Waiting \<Longrightarrow> wait_until_turn ops q (\<not> mutex_is_locked m) k = Some k' \<Longrightarrow>
    mutex_step ops N q (k, m) (k', if mutex_is_locked m then m else set_pc (k_current k) Locking m)"
| try_call: "mx_pc m (k_current k) \<in> {Outside, Holding} \<Longrightarrow> k_cont k (k_current k) = C_run \<Longrightarrow>
    mutex_try_lock (k_current k) m = (b, m') \<Longrightarrow> mutex_step ops N q (k, m) (k, m')"
| unlock: "mx_pc m (k_current k) = Holding \<Longrightarrow> k_cont k (k_current k) = C_run \<Longrightarrow>
    unlock_swap (k_current k) m = Some m' \<Longrightarrow> mutex_step ops N q (k, m) (k, m')"
| unlock_notify: "mx_pc m (k_current k) = Notifying \<Longrightarrow> notify_one ops q True k = Some (b, k') \<Longrightarrow>
    mutex_step ops N q (k, m) (k', set_pc (k_current k) Outside m)"
| other: "mx_pc m (k_current k) \<in> {Outside, Holding} \<Longrightarrow> kstep ops N k k' \<Longrightarrow> k_waiters k' q = k_waiters k q \<Longrightarrow>
    mutex_step ops N q (k, m) (k', m)"
| background_step: "background ops k k' \<Longrightarrow> mutex_step ops N q (k, m) (k', m)"

inductive mutex_reach :: "('t, 's) sched_ops \<Rightarrow> string set \<Rightarrow> 't wait_queue \<Rightarrow> ('t, 's) kernel \<Rightarrow> ('t, 's) kernel \<times> 't mutex \<Rightarrow> bool"
  for ops N q k0 where
  mutex_start: "mutex_reach ops N q k0 (k0, mutex_new)"
| mutex_next: "mutex_reach ops N q k0 (k, m) \<Longrightarrow> \<not> k_halted k \<Longrightarrow> mutex_step ops N q (k, m) s \<Longrightarrow> mutex_reach ops N q k0 s"

section \<open>What a step keeps of the other tasks\<close>

definition keeps :: "'t set \<Rightarrow> ('t, 's) kernel \<Rightarrow> ('t, 's) kernel \<Rightarrow> bool" where
  "keeps X k k' \<longleftrightarrow> (\<forall>t\<in>k_tasks k - X. k_state k t \<noteq> Exited \<longrightarrow>
    t \<in> k_tasks k' \<and> k_cont k' t = k_cont k t \<and> k_state k' t \<noteq> Exited)"

lemma keeps_refl [simp]: "keeps X k k"
  by (simp add: keeps_def)

lemma keeps_trans: "keeps X k k1 \<Longrightarrow> keeps X k1 k2 \<Longrightarrow> keeps X k k2"
  by (auto simp: keeps_def)

lemma keeps_mono: "keeps X k k' \<Longrightarrow> X \<subseteq> Y \<Longrightarrow> keeps Y k k'"
  by (auto simp: keeps_def)

lemma keeps_resched: "resched ops p k = Some k' \<Longrightarrow> keeps {} k k' \<and> k_waiters k' = k_waiters k"
proof -
  let ?prev = "k_current k"
  assume "resched ops p k = Some k'"
  then obtain k2 r s where k2: "(if is_running ?prev k
        then let k1 = set_state ?prev Ready k in
             if \<not> is_idle ?prev k
             then map_option (\<lambda>s. k1\<lparr> k_sched := s \<rparr>) (so_put ops ?prev p (k_sched k1))
             else Some k1
        else Some k) = Some k2"
    and k': "k' = switch_to ?prev (case r of Some t \<Rightarrow> t | None \<Rightarrow> k_idle k) (k2\<lparr> k_sched := s \<rparr>)"
    unfolding resched_def Let_def bind_eq_Some_conv by force
  have "keeps {} k k2" "k_waiters k2 = k_waiters k"
    using k2 by (auto simp: keeps_def set_state_def Let_def split: if_splits)
  moreover have "keeps {} k2 k'" "k_waiters k' = k_waiters k2"
    by (simp_all add: k' keeps_def switch_to_def kdefs)
  ultimately show ?thesis using keeps_trans [of "{}" k k2 k'] by simp
qed

lemma keeps_check_events: "check_events ops k = Some k' \<Longrightarrow> keeps {} k k' \<and> k_waiters k' = k_waiters k"
proof (induction ops k rule: check_events.induct)
  case (1 ops k)
  show ?case
  proof (cases "timer_expire_one (k_now k) (k_timers k)")
    case (Pair e q)
    show ?thesis
    proof (cases e)
      case None
      then show ?thesis using 1(2) Pair by (subst (asm) check_events.simps) (auto simp: keeps_def)
    next
      case (Some dt)
      obtain d t where dt: "dt = (d, t)" by fastforce
      from 1(2) Pair Some dt obtain k1 where k1: "TaskWakeupEvent_callback ops t (k\<lparr> k_timers := q \<rparr>) = Some k1"
        "check_events ops k1 = Some k'"
        by (subst (asm) check_events.simps) (auto split: option.splits)
      have "keeps {} k k1" "k_waiters k1 = k_waiters k"
        using unblock_task_frame [OF k1(1) [unfolded TaskWakeupEvent_callback_def]]
        by (auto simp: keeps_def set_in_timer_list_def)
      then show ?thesis
        using 1(1) [OF Pair [symmetric, unfolded Some dt] refl refl k1(1,2)] keeps_trans by metis
    qed
  qed
qed

lemma keeps_background: "background ops k k' \<Longrightarrow> keeps {} k k' \<and> k_waiters k' = k_waiters k"
proof (induction rule: background.induct)
  case (bg_irq k k')
  then obtain k1 where k1: "check_events ops k = Some k1" "scheduler_timer_tick ops k1 = Some k'"
    by (auto simp: on_timer_tick_def bind_eq_Some_conv)
  have "keeps {} k1 k' \<and> k_waiters k' = k_waiters k1"
    using k1(2) by (auto simp: scheduler_timer_tick_def keeps_def kdefs split: if_splits)
  then show ?case using keeps_check_events [OF k1(1)] keeps_trans by metis
next
  case (bg_preempt k k')
  then show ?case
    using keeps_resched [of ops True k k']
    by (auto simp: current_check_preempt_pending_def preempt_resched_def kdefs keeps_def split: if_splits)
qed (simp add: keeps_def)

lemma keeps_wake: "unblock_task ops t r (set_in_wait_queue u b (k\<lparr> k_waiters := w \<rparr>)) = Some k' \<Longrightarrow> keeps X k k'"
  using unblock_task_frame(1,6,15) [of ops t r "set_in_wait_queue u b (k\<lparr> k_waiters := w \<rparr>)" k']
  by (auto simp: keeps_def set_in_wait_queue_def)

lemma keeps_notify_one_locked: "notify_one_locked ops q r k = Some (b, k') \<Longrightarrow> keeps X k k'"
  by (auto simp: notify_one_locked_def keeps_wake split: list.splits)

lemma keeps_notify_one: "notify_one ops q r k = Some (b, k') \<Longrightarrow> keeps X k k'"
  by (auto simp: notify_one_def keeps_notify_one_locked split: if_splits)

lemma keeps_notify_all: "notify_all ops q r k = Some k' \<Longrightarrow> keeps X k k'"
proof (induction ops q r k rule: notify_all.induct)
  case (1 ops q r k)
  from 1(2) obtain b k1 where k1: "notify_one_locked ops q r k = Some (b, k1)"
    by (subst (asm) notify_all.simps) (auto split: option.splits)
  show ?case
  proof (cases b)
    case True
    then have "notify_all ops q r k1 = Some k'" using 1(2) k1 by (subst (asm) notify_all.simps) simp
    then show ?thesis
      using 1(1) [OF k1 refl] True keeps_notify_one_locked [OF k1] keeps_trans by blast
  next
    case False
    then have "k' = k1" using 1(2) k1 by (subst (asm) notify_all.simps) simp
    then show ?thesis using keeps_notify_one_locked [OF k1] by blast
  qed
qed

lemma keeps_notify_task: "notify_task ops q r t k = Some (b, k') \<Longrightarrow> keeps X k k'"
  by (auto simp: notify_task_def Let_def set_in_wait_queue_waiters keeps_wake split: option.splits prod.splits)

lemma keeps_set_cont: "keeps {k_current k} k (set_cont (k_current k) c k)"
  by (simp add: keeps_def set_cont_def)

lemma keeps_alarm: "keeps {k_current k} k (set_cont (k_current k) c (set_alarm_wakeup d (k_current k) k))"
  by (simp add: keeps_def kdefs set_alarm_wakeup_def)

lemma keeps_block:
  assumes "block_current ops (\<lambda>t. set_cont t c \<circ> wq_push q t) k = Some k'"
  shows "keeps {k_current k} k k'" "k_waiters k' = (k_waiters k)(q := k_waiters k q @ [k_current k])"
    "k_current k \<in> k_tasks k \<Longrightarrow> k_current k \<in> k_tasks k' \<and> k_cont k' (k_current k) = c \<and> k_state k' (k_current k) \<noteq> Exited"
proof -
  define k1 where "k1 = set_cont (k_current k) c (wq_push q (k_current k) (set_state (k_current k) Blocked k))"
  have "resched ops False k1 = Some k'"
    using assms by (simp add: block_current_def k1_def Let_def split: if_splits)
  from keeps_resched [OF this] show "keeps {k_current k} k k'" "k_waiters k' = (k_waiters k)(q := k_waiters k q @ [k_current k])"
    "k_current k \<in> k_tasks k \<Longrightarrow> k_current k \<in> k_tasks k' \<and> k_cont k' (k_current k) = c \<and> k_state k' (k_current k) \<noteq> Exited"
    by (auto simp: keeps_def k1_def wq_push_def kdefs)
qed

lemma keeps_wait_resume:
  "keeps {k_current k} k (wait_resume q k)" "k_cont (wait_resume q k) (k_current k) = C_run \<and> k_tasks (wait_resume q k) = k_tasks k"
  "k_state (wait_resume q k) = k_state k"
  "\<not> k_in_wait_queue k (k_current k) \<Longrightarrow> k_waiters (wait_resume q k) = k_waiters k"
  by (simp_all add: keeps_def wait_resume_def cancel_events_def cancel_alarm_def kdefs)

lemma keeps_exit: "exit_current ops code k = Some k' \<Longrightarrow> keeps {k_current k} k k'"
proof -
  let ?t = "k_current k"
  assume e: "exit_current ops code k = Some k'"
  show ?thesis
  proof (cases "?t = k_init k")
    case True
    then show ?thesis using e by (auto simp: exit_current_def keeps_def Let_def split: if_splits)
  next
    case False
    then obtain k1 b k2 where k: "notify_exit ops ?t code (set_state ?t Exited k) = Some k1"
      "notify_one_locked ops WAIT_FOR_EXIT False (k1\<lparr> k_exited := k_exited k1 @ [?t] \<rparr>) = Some (b, k2)"
      "resched ops False k2 = Some k'"
      using e by (auto simp: exit_current_def Let_def bind_eq_Some_conv split: if_splits)
    have "keeps {?t} k k1"
      using keeps_notify_all [OF k(1) [unfolded notify_exit_def], of "{?t}"] by (simp add: keeps_def set_state_def)
    moreover have "keeps {?t} k1 k2"
      using keeps_notify_one_locked [OF k(2), of "{?t}"] by (simp add: keeps_def)
    moreover have "keeps {?t} k2 k'" using keeps_resched [OF k(3)] keeps_mono by blast
    ultimately show ?thesis using keeps_trans by blast
  qed
qed

lemma keeps_gc_turn: "exits_ok k \<Longrightarrow> keeps {k_current k} k (gc_turn refs n k)"
  by (auto simp: keeps_def gc_turn_def set_cont_def exits_ok_def split: list.splits if_splits)

lemma keeps_sleep: "sleep_until ops d k = Some k' \<Longrightarrow> keeps {k_current k} k k'"
  using keeps_resched [of ops False "set_cont (k_current k) C_sleep (set_state (k_current k) Blocked
      (set_alarm_wakeup d (k_current k) k))" k']
  by (auto simp: sleep_until_def set_alarm_wakeup_def keeps_def kdefs split: if_splits)

lemma keeps_enable: "enable_preempt ops t r k = Some k' \<Longrightarrow> keeps {} k k'"
  using keeps_background [OF bg_preempt, of ops "k\<lparr> k_preempt_count := f \<rparr>" k' for f]
  by (auto simp: enable_preempt_def Let_def keeps_def split: if_splits)

lemma call_keeps:
  assumes "run_call ops c k = Some k'" "exits_ok k" "call_at N c k"
  shows "keeps {k_current k} k k'"
proof (cases c)
  case Timer_irq
  then show ?thesis using assms keeps_background [OF bg_irq] keeps_mono by fastforce
next
  case Check_preempt
  then show ?thesis using assms keeps_background [OF bg_preempt] keeps_mono by fastforce
next
  case (Enable_preempt r)
  then show ?thesis using assms keeps_enable keeps_mono by fastforce
next
  case Yield_now
  then show ?thesis
    using assms keeps_resched [of ops False k k'] by (auto simp: yield_current_def keeps_def split: if_splits)
next
  case (Spawn t name)
  then show ?thesis
    using assms by (auto simp: spawn_raw_def rq_add_task_def task_new_def new_common_def keeps_def Let_def split: if_splits)
next
  case (Sleep_until d)
  then show ?thesis using assms keeps_sleep by simp
next
  case (Exit_task code)
  then show ?thesis using assms keeps_exit by simp
next
  case Disable_preempt
  then show ?thesis using assms by (auto simp: keeps_def disable_preempt_def)
next
  case (Set_priority p)
  then show ?thesis using assms by (auto simp: set_current_priority_def keeps_def)
next
  case (Wait_until q c)
  then show ?thesis
    using assms by (auto simp: wait_until_turn_def keeps_wait_resume(1) intro: keeps_block(1) split: if_splits)
next
  case (Join t)
  then show ?thesis
    using assms
    by (auto simp: join_turn_def wait_until_turn_def keeps_wait_resume(1) intro: keeps_block(1) split: if_splits)
next
  case (Until_turn q d c)
  then show ?thesis
    using assms by (auto simp: wait_timeout_until_turn_def keeps_wait_resume(1) intro: keeps_block(1) split: if_splits)
next
  case Gc_begin
  then have "k' = set_cont (k_current k) (C_gc (length (k_exited k))) k" using assms(1) by (simp add: gc_begin_def)
  then show ?thesis using keeps_set_cont by blast
next
  case (Until_check q d)
  then show ?thesis
    using assms by (auto simp: wait_timeout_until_check_def keeps_wait_resume(1) keeps_set_cont split: if_splits)
qed (use assms in \<open>auto simp: keeps_set_cont wait_block_def keeps_wait_resume(1) wait_timeout_block_def gc_wait_def
    gc_begin_def keeps_gc_turn wait_timeout_arm_def wait_timeout_until_arm_def wait_timeout_resume_def keeps_alarm Let_def
    intro: keeps_block(1) keeps_notify_one keeps_notify_all keeps_notify_task\<close>)

lemma kstep_keeps: "kstep ops N k k' \<Longrightarrow> exits_ok k \<Longrightarrow> keeps {k_current k} k k'"
  by (induction rule: kstep.induct) (simp add: keeps_def, rule call_keeps)

section \<open>The invariant\<close>

definition mutex_inv :: "'t wait_queue \<Rightarrow> ('t, 's) kernel \<Rightarrow> 't mutex \<Rightarrow> bool" where
  "mutex_inv q k m \<longleftrightarrow> (\<forall>t. mx_pc m t \<in> {Holding, Relocking} \<longleftrightarrow> mx_owner m = Some t) \<and>
    (\<forall>t\<in>set (k_waiters k q). mx_pc m t = Waiting) \<and>
    (\<forall>t. mx_pc m t \<in> {Locking, Notifying, Waiting} \<longrightarrow> t \<in> k_tasks k \<and> k_state k t \<noteq> Exited \<and>
      (k_cont k t = C_run \<or> mx_pc m t = Waiting \<and> k_cont k t = C_wait_until q)) \<and>
    (k_waiters k q \<noteq> [] \<longrightarrow> mx_owner m = None \<longrightarrow>
      (\<exists>t. mx_pc m t \<in> {Locking, Notifying, Waiting} \<and> t \<notin> set (k_waiters k q)))"

lemma mutex_invI:
  assumes "\<And>t. mx_pc m t \<in> {Holding, Relocking} \<longleftrightarrow> mx_owner m = Some t" "\<And>t. t \<in> set (k_waiters k q) \<Longrightarrow> mx_pc m t = Waiting"
    "\<And>t. mx_pc m t \<in> {Locking, Notifying, Waiting} \<Longrightarrow> t \<in> k_tasks k \<and> k_state k t \<noteq> Exited \<and>
      (k_cont k t = C_run \<or> mx_pc m t = Waiting \<and> k_cont k t = C_wait_until q)"
    "k_waiters k q \<noteq> [] \<Longrightarrow> mx_owner m = None \<Longrightarrow>
      \<exists>t. mx_pc m t \<in> {Locking, Notifying, Waiting} \<and> t \<notin> set (k_waiters k q)"
  shows "mutex_inv q k m"
  using assms unfolding mutex_inv_def by blast

lemma mutex_invD:
  assumes "mutex_inv q k m"
  shows "mx_pc m t \<in> {Holding, Relocking} \<longleftrightarrow> mx_owner m = Some t" "t \<in> set (k_waiters k q) \<Longrightarrow> mx_pc m t = Waiting"
    "mx_pc m t \<in> {Locking, Notifying, Waiting} \<Longrightarrow> t \<in> k_tasks k \<and> k_state k t \<noteq> Exited"
    "mx_pc m t \<in> {Locking, Notifying, Waiting} \<Longrightarrow> k_cont k t = C_run \<or> mx_pc m t = Waiting \<and> k_cont k t = C_wait_until q"
  using assms unfolding mutex_inv_def by blast+

text \<open>Steps of tasks that are not in \<open>lock\<close> or \<open>force_unlock\<close>, and changes of the kernel only.\<close>

lemma mutex_inv_keeps:
  assumes "mutex_inv q k m" "keeps X k k'" "k_waiters k' q = k_waiters k q" "\<And>t. t \<in> X \<Longrightarrow> mx_pc m t \<in> {Outside, Holding}"
  shows "mutex_inv q k' m"
proof -
  have "t \<in> k_tasks k' \<and> k_state k' t \<noteq> Exited \<and> k_cont k' t = k_cont k t"
    if "mx_pc m t \<in> {Locking, Notifying, Waiting}" for t
  proof -
    have "t \<notin> X" using assms(4) [of t] that by auto
    moreover have "t \<in> k_tasks k" "k_state k t \<noteq> Exited"
      using mutex_invD(3) [OF assms(1) that] by simp_all
    ultimately show ?thesis using assms(2) by (auto simp: keeps_def)
  qed
  then show ?thesis using assms(1,3) unfolding mutex_inv_def by simp
qed

text \<open>Setting the position of one task.\<close>

lemma set_pc_simps [simp]:
  "mx_pc (set_pc t p m) u = (if u = t then p else mx_pc m u)" "mx_owner (set_pc t p m) = mx_owner m"
  by (simp_all add: set_pc_def)

lemma mutex_pc_range: "p \<in> {Locking, Notifying, Waiting} \<longleftrightarrow> p \<noteq> Outside \<and> p \<noteq> Holding \<and> p \<noteq> Relocking"
  "p \<in> {Holding, Relocking} \<longleftrightarrow> p = Holding \<or> p = Relocking"
  by (cases p, auto)+

lemma mutex_inv_new: "k_waiters k q = [] \<Longrightarrow> mutex_inv q k mutex_new"
  by (simp add: mutex_inv_def mutex_new_def)

text \<open>The running task starts, fails to take, takes or frees the mutex.\<close>

lemma mutex_inv_move:
  assumes inv: "mutex_inv q k m" and t: "t \<notin> set (k_waiters k q)"
    and own: "p \<in> {Holding, Relocking} \<longleftrightarrow> own = Some t" "\<And>u. u \<noteq> t \<Longrightarrow> mx_owner m = Some u \<longleftrightarrow> own = Some u"
    and p: "p \<in> {Locking, Notifying, Waiting} \<Longrightarrow> t \<in> k_tasks k \<and> k_state k t \<noteq> Exited \<and> k_cont k t = C_run"
    and free: "k_waiters k q \<noteq> [] \<Longrightarrow> own = None \<Longrightarrow> p \<in> {Locking, Notifying, Waiting} \<or>
      (\<exists>u. u \<noteq> t \<and> mx_pc m u \<in> {Locking, Notifying, Waiting} \<and> u \<notin> set (k_waiters k q))"
  shows "mutex_inv q k (set_pc t p (m\<lparr> mx_owner := own \<rparr>))"
proof (rule mutex_invI)
  let ?m = "set_pc t p (m\<lparr> mx_owner := own \<rparr>)"
  show "mx_pc ?m u \<in> {Holding, Relocking} \<longleftrightarrow> mx_owner ?m = Some u" for u
    using own mutex_invD(1) [OF inv, of u] by (cases "u = t") (simp_all del: insert_iff)
  show "mx_pc ?m u = Waiting" if "u \<in> set (k_waiters k q)" for u
    using that t mutex_invD(2) [OF inv] by auto
  show "u \<in> k_tasks k \<and> k_state k u \<noteq> Exited \<and> (k_cont k u = C_run \<or> mx_pc ?m u = Waiting \<and> k_cont k u = C_wait_until q)"
    if "mx_pc ?m u \<in> {Locking, Notifying, Waiting}" for u
    using that p mutex_invD(3,4) [OF inv, of u] by (cases "u = t") (simp_all del: insert_iff)
  show "\<exists>u. mx_pc ?m u \<in> {Locking, Notifying, Waiting} \<and> u \<notin> set (k_waiters k q)"
    if w: "k_waiters k q \<noteq> []" and "mx_owner ?m = None"
  proof -
    have "own = None" using that by simp
    from free [OF w this] show ?thesis
    proof
      assume "p \<in> {Locking, Notifying, Waiting}"
      then show ?thesis using t by (intro exI [of _ t]) (simp del: insert_iff)
    next
      assume "\<exists>u. u \<noteq> t \<and> mx_pc m u \<in> {Locking, Notifying, Waiting} \<and> u \<notin> set (k_waiters k q)"
      then obtain u where "u \<noteq> t" "mx_pc m u \<in> {Locking, Notifying, Waiting}" "u \<notin> set (k_waiters k q)" by blast
      then show ?thesis by (intro exI [of _ u]) (simp del: insert_iff)
    qed
  qed
qed

lemma mutex_inv_try_again:
  assumes "mutex_inv q k m" "t \<in> k_tasks k" "k_state k t \<noteq> Exited" "k_cont k t = C_run" "t \<notin> set (k_waiters k q)"
    "mx_owner m \<noteq> Some t" "p \<in> {Locking, Notifying, Waiting}"
  shows "mutex_inv q k (set_pc t p m)"
  using mutex_inv_move [OF assms(1,5), of p "mx_owner m"] assms by auto

lemma mutex_inv_again:
  assumes "mutex_inv q k m" "mx_owner m = Some t" "t \<notin> set (k_waiters k q)"
  shows "mutex_inv q k (set_pc t Relocking m)"
proof -
  have "m\<lparr> mx_owner := Some t \<rparr> = m" using assms(2) by (cases m) simp
  moreover have "mutex_inv q k (set_pc t Relocking (m\<lparr> mx_owner := Some t \<rparr>))"
    using mutex_inv_move [OF assms(1,3), of Relocking "Some t"] assms(2) by auto
  ultimately show ?thesis by simp
qed

lemma mutex_inv_take:
  assumes "mutex_inv q k m" "mx_owner m = None" "t \<notin> set (k_waiters k q)"
  shows "mutex_inv q k (set_pc t Holding (m\<lparr> mx_owner := Some t \<rparr>))"
  using mutex_inv_move [OF assms(1,3), of Holding "Some t"] assms by auto

lemma mutex_inv_free:
  assumes "mutex_inv q k m" "mx_owner m = Some t" "t \<in> k_tasks k" "k_state k t \<noteq> Exited" "k_cont k t = C_run"
    "t \<notin> set (k_waiters k q)"
  shows "mutex_inv q k (set_pc t Notifying (m\<lparr> mx_owner := None \<rparr>))"
  using mutex_inv_move [OF assms(1,6), of Notifying None] assms by auto

context endless_run_queue
begin

text \<open>A task that runs is in no wait queue unless a timeout woke it.\<close>

lemma running_not_waiting:
  assumes "kernel_inv sched_ok ready k" "k_cont k (k_current k) \<in> {C_run, C_wait_until q}"
  shows "k_current k \<notin> set (k_waiters k q)" "\<not> k_in_wait_queue k (k_current k)" "k_current k \<in> k_tasks k"
    "k_state k (k_current k) \<noteq> Exited"
proof -
  have "queues k (k_current k) = {}" using current_cont [OF assms(1)] assms(2) by auto
  then show "k_current k \<notin> set (k_waiters k q)" "\<not> k_in_wait_queue k (k_current k)"
    using kernel_invD(5) [OF assms(1)] by (auto simp: queues_def task_ok_def)
  show "k_current k \<in> k_tasks k" "k_state k (k_current k) \<noteq> Exited" using kernel_invD [OF assms(1)] by simp_all
qed

lemma lock_wait_inv:
  assumes inv: "kernel_inv sched_ok ready k" "mutex_inv q k m" and pc: "mx_pc m (k_current k) = Waiting"
    and turn: "wait_until_turn ops q (\<not> mutex_is_locked m) k = Some k'"
  shows "mutex_inv q k' (if mutex_is_locked m then m else set_pc (k_current k) Locking m)"
proof -
  let ?t = "k_current k"
  have c: "k_cont k ?t \<in> {C_run, C_wait_until q}" "mx_owner m \<noteq> Some ?t"
    using mutex_invD(1,4) [OF inv(2), of ?t] pc by auto
  note r = running_not_waiting [OF inv(1) c(1)]
  have others: "u \<in> k_tasks k' \<and> k_state k' u \<noteq> Exited \<and> k_cont k' u = k_cont k u"
    if "keeps {?t} k k'" "mx_pc m u \<in> {Locking, Notifying, Waiting}" "u \<noteq> ?t" for u
  proof -
    have "u \<in> k_tasks k" "k_state k u \<noteq> Exited" using mutex_invD(3) [OF inv(2) that(2)] by simp_all
    then show ?thesis using that(1,3) by (auto simp: keeps_def)
  qed
  show ?thesis
  proof (cases "mutex_is_locked m")
    case True
    then have "block_current ops (\<lambda>t. set_cont t (C_wait_until q) \<circ> wq_push q t) k = Some k'"
      using turn by (simp add: wait_until_turn_def)
    note b = keeps_block [OF this]
    have "?t \<in> k_tasks k'" using b(3) r(3) by blast
    moreover have "mx_owner m \<noteq> None" using True by (simp add: mutex_is_locked_def)
    moreover have "u \<in> k_tasks k' \<and> k_state k' u \<noteq> Exited \<and> (k_cont k' u = C_run \<or> mx_pc m u = Waiting \<and> k_cont k' u = C_wait_until q)"
      if "mx_pc m u \<in> {Locking, Notifying, Waiting}" for u
      using others [OF b(1) that] mutex_invD(4) [OF inv(2) that] b(3) [OF r(3)] pc calculation(1)
      by (cases "u = ?t") simp_all
    moreover have "mx_pc m u = Waiting" if "u \<in> set (k_waiters k' q)" for u
      using that mutex_invD(2) [OF inv(2), of u] b(2) pc by auto
    ultimately show ?thesis
      using mutex_invI [of m k' q, OF mutex_invD(1) [OF inv(2)]] True by auto
  next
    case False
    then have k': "k' = wait_resume q k" using turn by (simp add: wait_until_turn_def)
    note w = keeps_wait_resume [where k = k and q = q, folded k']
    have k'': "?t \<in> k_tasks k'" "k_state k' ?t \<noteq> Exited" "k_cont k' ?t = C_run" "k_waiters k' = k_waiters k"
      using w(2-) r by simp_all
    have "mutex_inv q k' m"
    proof (rule mutex_invI [OF mutex_invD(1) [OF inv(2)]])
      show "mx_pc m u = Waiting" if "u \<in> set (k_waiters k' q)" for u using that mutex_invD(2) [OF inv(2)] k''(4) by simp
      show "u \<in> k_tasks k' \<and> k_state k' u \<noteq> Exited \<and> (k_cont k' u = C_run \<or> mx_pc m u = Waiting \<and> k_cont k' u = C_wait_until q)"
        if "mx_pc m u \<in> {Locking, Notifying, Waiting}" for u
        using others [OF w(1) that] mutex_invD(4) [OF inv(2) that] k''(1-3) by (cases "u = ?t") simp_all
      show "\<exists>u. mx_pc m u \<in> {Locking, Notifying, Waiting} \<and> u \<notin> set (k_waiters k' q)"
        if "k_waiters k' q \<noteq> []" "mx_owner m = None"
        using that inv(2) unfolding mutex_inv_def k''(4) by blast
    qed
    then show ?thesis
      using False mutex_inv_try_again [OF _ k''(1-3), of q m Locking] r(1) k''(4) c(2) by simp
  qed
qed

lemma notify_inv:
  assumes inv: "kernel_inv sched_ok ready k" "mutex_inv q k m" and pc: "mx_pc m (k_current k) = Notifying"
    and no: "notify_one ops q True k = Some (b, k')"
  shows "mutex_inv q k' (set_pc (k_current k) Outside m)"
proof -
  let ?t = "k_current k"
  have kp: "keeps {} k k'" using keeps_notify_one [OF no] .
  have inv': "mutex_inv q (k'\<lparr> k_waiters := k_waiters k \<rparr>) m"
    by (rule mutex_inv_keeps [OF inv(2), of "{}"]) (use kp in \<open>simp_all add: keeps_def\<close>)
  have d: "distinct (k_waiters k q)" using kernel_midD(3) [OF kernel_invD(1) [OF inv(1)]] by (simp add: lists_ok_def)
  have t: "?t \<notin> set (k_waiters k q)" "mx_owner m \<noteq> Some ?t"
    using mutex_invD(1,2) [OF inv(2), of ?t] pc by auto
  show ?thesis
  proof (cases "k_waiters k q")
    case Nil
    then have "k' = k" using no by (simp add: notify_one_def)
    then show ?thesis using inv(2) Nil pc t(2) unfolding mutex_inv_def by auto
  next
    case (Cons u us)
    then have w: "k_waiters k' q = us"
      using no unblock_task_frame(7) [of ops u True "set_in_wait_queue u False (k\<lparr> k_waiters := (k_waiters k)(q := us) \<rparr>)" k']
      by (auto simp: notify_one_def notify_one_locked_def set_in_wait_queue_waiters)
    have u: "mx_pc m u = Waiting" "u \<notin> set us" "u \<noteq> ?t"
      using mutex_invD(2) [OF inv(2), of u] Cons d t by auto
    have out: "v \<notin> set us" if "mx_pc m v \<noteq> Waiting" for v
      using mutex_invD(2) [OF inv(2), of v] Cons that by auto
    have "mutex_inv q k' m"
    proof (rule mutex_invI [OF mutex_invD(1) [OF inv(2)]])
      show "mx_pc m v = Waiting" if "v \<in> set (k_waiters k' q)" for v using that out by (auto simp: w)
      show "v \<in> k_tasks k' \<and> k_state k' v \<noteq> Exited \<and> (k_cont k' v = C_run \<or> mx_pc m v = Waiting \<and> k_cont k' v = C_wait_until q)"
        if "mx_pc m v \<in> {Locking, Notifying, Waiting}" for v
        using mutex_invD(3,4) [OF inv' that] by simp
      show "\<exists>v. mx_pc m v \<in> {Locking, Notifying, Waiting} \<and> v \<notin> set (k_waiters k' q)"
        using u w by (intro exI [of _ u]) simp
    qed
    from mutex_inv_move [OF this, of ?t Outside "mx_owner m"] show ?thesis
      using u w out [of ?t] pc t(2) by auto
  qed
qed

lemma mutex_step_inv:
  assumes "mutex_step ops N q (k, m) (k', m')" "kernel_inv sched_ok ready k" "mutex_inv q k m" "public_queue q"
    and N: "''idle'' \<notin> N"
  shows "mutex_inv q k' m' \<and> (k_halted k' \<or> kernel_inv sched_ok ready k')"
  using assms(1)
proof (cases rule: mutex_step.cases)
  case lock_call
  note r = running_not_waiting [OF assms(2), of q]
  show ?thesis
    using lock_call assms(2) mutex_inv_try_again [OF assms(3) r(3,4) _ r(1), of Locking] mutex_invD(1) [OF assms(3), of "k_current k"]
    by simp
next
  case lock_again
  then show ?thesis
    using assms(2) mutex_inv_again [OF assms(3), of "k_current k"] mutex_invD(1,2) [OF assms(3), of "k_current k"] by auto
next
  case (lock_exchange spurious)
  then have pc: "mx_pc m (k_current k) = Locking"
    using mutex_invD(1) [OF assms(3), of "k_current k"] by (auto simp: lock_attempt_def)
  have c: "k_cont k (k_current k) = C_run" using mutex_invD(4) [OF assms(3), of "k_current k"] pc by simp
  note r = running_not_waiting [OF assms(2), of q]
  show ?thesis
    using lock_exchange(1,3) pc c assms(2) mutex_inv_try_again [OF assms(3) r(3,4) c r(1), of Waiting]
      mutex_inv_take [OF assms(3) _ r(1)] mutex_invD(1) [OF assms(3), of "k_current k"]
    by (auto simp: lock_attempt_def split: option.splits if_splits)
next
  case lock_wait
  have "k_cont k (k_current k) \<in> {C_run, C_wait_until q}"
    using mutex_invD(4) [OF assms(3), of "k_current k"] lock_wait by auto
  then have "kstep ops N k k'" using kstep.call [of N "Wait_until q (\<not> mutex_is_locked m)" k ops k'] assms(4) lock_wait by simp
  then show ?thesis using lock_wait lock_wait_inv [OF assms(2,3)] kstep_inv [OF _ N assms(2)] by blast
next
  case (try_call b)
  note r = running_not_waiting [OF assms(2), of q]
  show ?thesis
    using try_call(1,3,4) assms(2,3) mutex_inv_take [OF assms(3) _ r(1)]
    by (auto simp: mutex_try_lock_def split: if_splits)
next
  case unlock
  note r = running_not_waiting [OF assms(2), of q]
  show ?thesis
    using unlock assms(2) mutex_inv_free [OF assms(3) _ r(3,4) _ r(1)] by (auto simp: unlock_swap_def Let_def split: if_splits)
next
  case (unlock_notify b)
  then have "kstep ops N k k'" using kstep.call [of N "Notify_one q True" k ops k'] by simp
  then show ?thesis using unlock_notify notify_inv [OF assms(2,3)] kstep_inv [OF _ N assms(2)] by blast
next
  case other
  have "mutex_inv q k' m"
    by (rule mutex_inv_keeps [OF assms(3) kstep_keeps [OF other(3) kernel_invD(2) [OF assms(2)]] other(4)]) (use other in auto)
  then show ?thesis using kstep_inv [OF other(3) N assms(2)] other by simp
next
  case background_step
  have "kstep ops N k k'"
    using background_step(2) by cases (auto intro: kstep.time kstep.call [of N Timer_irq] kstep.call [of N Check_preempt])
  moreover have "mutex_inv q k' m"
    by (rule mutex_inv_keeps [OF assms(3), of "{}"]) (use keeps_background [OF background_step(2)] in auto)
  ultimately show ?thesis using kstep_inv [OF _ N assms(2)] background_step by blast
qed

lemma mutex_reach_inv:
  assumes "mutex_reach ops N q k0 s" "kernel_inv sched_ok ready k0" "k_waiters k0 q = []" "public_queue q" "''idle'' \<notin> N"
  shows "mutex_inv q (fst s) (snd s) \<and> (k_halted (fst s) \<or> kernel_inv sched_ok ready (fst s))"
  using assms(1)
proof (induction rule: mutex_reach.induct)
  case mutex_start
  then show ?case using assms(2,3) by (simp add: mutex_inv_new)
next
  case (mutex_next k m s)
  then show ?case using mutex_step_inv [of N q k m "fst s" "snd s"] assms(4,5) by simp
qed

end

section \<open>Properties\<close>

text \<open>A task that goes on with \<open>lock\<close> or \<open>force_unlock\<close> and is not queued is ready or running.\<close>

lemma mutex_inv_active:
  assumes "kernel_inv sok rdy k" "mutex_inv q k m" "mx_pc m t \<in> {Locking, Notifying, Waiting}" "t \<notin> set (k_waiters k q)"
  shows "k_state k t \<in> {Ready, Running}"
proof -
  note i = mutex_invD(3,4) [OF assms(2,3)]
  have "task_ok k t" using assms(1) i(1) by (simp add: kernel_inv_def kernel_core_def kernel_mid_def)
  then have "cont_ok (k_cont k t) (k_state k t) (queues k t) (alarms k t) (k_now k)" by (simp add: task_ok_def)
  moreover have "q \<notin> queues k t" using assms(4) by (simp add: queues_def)
  ultimately have "k_state k t \<noteq> Blocked" using i(2) by (auto split: if_splits)
  then show ?thesis using i(1) by (cases "k_state k t") auto
qed

lemma sched_init_fields:
  "sched_init ops s0 idle main gc = Some k0 \<Longrightarrow>
    k_current k0 = main \<and> k_cont k0 = (\<lambda>_. C_run) \<and> \<not> k_halted k0 \<and> k_waiters k0 q = []"
  by (auto simp: sched_init_def Let_def task_new_def task_new_init_def new_common_def set_state_def)

lemma fifo_init_ok:
  assumes "distinct [idle, main, gc]"
  shows "\<exists>k0. sched_init fifo_ops (fifo_new h) idle main gc = Some k0 \<and> kernel_inv fifo_ok fifo_ready k0"
proof -
  have "list_repr (fifo_new h) ([] :: 'a list)" by (simp add: fifo_new_def list_new_def)
  then have "fifo_ok (fifo_new h :: 'a fifo)" "fifo_ready (fifo_new h :: 'a fifo) = {}"
    by (auto simp: fifo_okI fifo_ready_repr simp del: list_repr_Nil)
  then show ?thesis using fifo_rq.init_spec [OF _ _ TrueI assms] by blast
qed

text \<open>C34: However tasks that use a mutex are interleaved, preempted, woken and switched, as long as none is
  named \<open>idle\<close>: at most one task is between a successful lock and the unlock, and it is the recorded owner;
  the assertion of \<open>lock\<close> fails exactly for a task that holds the mutex already, and the unlock of
  the guard never fails its own; and while some task is queued, the mutex is held or a task that can run is about
  to try the lock or to wake the first in the queue, so no wake up is lost although unlocking
  wakes one task only.\<close>

theorem mutex_exclusion:
  assumes init: "sched_init fifo_ops (fifo_new h) idle main gc = Some k0" "distinct [idle, main, gc]"
    and names: "''idle'' \<notin> N" and reach: "mutex_reach fifo_ops N (User_queue n) k0 (k, m)" and on: "\<not> k_halted k"
  shows "(\<forall>t u. mx_pc m t \<in> {Holding, Relocking} \<and> mx_pc m u \<in> {Holding, Relocking} \<longrightarrow> t = u) \<and>
    (\<forall>t. mx_pc m t \<in> {Holding, Relocking} \<longleftrightarrow> mx_owner m = Some t) \<and>
    (\<forall>t spurious. mx_pc m t \<in> {Locking, Relocking} \<longrightarrow> (lock_attempt spurious t m = None \<longleftrightarrow> mx_pc m t = Relocking)) \<and>
    (\<forall>t. mx_pc m t = Holding \<longrightarrow> unlock_swap t m \<noteq> None) \<and>
    (k_waiters k (User_queue n) \<noteq> [] \<longrightarrow> (\<exists>t. mx_pc m t \<in> {Holding, Relocking}) \<or>
      (\<exists>t. mx_pc m t \<in> {Locking, Notifying, Waiting} \<and> k_state k t \<in> {Ready, Running}))"
proof -
  have "kernel_inv fifo_ok fifo_ready k0" using fifo_init_ok [OF init(2), of h] init(1) by auto
  moreover have "k_waiters k0 (User_queue n) = []" using sched_init_fields [OF init(1)] by blast
  ultimately have inv: "mutex_inv (User_queue n) k m" "kernel_inv fifo_ok fifo_ready k"
    using fifo_rq.mutex_reach_inv [OF reach _ _ _ names] on by (auto simp: public_queue_def)
  note pc = mutex_invD(1) [OF inv(1)]
  have "t = u" if "mx_pc m t \<in> {Holding, Relocking}" "mx_pc m u \<in> {Holding, Relocking}" for t u
    using pc [of t] pc [of u] that by simp
  moreover have "lock_attempt spurious t m = None \<longleftrightarrow> mx_pc m t = Relocking" if "mx_pc m t \<in> {Locking, Relocking}" for spurious t
    using that pc [of t] by (auto simp: lock_attempt_def split: option.splits)
  moreover have "unlock_swap t m \<noteq> None" if "mx_pc m t = Holding" for t
    using that pc [of t] by (simp add: unlock_swap_def)
  moreover have "\<exists>t. mx_pc m t \<in> {Locking, Notifying, Waiting} \<and> k_state k t \<in> {Ready, Running}"
    if w: "k_waiters k (User_queue n) \<noteq> []" and no: "\<nexists>t. mx_pc m t \<in> {Holding, Relocking}"
  proof -
    have f: "mx_owner m = None" using pc no by (cases "mx_owner m") blast+
    obtain t where "mx_pc m t \<in> {Locking, Notifying, Waiting}" "t \<notin> set (k_waiters k (User_queue n))"
      using inv(1) w f unfolding mutex_inv_def by blast
    then show ?thesis using mutex_inv_active [OF inv(2,1)] by blast
  qed
  ultimately show ?thesis using pc by blast
qed

theorem mutex_exclusion_witness:
  "\<exists>k0 m. sched_init fifo_ops (fifo_new (\<lambda>_. None)) 0 1 (2::nat) = Some k0 \<and>
    mutex_reach fifo_ops {} (User_queue 0) k0 (k0, m) \<and> mx_owner m = Some 1 \<and>
    mx_pc m 1 = Holding \<and> (\<forall>t. mx_pc m t = Holding \<longrightarrow> t = 1)"
proof -
  obtain k0 where i: "sched_init fifo_ops (fifo_new (\<lambda>_. None)) 0 1 (2::nat) = Some k0"
    using fifo_init_ok [of 0 1 "2::nat"] by auto
  note k0 = this sched_init_fields [OF i, THEN conjunct1] sched_init_fields [OF i, THEN conjunct2, THEN conjunct1, THEN fun_cong]
    sched_init_fields [OF i, THEN conjunct2, THEN conjunct2, THEN conjunct1]
  define m1 where "m1 = set_pc 1 Locking (mutex_new :: nat mutex)"
  define m2 where "m2 = set_pc 1 Holding (m1\<lparr> mx_owner := Some 1 \<rparr>)"
  have "mutex_reach fifo_ops {} (User_queue 0) k0 (k0, m1)"
    using mutex_next [OF mutex_start k0(4) lock_call] k0 by (simp add: m1_def mutex_new_def)
  moreover have "lock_attempt False 1 m1 = Some m2" by (simp add: lock_attempt_def m1_def m2_def mutex_new_def)
  ultimately have r: "mutex_reach fifo_ops {} (User_queue 0) k0 (k0, m2)"
    using mutex_next [OF _ k0(4) lock_exchange [of m1 k0 False m2]] k0 by (simp add: m1_def)
  have own: "mx_owner m2 = Some 1" "mx_pc m2 1 = Holding" by (simp_all add: m2_def)
  have "distinct [0, 1, 2::nat]" "''idle'' \<notin> {}" by simp_all
  note ex = mutex_exclusion [OF k0(1) this r k0(4)]
  have "t = 1" if "mx_pc m2 t = Holding" for t using ex own(2) that by blast
  then show ?thesis using k0(1) r own by blast
qed

end
