(* ===== verification/Page_Allocator.thy ===== *)
theory Page_Allocator
  imports Memory_Addr Axerrno
begin

text \<open>
  The bitmap page allocator, \<open>src/crates/allocator/src/bitmap.rs\<close> with the error type and the
  alignment functions of \<open>lib.rs\<close>. The bitmap is the package \<open>bitmap_allocator\<close>, a parameter of the
  definitions; the locale \<open>bit_allocator\<close> states what its documentation promises: \<open>insert\<close> makes a
  range of bits available, \<open>alloc\<close> and \<open>alloc_contiguous\<close> take available bits, \<open>dealloc\<close> gives one
  bit back.
\<close>

section \<open>The allocator\<close>

datatype AllocError = AE_InvalidParam | AE_MemoryOverlap | AE_NoMemory | AE_NotAllocated

definition alloc_align_down :: "usize \<Rightarrow> usize \<Rightarrow> usize" where
  "alloc_align_down pos align = pos AND NOT (align - 1)"

definition alloc_align_up :: "usize \<Rightarrow> usize \<Rightarrow> usize" where
  "alloc_align_up pos align = (pos + align - 1) AND NOT (align - 1)"

record 'b bit_alloc_ops =
  ba_default :: 'b
  ba_insert :: "nat \<Rightarrow> nat \<Rightarrow> 'b \<Rightarrow> 'b"
  ba_alloc :: "'b \<Rightarrow> nat option \<times> 'b"
  ba_alloc_contiguous :: "nat \<Rightarrow> nat \<Rightarrow> 'b \<Rightarrow> nat option \<times> 'b"
  ba_dealloc :: "nat \<Rightarrow> 'b \<Rightarrow> 'b"

record 'b BitmapPageAllocator =
  bp_base :: usize
  bp_total_pages :: usize
  bp_used_pages :: usize
  bp_inner :: 'b

definition bp_new :: "'b bit_alloc_ops \<Rightarrow> 'b BitmapPageAllocator" where
  "bp_new B = \<lparr> bp_base = 0, bp_total_pages = 0, bp_used_pages = 0, bp_inner = ba_default B \<rparr>"

text \<open>\<open>None\<close> is the failed assertion.\<close>

definition bp_init :: "'b bit_alloc_ops \<Rightarrow> usize \<Rightarrow> usize \<Rightarrow> usize \<Rightarrow> 'b BitmapPageAllocator \<Rightarrow> 'b BitmapPageAllocator option" where
  "bp_init B page_size start sz a =
    (if is_power_of_two page_size then
       let e = alloc_align_down (start + sz) page_size;
           s = alloc_align_up start page_size;
           total = (e - s) div page_size
       in Some (a\<lparr> bp_base := s, bp_total_pages := total, bp_inner := ba_insert B 0 (unat total) (bp_inner a) \<rparr>)
     else None)"

definition bp_add_memory :: "usize \<Rightarrow> usize \<Rightarrow> 'b BitmapPageAllocator \<Rightarrow> (unit, AllocError) outcome \<times> 'b BitmapPageAllocator" where
  "bp_add_memory start sz a = (Err AE_NoMemory, a)"

definition bp_alloc_pages :: "'b bit_alloc_ops \<Rightarrow> usize \<Rightarrow> usize \<Rightarrow> usize \<Rightarrow> 'b BitmapPageAllocator \<Rightarrow>
    (usize, AllocError) outcome \<times> 'b BitmapPageAllocator" where
  "bp_alloc_pages B page_size num_pages align_pow2 a =
    (if align_pow2 mod page_size \<noteq> 0 then (Err AE_InvalidParam, a)
     else let align = align_pow2 div page_size in
       if \<not> is_power_of_two align then (Err AE_InvalidParam, a)
       else let align_log2 = trailing_zeros align in
         if num_pages = 0 then (Err AE_InvalidParam, a)
         else (case (if num_pages = 1 then ba_alloc B (bp_inner a)
                     else ba_alloc_contiguous B (unat num_pages) align_log2 (bp_inner a)) of
             (Some idx, b) \<Rightarrow> (Ok (of_nat idx * page_size + bp_base a),
                a\<lparr> bp_used_pages := bp_used_pages a + num_pages, bp_inner := b \<rparr>)
           | (None, b) \<Rightarrow> (Err AE_NoMemory, a\<lparr> bp_inner := b \<rparr>)))"

definition bp_dealloc_pages :: "'b bit_alloc_ops \<Rightarrow> usize \<Rightarrow> usize \<Rightarrow> usize \<Rightarrow> 'b BitmapPageAllocator \<Rightarrow> 'b BitmapPageAllocator" where
  "bp_dealloc_pages B page_size pos num_pages a =
    a\<lparr> bp_used_pages := bp_used_pages a - num_pages,
       bp_inner := ba_dealloc B (unat ((pos - bp_base a) div page_size)) (bp_inner a) \<rparr>"

definition bp_available_pages :: "'b BitmapPageAllocator \<Rightarrow> usize" where
  "bp_available_pages a = bp_total_pages a - bp_used_pages a"

section \<open>Byte allocators\<close>

record Layout =
  lay_size :: usize
  lay_align :: usize

text \<open>The traits \<open>BaseAllocator\<close> and \<open>ByteAllocator\<close>; \<open>None\<close> is a panic.\<close>

record 'h ByteAllocator =
  by_init :: "usize \<Rightarrow> usize \<Rightarrow> 'h \<Rightarrow> 'h option"
  by_add_memory :: "usize \<Rightarrow> usize \<Rightarrow> 'h \<Rightarrow> (unit, AllocError) outcome \<times> 'h"
  by_alloc :: "Layout \<Rightarrow> 'h \<Rightarrow> (usize, AllocError) outcome \<times> 'h"
  by_dealloc :: "usize \<Rightarrow> Layout \<Rightarrow> 'h \<Rightarrow> 'h option"
  by_total_bytes :: "'h \<Rightarrow> usize"
  by_used_bytes :: "'h \<Rightarrow> usize"
  by_available_bytes :: "'h \<Rightarrow> usize"

section \<open>The interface of the bitmap\<close>

locale bit_allocator =
  fixes B :: "'b bit_alloc_ops" and bits :: "'b \<Rightarrow> nat set" and cap :: nat
  assumes default_bits: "bits (ba_default B) = {}"
    and finite_bits: "finite (bits b)"
    and insert_bits: "s \<le> e \<Longrightarrow> e \<le> cap \<Longrightarrow> bits (ba_insert B s e b) = bits b \<union> {s..<e}"
    and alloc_Some: "ba_alloc B b = (Some i, b') \<Longrightarrow> i \<in> bits b \<and> bits b' = bits b - {i}"
    and alloc_None: "ba_alloc B b = (None, b') \<Longrightarrow> bits b = {} \<and> bits b' = {}"
    and contiguous_Some: "ba_alloc_contiguous B n lg b = (Some i, b') \<Longrightarrow>
      {i..<i + n} \<subseteq> bits b \<and> 2 ^ lg dvd i \<and> bits b' = bits b - {i..<i + n}"
    and contiguous_None: "n > 0 \<Longrightarrow> ba_alloc_contiguous B n lg b = (None, b') \<Longrightarrow>
      bits b' = bits b \<and> (\<forall>i. 2 ^ lg dvd i \<longrightarrow> \<not> {i..<i + n} \<subseteq> bits b)"
    and dealloc_bits: "i < cap \<Longrightarrow> i \<notin> bits b \<Longrightarrow> bits (ba_dealloc B i b) = insert i (bits b)"

text \<open>A list of the available bits.\<close>

definition run_free :: "nat list \<Rightarrow> nat \<Rightarrow> nat \<Rightarrow> nat \<Rightarrow> bool" where
  "run_free b n lg i \<longleftrightarrow> i mod 2 ^ lg = 0 \<and> list_all (\<lambda>j. j \<in> set b) [i..<i + n]"

definition list_bits :: "nat list bit_alloc_ops" where
  "list_bits = \<lparr> ba_default = [],
    ba_insert = (\<lambda>s e b. [s..<e] @ b),
    ba_alloc = (\<lambda>b. case b of [] \<Rightarrow> (None, []) | i # is \<Rightarrow> (Some i, removeAll i is)),
    ba_alloc_contiguous = (\<lambda>n lg b. case find (run_free b n lg) (0 # b) of
        None \<Rightarrow> (None, b) | Some i \<Rightarrow> (Some i, filter (\<lambda>j. \<not> (i \<le> j \<and> j < i + n)) b)),
    ba_dealloc = (#) \<rparr>"

interpretation lb: bit_allocator list_bits set cap
proof
  fix n lg b b'
  assume a: "ba_alloc_contiguous list_bits n lg b = (None, b')"
  have none: "find (run_free b n lg) (0 # b) = None" and b': "b' = b"
    using a by (auto simp: list_bits_def simp del: find.simps split: option.splits)
  have "i \<in> set (0 # b)" if "{i..<i + n} \<subseteq> set b" "n \<noteq> 0" for i
    using subsetD [OF that(1), of i] that(2) by simp
  moreover have "run_free b n lg i" if "{i..<i + n} \<subseteq> set b" "2 ^ lg dvd i" for i
    using that by (auto simp: run_free_def list_all_iff)
  moreover have "run_free b 0 lg 0" by (simp add: run_free_def)
  ultimately show "set b' = set b \<and> (\<forall>i. 2 ^ lg dvd i \<longrightarrow> \<not> {i..<i + n} \<subseteq> set b)"
    using none b' unfolding find_None_iff by (cases "n = 0") (auto intro: exI [of _ 0])
next
  fix n lg b i b'
  assume "ba_alloc_contiguous list_bits n lg b = (Some i, b')"
  then have s: "find (run_free b n lg) (0 # b) = Some i" "b' = filter (\<lambda>j. \<not> (i \<le> j \<and> j < i + n)) b"
    by (auto simp: list_bits_def simp del: find.simps split: option.splits)
  have "run_free b n lg i" using s(1) by (auto simp: find_Some_iff simp del: find.simps)
  then show "{i..<i + n} \<subseteq> set b \<and> 2 ^ lg dvd i \<and> set b' = set b - {i..<i + n}"
    using s(2) by (auto simp: run_free_def list_all_iff)
qed (auto simp: list_bits_def split: list.splits)

section \<open>What the allocator does\<close>

lemma alloc_align_eq: "alloc_align_down = align_down" "alloc_align_up = align_up"
  by (simp_all add: fun_eq_iff alloc_align_down_def align_down_def alloc_align_up_def align_up_def)

lemma unat_of_nat_small: "n < 2 ^ 64 \<Longrightarrow> unat (of_nat n :: usize) = n"
  by (simp add: unsigned_of_nat take_bit_nat_eq_self)

lemma unat_add_small: "unat x + unat y < 2 ^ 64 \<Longrightarrow> unat (x + y :: usize) = unat x + unat y"
  by (simp add: unat_word_ariths)

text \<open>The invariant: the pages fit in the address space and only their bits are available.\<close>

definition bp_ok :: "('b \<Rightarrow> nat set) \<Rightarrow> nat \<Rightarrow> nat \<Rightarrow> 'b BitmapPageAllocator \<Rightarrow> bool" where
  "bp_ok bits cap k a \<longleftrightarrow> k < 64 \<and> 2 ^ k dvd unat (bp_base a) \<and>
    unat (bp_base a) + unat (bp_total_pages a) * 2 ^ k \<le> 2 ^ 64 \<and>
    unat (bp_total_pages a) \<le> cap \<and> bits (bp_inner a) \<subseteq> {..<unat (bp_total_pages a)}"

definition page_addr :: "nat \<Rightarrow> 'b BitmapPageAllocator \<Rightarrow> nat \<Rightarrow> usize" where
  "page_addr k a i = of_nat i * 2 ^ k + bp_base a"

text \<open>The addresses of the available pages.\<close>

definition free_pages :: "('b \<Rightarrow> nat set) \<Rightarrow> nat \<Rightarrow> 'b BitmapPageAllocator \<Rightarrow> usize set" where
  "free_pages bits k a = page_addr k a ` bits (bp_inner a)"

lemma page_addr_bounds:
  assumes "bp_ok bits cap k a" "i < unat (bp_total_pages a)"
  shows "unat (page_addr k a i) = unat (bp_base a) + i * 2 ^ k" "unat (of_nat i * 2 ^ k :: usize) = i * 2 ^ k"
    "unat (bp_base a) + (i + 1) * 2 ^ k \<le> 2 ^ 64"
proof -
  have "(i + 1) * 2 ^ k \<le> unat (bp_total_pages a) * 2 ^ k" using assms(2) by (intro mult_le_mono1) simp
  then show b: "unat (bp_base a) + (i + 1) * 2 ^ k \<le> 2 ^ 64" using assms(1) by (simp add: bp_ok_def)
  have "i * 2 ^ k < (i + 1) * 2 ^ k" by simp
  then have lt: "unat (bp_base a) + i * 2 ^ k < 2 ^ 64" using b by linarith
  then show u: "unat (of_nat i * 2 ^ k :: usize) = i * 2 ^ k"
    using unat_of_nat_small [of "i * 2 ^ k"] by simp
  have "unat (of_nat i * 2 ^ k + bp_base a) = i * 2 ^ k + unat (bp_base a)"
    using unat_add_small [of "of_nat i * 2 ^ k" "bp_base a"] u lt by simp
  then show "unat (page_addr k a i) = unat (bp_base a) + i * 2 ^ k" by (simp add: page_addr_def)
qed

lemma page_addr_inj:
  assumes "bp_ok bits cap k a" "i < unat (bp_total_pages a)" "j < unat (bp_total_pages a)" "page_addr k a i = page_addr k a j"
  shows "i = j"
proof -
  have "unat (bp_base a) + i * 2 ^ k = unat (bp_base a) + j * 2 ^ k"
    by (metis page_addr_bounds(1) [OF assms(1,2)] page_addr_bounds(1) [OF assms(1,3)] assms(4))
  then show ?thesis by simp
qed

lemma page_addr_index:
  assumes "bp_ok bits cap k a" "i < unat (bp_total_pages a)"
  shows "unat ((page_addr k a i - bp_base a) div 2 ^ k) = i"
proof -
  have "k < 64" using assms(1) by (simp add: bp_ok_def)
  then have "unat (2 ^ k :: usize) = 2 ^ k" by (simp add: unat_exp_word)
  then show ?thesis using page_addr_bounds(2) [OF assms] by (simp add: page_addr_def unat_div)
qed

context bit_allocator
begin

lemma alloc_pages_spec:
  assumes ok: "bp_ok bits cap k a" and al: "bp_alloc_pages B (2 ^ k) n align a = (r, a')"
  shows "bp_ok bits cap k a' \<and> bp_base a' = bp_base a \<and> bp_total_pages a' = bp_total_pages a \<and>
    (case r of
       Ok p \<Rightarrow> \<exists>i. n \<noteq> 0 \<and> p = page_addr k a i \<and> {i..<i + unat n} \<subseteq> bits (bp_inner a) \<and>
         bits (bp_inner a') = bits (bp_inner a) - {i..<i + unat n} \<and> bp_used_pages a' = bp_used_pages a + n
     | Err e \<Rightarrow> bits (bp_inner a') = bits (bp_inner a) \<and> bp_used_pages a' = bp_used_pages a \<and>
         (e = AE_NoMemory \<longrightarrow> (\<forall>i. 2 ^ trailing_zeros (align div 2 ^ k) dvd i \<longrightarrow> \<not> {i..<i + unat n} \<subseteq> bits (bp_inner a)))
     | Panic \<Rightarrow> False)"
proof (cases "align mod 2 ^ k \<noteq> 0 \<or> \<not> is_power_of_two (align div 2 ^ k) \<or> n = 0")
  case True
  then show ?thesis using ok al by (auto simp: bp_alloc_pages_def Let_def split: if_splits)
next
  case False
  then have nz: "n \<noteq> 0" by simp
  let ?lg = "trailing_zeros (align div 2 ^ k)"
  obtain x b where t: "(if n = 1 then ba_alloc B (bp_inner a)
      else ba_alloc_contiguous B (unat n) ?lg (bp_inner a)) = (x, b)" by fastforce
  have res: "r = (case x of Some i \<Rightarrow> Ok (page_addr k a i) | None \<Rightarrow> Err AE_NoMemory)"
    "a' = (case x of Some i \<Rightarrow> a\<lparr> bp_used_pages := bp_used_pages a + n, bp_inner := b \<rparr> | None \<Rightarrow> a\<lparr> bp_inner := b \<rparr>)"
    using False al t by (auto simp: bp_alloc_pages_def Let_def page_addr_def split: if_splits option.splits)
  show ?thesis
  proof (cases x)
    case None
    have "bits b = bits (bp_inner a) \<and> (\<forall>i. 2 ^ ?lg dvd i \<longrightarrow> \<not> {i..<i + unat n} \<subseteq> bits (bp_inner a))"
    proof (cases "n = 1")
      case True
      then show ?thesis using alloc_None [of "bp_inner a" b] t None by simp
    next
      case False
      then show ?thesis using contiguous_None [of "unat n" ?lg "bp_inner a" b] t None nz by (simp add: unat_gt_0)
    qed
    then show ?thesis using None res ok by (simp add: bp_ok_def)
  next
    case (Some i)
    have "{i..<i + unat n} \<subseteq> bits (bp_inner a) \<and> bits b = bits (bp_inner a) - {i..<i + unat n}"
    proof (cases "n = 1")
      case True
      then show ?thesis using alloc_Some [of "bp_inner a" i b] t Some by auto
    next
      case n: False
      then show ?thesis using contiguous_Some [of "unat n" ?lg "bp_inner a" i b] t Some by simp
    qed
    then show ?thesis using Some res ok False by (auto simp: bp_ok_def)
  qed
qed

lemma dealloc_page_spec:
  assumes ok: "bp_ok bits cap k a" and i: "i < unat (bp_total_pages a)" "i \<notin> bits (bp_inner a)"
  shows "bp_ok bits cap k (bp_dealloc_pages B (2 ^ k) (page_addr k a i) n a)"
    "bits (bp_inner (bp_dealloc_pages B (2 ^ k) (page_addr k a i) n a)) = insert i (bits (bp_inner a))"
proof -
  have "i < cap" using ok i(1) by (simp add: bp_ok_def)
  then show "bits (bp_inner (bp_dealloc_pages B (2 ^ k) (page_addr k a i) n a)) = insert i (bits (bp_inner a))"
    using dealloc_bits [OF _ i(2)] page_addr_index [OF ok i(1)] by (simp add: bp_dealloc_pages_def)
  then show "bp_ok bits cap k (bp_dealloc_pages B (2 ^ k) (page_addr k a i) n a)"
    using ok i(1) by (simp add: bp_ok_def) (simp add: bp_dealloc_pages_def)
qed

lemma init_spec:
  assumes k: "k < 64" and fits: "unat start + unat sz < 2 ^ 64" "unat start + 2 ^ k \<le> 2 ^ 64" and sz: "2 ^ k \<le> unat sz"
    and cap: "unat sz \<le> cap * 2 ^ k" and empty: "bits (bp_inner a) = {}"
  shows "\<exists>a'. bp_init B (2 ^ k) start sz a = Some a' \<and> bp_ok bits cap k a' \<and> unat start \<le> unat (bp_base a') \<and>
    unat (bp_base a') + unat (bp_total_pages a') * 2 ^ k \<le> unat start + unat sz \<and>
    bits (bp_inner a') = {..<unat (bp_total_pages a')}"
proof -
  let ?e = "align_down (start + sz) (2 ^ k)" and ?s = "align_up start (2 ^ k)"
  define t where "t = (?e - ?s) div 2 ^ k"
  have end_eq: "unat (start + sz) = unat start + unat sz" using fits(1) by (rule unat_add_small)
  have s: "unat ?s = (unat start + 2 ^ k - 1) div 2 ^ k * 2 ^ k" using unat_align_up [OF k fits(2)] .
  have e: "unat ?e = (unat start + unat sz) div 2 ^ k * 2 ^ k"
    by (simp add: unat_align_down end_eq minus_mod_eq_div_mult)
  have "unat start + 2 ^ k - 1 \<le> unat start + unat sz" using sz by simp
  then have le: "unat ?s \<le> unat ?e" unfolding s e by (intro mult_le_mono1 div_le_mono)
  then have diff: "unat (?e - ?s) = unat ?e - unat ?s" by (simp add: unat_sub word_le_nat_alt)
  have t: "unat t * 2 ^ k = unat ?e - unat ?s"
    unfolding t_def using k by (simp add: unat_div unat_exp_word diff) (simp add: s e flip: diff_mult_distrib)
  have up: "unat start \<le> unat ?s" unfolding s using ceil_multiple_bounds(1) [of "2 ^ k" "unat start"] by simp
  have down: "unat ?e \<le> unat start + unat sz" unfolding e by simp
  have "unat t * 2 ^ k \<le> cap * 2 ^ k" using t up down cap by linarith
  then have "unat t \<le> cap" by simp
  moreover have "2 ^ k dvd unat ?s" unfolding s by simp
  moreover have "is_power_of_two (2 ^ k)" using k by (auto simp: is_power_of_two_iff)
  ultimately show ?thesis
    using t up down le fits(1) k empty insert_bits [of 0 "unat t" "bp_inner a"]
    by (auto simp: bp_init_def alloc_align_eq Let_def bp_ok_def lessThan_atLeast0 simp flip: t_def)
qed

end

text \<open>A page run as a set of addresses.\<close>

definition page_run :: "nat \<Rightarrow> usize \<Rightarrow> usize \<Rightarrow> usize set" where
  "page_run k p n = (\<lambda>j. p + of_nat j * 2 ^ k) ` {..<unat n}"

lemma page_run_image: "page_run k (page_addr k a i) n = page_addr k a ` {i..<i + unat n}"
proof -
  have "{i..<i + unat n} = (\<lambda>j. i + j) ` {..<unat n}" by (simp add: lessThan_atLeast0 add.commute)
  then show ?thesis by (simp add: page_run_def page_addr_def image_image algebra_simps)
qed

lemma free_pages_diff:
  assumes "bp_ok bits cap k a" "bp_base a' = bp_base a" "I \<subseteq> bits (bp_inner a)" "bits (bp_inner a') = bits (bp_inner a) - I"
  shows "free_pages bits k a' = free_pages bits k a - page_addr k a ` I"
proof -
  have "inj_on (page_addr k a) (bits (bp_inner a))"
    using assms(1) page_addr_inj [OF assms(1)] by (auto simp: inj_on_def bp_ok_def)
  then have "page_addr k a ` (bits (bp_inner a) - I) = page_addr k a ` bits (bp_inner a) - page_addr k a ` I"
    using assms(3) by (intro inj_on_image_set_diff) auto
  moreover have "page_addr k a' = page_addr k a" using assms(2) by (simp add: page_addr_def fun_eq_iff)
  ultimately show ?thesis by (simp add: free_pages_def assms(4))
qed

section \<open>Properties\<close>

text \<open>C35: Allocating pages never panics and keeps the allocator well formed. On success the pages from
  the returned address on were all free and exactly they stop being free, so no page is handed
  out twice, the address is a multiple of the page size and the count of used pages grows by the
  number of pages; on failure nothing changes, and memory is reported as exhausted only when no
  suitable run of free pages exists.\<close>

theorem page_alloc_exclusive:
  assumes "bit_allocator B bits cap" "bp_ok bits cap k a" "bp_alloc_pages B (2 ^ k) n align a = (r, a')"
  shows "bp_ok bits cap k a' \<and> (case r of
      Ok p \<Rightarrow> n \<noteq> 0 \<and> 2 ^ k dvd unat p \<and> page_run k p n \<subseteq> free_pages bits k a \<and>
        free_pages bits k a' = free_pages bits k a - page_run k p n \<and> bp_used_pages a' = bp_used_pages a + n
    | Err e \<Rightarrow> free_pages bits k a' = free_pages bits k a \<and> bp_used_pages a' = bp_used_pages a \<and>
        (e = AE_NoMemory \<longrightarrow> (\<forall>i. 2 ^ trailing_zeros (align div 2 ^ k) dvd i \<longrightarrow> \<not> {i..<i + unat n} \<subseteq> bits (bp_inner a)))
    | Panic \<Rightarrow> False)"
proof (cases r)
  case (Ok p)
  note s = bit_allocator.alloc_pages_spec [OF assms]
  obtain i where i: "n \<noteq> 0" "p = page_addr k a i" "{i..<i + unat n} \<subseteq> bits (bp_inner a)"
    "bits (bp_inner a') = bits (bp_inner a) - {i..<i + unat n}" "bp_used_pages a' = bp_used_pages a + n"
    using s Ok by auto
  have "i \<in> {i..<i + unat n}" using i(1) by (simp add: unat_gt_0)
  then have "i \<in> bits (bp_inner a)" using i(3) by (rule rev_subsetD)
  then have "i < unat (bp_total_pages a)" using assms(2) by (auto simp: bp_ok_def)
  then have "2 ^ k dvd unat p" using page_addr_bounds(1) [OF assms(2)] assms(2) i(2) by (simp add: bp_ok_def)
  moreover have "free_pages bits k a' = free_pages bits k a - page_run k p n"
    unfolding i(2) page_run_image using free_pages_diff [OF assms(2) _ i(3,4)] s by blast
  moreover have "page_run k p n \<subseteq> free_pages bits k a"
    unfolding i(2) page_run_image free_pages_def using i(3) by (rule image_mono)
  ultimately show ?thesis using s Ok i by simp
next
  case (Err e)
  then show ?thesis
    using bit_allocator.alloc_pages_spec [OF assms] by (auto simp: free_pages_def page_addr_def)
next
  case Panic
  then show ?thesis using bit_allocator.alloc_pages_spec [OF assms] by simp
qed

definition demo_pages :: "nat list BitmapPageAllocator" where
  "demo_pages = the (bp_init list_bits 0x1000 0x80000000 0x5000 (bp_new list_bits))"

lemma demo_pages_ok: "bp_ok set 1048576 12 demo_pages"
proof -
  have "\<exists>a'. bp_init list_bits (2 ^ 12) 0x80000000 0x5000 (bp_new list_bits) = Some a' \<and> bp_ok set 1048576 12 a'"
    using lb.init_spec [of 12 "0x80000000" "0x5000" 1048576 "bp_new list_bits"]
    by (auto simp: bp_new_def list_bits_def)
  then show ?thesis by (auto simp: demo_pages_def)
qed

theorem page_alloc_exclusive_witness:
  "fst (bp_alloc_pages list_bits 0x1000 3 0x1000 demo_pages) = Ok 0x80000000 \<and>
    free_pages set 12 (snd (bp_alloc_pages list_bits 0x1000 3 0x1000 demo_pages)) =
      free_pages set 12 demo_pages - page_run 12 0x80000000 3"
proof -
  have r: "fst (bp_alloc_pages list_bits 0x1000 3 0x1000 demo_pages) = Ok 0x80000000" by code_simp
  then have "bp_alloc_pages list_bits (2 ^ 12) 3 0x1000 demo_pages =
      (Ok 0x80000000, snd (bp_alloc_pages list_bits 0x1000 3 0x1000 demo_pages))"
    by (simp add: prod_eq_iff)
  from page_alloc_exclusive [OF lb.bit_allocator_axioms demo_pages_ok this] show ?thesis using r by simp
qed

text \<open>A request for one page ignores the alignment, and larger requests align the index of the page, not
  its address.\<close>

lemma alignment_ignored:
  "fst (bp_alloc_pages list_bits 0x1000 1 0x4000 (the (bp_init list_bits 0x1000 0x80001000 0x5000 (bp_new list_bits)))) = Ok 0x80001000"
  "fst (bp_alloc_pages list_bits 0x1000 2 0x4000 (the (bp_init list_bits 0x1000 0x80001000 0x5000 (bp_new list_bits)))) = Ok 0x80001000"
  by code_simp+

text \<open>Giving back several pages frees the first one only, although all are subtracted from the count.\<close>

lemma dealloc_leaks:
  "bp_inner (bp_dealloc_pages list_bits 0x1000 0x80000000 3 (snd (bp_alloc_pages list_bits 0x1000 3 0x1000 demo_pages))) = [0, 3, 4]"
  "bp_used_pages (bp_dealloc_pages list_bits 0x1000 0x80000000 3 (snd (bp_alloc_pages list_bits 0x1000 3 0x1000 demo_pages))) = 0"
  by code_simp+

end
