(* ===== verification/Global_Allocator.thy ===== *)
theory Global_Allocator
  imports Page_Allocator
begin

text \<open>
  The global allocator, \<open>src/modules/axalloc/src/lib.rs\<close> and \<open>page.rs\<close>: a byte allocator that is
  extended with pages of the page allocator when it runs out of memory. The byte allocator is any
  implementation of the trait \<open>ByteAllocator\<close> (slab, buddy or TLSF, chosen by a feature), given by its
  operations. The locks are left out.
\<close>

section \<open>The global allocator\<close>

definition AX_PAGE_SIZE :: usize where "AX_PAGE_SIZE = 0x1000"
definition MIN_HEAP_SIZE :: usize where "MIN_HEAP_SIZE = 0x8000"

record ('h, 'b) GlobalAllocator =
  ga_balloc :: 'h
  ga_palloc :: "'b BitmapPageAllocator"

text \<open>\<open>next_power_of_two\<close> of the core library: zero when the power does not fit.\<close>

definition next_power_of_two :: "usize \<Rightarrow> usize" where
  "next_power_of_two x = (case find (\<lambda>k. x \<le> 2 ^ k) [0..<64] of Some k \<Rightarrow> 2 ^ k | None \<Rightarrow> 0)"

definition ga_alloc_pages :: "'b bit_alloc_ops \<Rightarrow> usize \<Rightarrow> usize \<Rightarrow> ('h, 'b) GlobalAllocator \<Rightarrow>
    (usize, AllocError) outcome \<times> ('h, 'b) GlobalAllocator" where
  "ga_alloc_pages B num_pages align_pow2 g =
    (case bp_alloc_pages B AX_PAGE_SIZE num_pages align_pow2 (ga_palloc g) of (r, a) \<Rightarrow> (r, g\<lparr> ga_palloc := a \<rparr>))"

definition ga_dealloc_pages :: "'b bit_alloc_ops \<Rightarrow> usize \<Rightarrow> usize \<Rightarrow> ('h, 'b) GlobalAllocator \<Rightarrow> ('h, 'b) GlobalAllocator" where
  "ga_dealloc_pages B pos num_pages g =
    g\<lparr> ga_palloc := bp_dealloc_pages B AX_PAGE_SIZE pos num_pages (ga_palloc g) \<rparr>"

definition ga_init :: "'h ByteAllocator \<Rightarrow> 'b bit_alloc_ops \<Rightarrow> usize \<Rightarrow> usize \<Rightarrow> ('h, 'b) GlobalAllocator \<Rightarrow>
    ('h, 'b) GlobalAllocator option" where
  "ga_init H B start_vaddr sz g =
    (if sz > MIN_HEAP_SIZE then
       let init_heap_size = MIN_HEAP_SIZE in
       Option.bind (bp_init B AX_PAGE_SIZE start_vaddr sz (ga_palloc g)) (\<lambda>a.
         case ga_alloc_pages B (init_heap_size div AX_PAGE_SIZE) AX_PAGE_SIZE (g\<lparr> ga_palloc := a \<rparr>) of
           (Ok heap_ptr, g1) \<Rightarrow> map_option (\<lambda>h. g1\<lparr> ga_balloc := h \<rparr>) (by_init H heap_ptr init_heap_size (ga_balloc g1))
         | _ \<Rightarrow> None)
     else None)"

definition ga_add_memory :: "'h ByteAllocator \<Rightarrow> usize \<Rightarrow> usize \<Rightarrow> ('h, 'b) GlobalAllocator \<Rightarrow>
    (unit, AllocError) outcome \<times> ('h, 'b) GlobalAllocator" where
  "ga_add_memory H start_vaddr sz g =
    (case by_add_memory H start_vaddr sz (ga_balloc g) of (r, h) \<Rightarrow> (r, g\<lparr> ga_balloc := h \<rparr>))"

definition expand_size :: "'h ByteAllocator \<Rightarrow> Layout \<Rightarrow> 'h \<Rightarrow> usize" where
  "expand_size H layout h =
    (let old_size = by_total_bytes H h
     in max (next_power_of_two (max old_size (lay_size layout))) AX_PAGE_SIZE)"

text \<open>The loop of \<open>alloc\<close>. It may run forever as far as its form goes.\<close>

partial_function (option) ga_alloc :: "'h ByteAllocator \<Rightarrow> 'b bit_alloc_ops \<Rightarrow> Layout \<Rightarrow> ('h, 'b) GlobalAllocator \<Rightarrow>
    ((usize, AllocError) outcome \<times> ('h, 'b) GlobalAllocator) option" where
  "ga_alloc H B layout g =
    (case by_alloc H layout (ga_balloc g) of
       (Ok ptr, h) \<Rightarrow> Some (Ok ptr, g\<lparr> ga_balloc := h \<rparr>)
     | (Panic, h) \<Rightarrow> Some (Panic, g\<lparr> ga_balloc := h \<rparr>)
     | (Err _, h) \<Rightarrow>
         let sz = expand_size H layout h in
         (case ga_alloc_pages B (sz div AX_PAGE_SIZE) AX_PAGE_SIZE (g\<lparr> ga_balloc := h \<rparr>) of
            (Ok heap_ptr, g1) \<Rightarrow>
              (case ga_add_memory H heap_ptr sz g1 of
                 (Ok _, g2) \<Rightarrow> ga_alloc H B layout g2
               | (Err e, g2) \<Rightarrow> Some (Err e, g2)
               | (Panic, g2) \<Rightarrow> Some (Panic, g2))
          | (Err e, g1) \<Rightarrow> Some (Err e, g1)
          | (Panic, g1) \<Rightarrow> Some (Panic, g1)))"

definition ga_dealloc :: "'h ByteAllocator \<Rightarrow> usize \<Rightarrow> Layout \<Rightarrow> ('h, 'b) GlobalAllocator \<Rightarrow> ('h, 'b) GlobalAllocator option" where
  "ga_dealloc H pos layout g = map_option (\<lambda>h. g\<lparr> ga_balloc := h \<rparr>) (by_dealloc H pos layout (ga_balloc g))"

section \<open>Pages\<close>

record GlobalPage =
  gp_start_vaddr :: VirtAddr
  gp_num_pages :: usize

fun alloc_err_to_ax_err :: "AllocError \<Rightarrow> AxError" where
  "alloc_err_to_ax_err AE_InvalidParam = InvalidInput"
| "alloc_err_to_ax_err AE_MemoryOverlap = InvalidInput"
| "alloc_err_to_ax_err AE_NotAllocated = InvalidInput"
| "alloc_err_to_ax_err AE_NoMemory = NoMemory"

definition page_alloc_contiguous :: "'b bit_alloc_ops \<Rightarrow> usize \<Rightarrow> usize \<Rightarrow> ('h, 'b) GlobalAllocator \<Rightarrow>
    (GlobalPage, AxError) outcome \<times> ('h, 'b) GlobalAllocator" where
  "page_alloc_contiguous B num_pages align_pow2 g =
    (case ga_alloc_pages B num_pages align_pow2 g of
       (Ok vaddr, g1) \<Rightarrow> (Ok \<lparr> gp_start_vaddr = VirtAddr vaddr, gp_num_pages = num_pages \<rparr>, g1)
     | (Err e, g1) \<Rightarrow> (Err (alloc_err_to_ax_err e), g1)
     | (Panic, g1) \<Rightarrow> (Panic, g1))"

definition page_alloc :: "'b bit_alloc_ops \<Rightarrow> ('h, 'b) GlobalAllocator \<Rightarrow>
    (GlobalPage, AxError) outcome \<times> ('h, 'b) GlobalAllocator" where
  "page_alloc B g =
    (case ga_alloc_pages B 1 AX_PAGE_SIZE g of
       (Ok vaddr, g1) \<Rightarrow> (Ok \<lparr> gp_start_vaddr = VirtAddr vaddr, gp_num_pages = 1 \<rparr>, g1)
     | (Err e, g1) \<Rightarrow> (Err (alloc_err_to_ax_err e), g1)
     | (Panic, g1) \<Rightarrow> (Panic, g1))"

definition page_size_bytes :: "GlobalPage \<Rightarrow> usize" where
  "page_size_bytes p = gp_num_pages p * AX_PAGE_SIZE"

definition page_drop :: "'b bit_alloc_ops \<Rightarrow> GlobalPage \<Rightarrow> ('h, 'b) GlobalAllocator \<Rightarrow> ('h, 'b) GlobalAllocator" where
  "page_drop B p g = ga_dealloc_pages B (va_as_usize (gp_start_vaddr p)) (gp_num_pages p) g"

section \<open>Properties\<close>

lemma AX_PAGE_SIZE_exp: "AX_PAGE_SIZE = 2 ^ 12"
  by (simp add: AX_PAGE_SIZE_def)

lemma expand_pages: "expand_size H layout h div AX_PAGE_SIZE \<noteq> 0"
proof -
  have le: "AX_PAGE_SIZE \<le> expand_size H layout h" by (simp add: expand_size_def Let_def)
  have "unat AX_PAGE_SIZE = 4096" by (simp add: AX_PAGE_SIZE_def)
  then have "unat (expand_size H layout h div AX_PAGE_SIZE) = unat (expand_size H layout h) div 4096"
    "4096 \<le> unat (expand_size H layout h)"
    using le by (simp_all add: unat_div word_le_nat_alt)
  then have "unat (expand_size H layout h div AX_PAGE_SIZE) \<noteq> 0" by simp
  then show ?thesis by auto
qed

context bit_allocator
begin

text \<open>Every turn of the loop takes at least one page.\<close>

lemma alloc_pages_uses:
  assumes "ga_alloc_pages B n al g = (Ok p, g')"
  shows "card (bits (bp_inner (ga_palloc g'))) < card (bits (bp_inner (ga_palloc g)))" "ga_balloc g' = ga_balloc g"
proof -
  let ?b = "bp_inner (ga_palloc g)"
  have n: "n \<noteq> 0" and g': "ga_balloc g' = ga_balloc g"
    using assms by (auto simp: ga_alloc_pages_def bp_alloc_pages_def Let_def split: if_splits prod.splits option.splits)
  obtain i b' lg where "(if n = 1 then ba_alloc B ?b else ba_alloc_contiguous B (unat n) lg ?b) = (Some i, b')"
    and b': "b' = bp_inner (ga_palloc g')"
    using assms by (auto simp: ga_alloc_pages_def bp_alloc_pages_def Let_def split: if_splits prod.splits option.splits)
  then have "i \<in> bits ?b \<and> bits b' \<subseteq> bits ?b - {i}"
    using alloc_Some [of ?b i b'] contiguous_Some [of "unat n" lg ?b i b'] n
    by (cases "n = 1") (auto simp: subset_iff unat_gt_0)
  then have "bits b' \<subset> bits ?b" by auto
  then show "card (bits (bp_inner (ga_palloc g'))) < card (bits ?b)"
    using psubset_card_mono [OF finite_bits] b' by simp
  show "ga_balloc g' = ga_balloc g" by (rule g')
qed

lemma alloc_pages_subset:
  assumes "ga_alloc_pages B n al g = (r, g')"
  shows "bits (bp_inner (ga_palloc g')) \<subseteq> bits (bp_inner (ga_palloc g))"
proof -
  let ?b = "bp_inner (ga_palloc g)"
  have "bits b' \<subseteq> bits ?b"
    if "(if n = 1 then ba_alloc B ?b else ba_alloc_contiguous B (unat n) lg ?b) = (x, b')" "n \<noteq> 0" for x b' lg
    using that alloc_Some [of ?b _ b'] alloc_None [of ?b b'] contiguous_Some [of "unat n" lg ?b _ b']
      contiguous_None [of "unat n" lg ?b b']
    by (cases "n = 1"; cases x) (auto simp: unat_gt_0)
  from this [of "trailing_zeros (al div AX_PAGE_SIZE)"] show ?thesis
    using assms by (fastforce simp: ga_alloc_pages_def bp_alloc_pages_def Let_def split: if_splits prod.splits option.splits)
qed

lemma ga_alloc_returns: "\<exists>r. ga_alloc H B layout g = Some r"
proof (induction "card (bits (bp_inner (ga_palloc g)))" arbitrary: g rule: less_induct)
  case less
  obtain r h where a: "by_alloc H layout (ga_balloc g) = (r, h)" by fastforce
  show ?case
  proof (cases r)
    case (Err e)
    let ?n = "expand_size H layout h div AX_PAGE_SIZE"
    obtain q g1 where p: "ga_alloc_pages B ?n AX_PAGE_SIZE (g\<lparr> ga_balloc := h \<rparr>) = (q, g1)" by fastforce
    show ?thesis
    proof (cases q)
      case (Ok ptr)
      obtain s g2 where m: "ga_add_memory H ptr (expand_size H layout h) g1 = (s, g2)" by fastforce
      have "ga_palloc g2 = ga_palloc g1" using m by (auto simp: ga_add_memory_def split: prod.splits)
      then have "card (bits (bp_inner (ga_palloc g2))) < card (bits (bp_inner (ga_palloc g)))"
        using alloc_pages_uses(1) [OF p [unfolded Ok]] by simp
      from less [OF this] show ?thesis
        using a p m Err Ok by (subst ga_alloc.simps) (cases s; simp add: Let_def)
    qed (use a p Err in \<open>subst ga_alloc.simps, simp add: Let_def\<close>)+
  qed (use a in \<open>subst ga_alloc.simps, simp\<close>)+
qed

lemma ga_alloc_result:
  assumes "ga_alloc H B layout g = Some (r, g')"
  shows "bits (bp_inner (ga_palloc g')) \<subseteq> bits (bp_inner (ga_palloc g)) \<and>
    (\<forall>p. r = Ok p \<longrightarrow> (\<exists>h. by_alloc H layout h = (Ok p, ga_balloc g')))"
  using assms
proof (induction "card (bits (bp_inner (ga_palloc g)))" arbitrary: g rule: less_induct)
  case less
  obtain x h where a: "by_alloc H layout (ga_balloc g) = (x, h)" by fastforce
  show ?case
  proof (cases x)
    case (Err e)
    let ?n = "expand_size H layout h div AX_PAGE_SIZE"
    obtain q g1 where p: "ga_alloc_pages B ?n AX_PAGE_SIZE (g\<lparr> ga_balloc := h \<rparr>) = (q, g1)" by fastforce
    note sub = alloc_pages_subset [OF p]
    show ?thesis
    proof (cases q)
      case (Ok ptr)
      obtain s g2 where m: "ga_add_memory H ptr (expand_size H layout h) g1 = (s, g2)" by fastforce
      have g2: "ga_palloc g2 = ga_palloc g1" using m by (auto simp: ga_add_memory_def split: prod.splits)
      then have c: "card (bits (bp_inner (ga_palloc g2))) < card (bits (bp_inner (ga_palloc g)))"
        using alloc_pages_uses(1) [OF p [unfolded Ok]] by simp
      have "s = Ok () \<Longrightarrow> ga_alloc H B layout g2 = Some (r, g')" "s \<noteq> Ok () \<Longrightarrow> g' = g2 \<and> (\<forall>p. r \<noteq> Ok p)"
        using less.prems a p m Err Ok by (subst (asm) ga_alloc.simps, cases s, auto simp: Let_def)+
      then show ?thesis using less.hyps [OF c] sub g2 by (cases "s = Ok ()") auto
    qed (use less.prems a p Err sub in \<open>subst (asm) ga_alloc.simps, auto simp: Let_def\<close>)+
  qed (use less.prems a in \<open>subst (asm) ga_alloc.simps, auto\<close>)+
qed

end

text \<open>C36: The loop of the global allocator always ends, whatever byte allocator is used: it returns after
  at most as many extensions of the heap as there are free pages. It only ever takes pages
  from the page allocator, and an address it returns is one the byte allocator returned for the
  request.\<close>

theorem global_alloc_terminates:
  assumes "bit_allocator B bits cap"
  shows "\<exists>r g'. ga_alloc H B layout g = Some (r, g') \<and>
    bits (bp_inner (ga_palloc g')) \<subseteq> bits (bp_inner (ga_palloc g)) \<and>
    (\<forall>p. r = Ok p \<longrightarrow> (\<exists>h. by_alloc H layout h = (Ok p, ga_balloc g')))"
proof -
  obtain r g' where "ga_alloc H B layout g = Some (r, g')"
    using bit_allocator.ga_alloc_returns [OF assms, of H layout g] by auto
  then show ?thesis using bit_allocator.ga_alloc_result [OF assms] by blast
qed

text \<open>A byte allocator that counts its free bytes and needs the heap to be extended.\<close>

definition count_bytes :: "usize ByteAllocator" where
  "count_bytes = \<lparr> by_init = (\<lambda>s n h. Some n), by_add_memory = (\<lambda>s n h. (Ok (), h + n)),
    by_alloc = (\<lambda>l h. if lay_size l \<le> h then (Ok 0x80000000, h - lay_size l) else (Err AE_NoMemory, h)),
    by_dealloc = (\<lambda>p l h. Some (h + lay_size l)), by_total_bytes = (\<lambda>h. h), by_used_bytes = (\<lambda>_. 0),
    by_available_bytes = (\<lambda>h. h) \<rparr>"

theorem global_alloc_terminates_witness:
  "\<exists>r g'. ga_alloc count_bytes list_bits \<lparr> lay_size = 0x1800, lay_align = 8 \<rparr>
      \<lparr> ga_balloc = 0, ga_palloc = demo_pages \<rparr> = Some (r, g') \<and>
    set (bp_inner (ga_palloc g')) \<subseteq> {..<5}"
proof -
  have "set (bp_inner demo_pages) \<subseteq> {..<5}" by code_simp
  then show ?thesis
    using global_alloc_terminates [OF lb.bit_allocator_axioms, of count_bytes "\<lparr> lay_size = 0x1800, lay_align = 8 \<rparr>"
        "\<lparr> ga_balloc = 0, ga_palloc = demo_pages \<rparr>"]
    by auto
qed

end
