(* ===== verification/Kernel_Memory.thy ===== *)
theory Kernel_Memory
  imports Page_Table_Arch Global_Allocator
begin

text \<open>
  How the kernel uses page tables and allocators: the physical memory regions of
  \<open>src/modules/axhal/src/mem.rs\<close>, the frames of page tables taken from the global allocator in
  \<open>src/modules/axhal/src/paging.rs\<close>, and the set up of the heap and of the kernel page table in
  \<open>src/modules/axruntime/src/lib.rs\<close>. The offset of the linear mapping, the symbols of the linker and
  the memory map of the board are generated by the build and are parameters.
\<close>

section \<open>Memory regions\<close>

definition MR_READ :: usize where "MR_READ = 0x01"
definition MR_WRITE :: usize where "MR_WRITE = 0x02"
definition MR_EXECUTE :: usize where "MR_EXECUTE = 0x04"
definition MR_DEVICE :: usize where "MR_DEVICE = 0x10"
definition MR_UNCACHED :: usize where "MR_UNCACHED = 0x20"
definition MR_RESERVED :: usize where "MR_RESERVED = 0x40"
definition MR_FREE :: usize where "MR_FREE = 0x80"

record MemRegion =
  mr_paddr :: PhysAddr
  mr_size :: usize
  mr_flags :: usize

definition virt_to_phys :: "usize \<Rightarrow> VirtAddr \<Rightarrow> PhysAddr" where
  "virt_to_phys phys_virt_offset vaddr = PhysAddr (va_as_usize vaddr - phys_virt_offset)"

definition mem_phys_to_virt :: "usize \<Rightarrow> PhysAddr \<Rightarrow> VirtAddr" where
  "mem_phys_to_virt phys_virt_offset paddr = VirtAddr (pa_as_usize paddr + phys_virt_offset)"

text \<open>The bounds of the sections of the kernel image.\<close>

record kernel_image =
  ki_stext :: usize
  ki_etext :: usize
  ki_srodata :: usize
  ki_erodata :: usize
  ki_sdata :: usize
  ki_edata :: usize
  ki_boot_stack :: usize
  ki_boot_stack_top :: usize
  ki_sbss :: usize
  ki_ebss :: usize
  ki_ekernel :: usize

definition kernel_image_regions :: "usize \<Rightarrow> kernel_image \<Rightarrow> MemRegion list" where
  "kernel_image_regions off ki =
    [\<lparr> mr_paddr = virt_to_phys off (VirtAddr (ki_stext ki)), mr_size = ki_etext ki - ki_stext ki,
       mr_flags = MR_RESERVED OR MR_READ OR MR_EXECUTE \<rparr>,
     \<lparr> mr_paddr = virt_to_phys off (VirtAddr (ki_srodata ki)), mr_size = ki_erodata ki - ki_srodata ki,
       mr_flags = MR_RESERVED OR MR_READ \<rparr>,
     \<lparr> mr_paddr = virt_to_phys off (VirtAddr (ki_sdata ki)), mr_size = ki_edata ki - ki_sdata ki,
       mr_flags = MR_RESERVED OR MR_READ OR MR_WRITE \<rparr>,
     \<lparr> mr_paddr = virt_to_phys off (VirtAddr (ki_boot_stack ki)), mr_size = ki_boot_stack_top ki - ki_boot_stack ki,
       mr_flags = MR_RESERVED OR MR_READ OR MR_WRITE \<rparr>,
     \<lparr> mr_paddr = virt_to_phys off (VirtAddr (ki_sbss ki)), mr_size = ki_ebss ki - ki_sbss ki,
       mr_flags = MR_RESERVED OR MR_READ OR MR_WRITE \<rparr>]"

definition default_mmio_regions :: "(usize \<times> usize) list \<Rightarrow> MemRegion list" where
  "default_mmio_regions mmio = map (\<lambda>reg. \<lparr> mr_paddr = PhysAddr (fst reg), mr_size = snd reg,
     mr_flags = MR_RESERVED OR MR_DEVICE OR MR_READ OR MR_WRITE \<rparr>) mmio"

definition default_free_regions :: "usize \<Rightarrow> kernel_image \<Rightarrow> usize \<Rightarrow> MemRegion list" where
  "default_free_regions off ki phys_memory_end =
    (let s = pa_align_up_4k (virt_to_phys off (VirtAddr (ki_ekernel ki)));
         e = pa_align_down_4k (PhysAddr phys_memory_end)
     in [\<lparr> mr_paddr = s, mr_size = pa_as_usize e - pa_as_usize s, mr_flags = MR_FREE OR MR_READ OR MR_WRITE \<rparr>])"

definition memory_regions :: "usize \<Rightarrow> kernel_image \<Rightarrow> MemRegion list \<Rightarrow> MemRegion list" where
  "memory_regions off ki platform_regions = kernel_image_regions off ki @ platform_regions"

text \<open>The conversion of region flags to mapping flags.\<close>

definition mapping_flags_from :: "usize \<Rightarrow> MappingFlags" where
  "mapping_flags_from f =
    (let ret = 0;
         ret = (if contains f MR_READ then ret OR MF_READ else ret);
         ret = (if contains f MR_WRITE then ret OR MF_WRITE else ret);
         ret = (if contains f MR_EXECUTE then ret OR MF_EXECUTE else ret);
         ret = (if contains f MR_DEVICE then ret OR MF_DEVICE else ret)
     in if contains f MR_UNCACHED then ret OR MF_UNCACHED else ret)"

section \<open>Frames of page tables\<close>

definition PagingIfImpl :: "usize \<Rightarrow> 'b bit_alloc_ops \<Rightarrow> ('h, 'b) GlobalAllocator PagingIf" where
  "PagingIfImpl off B = \<lparr>
    alloc_frame = (\<lambda>g. case ga_alloc_pages B 1 PAGE_SIZE_4K g of
        (Ok vaddr, g1) \<Rightarrow> (Some (virt_to_phys off (VirtAddr vaddr)), g1)
      | (_, g1) \<Rightarrow> (None, g1)),
    dealloc_frame = (\<lambda>paddr. ga_dealloc_pages B (va_as_usize (mem_phys_to_virt off paddr)) 1),
    phys_to_virt = mem_phys_to_virt off \<rparr>"

section \<open>Set up of heap and kernel page table\<close>

definition max_free_region :: "MemRegion list \<Rightarrow> usize \<times> PhysAddr" where
  "max_free_region rs = fold (\<lambda>r (max_region_size, max_region_paddr).
     if contains (mr_flags r) MR_FREE \<and> mr_size r > max_region_size then (mr_size r, mr_paddr r)
     else (max_region_size, max_region_paddr)) rs (0, PhysAddr 0)"

text \<open>\<open>None\<close> is a panic: a failed assertion of the allocators or a region that cannot be added.\<close>

fun add_free_regions :: "'h ByteAllocator \<Rightarrow> usize \<Rightarrow> PhysAddr \<Rightarrow> MemRegion list \<Rightarrow> ('h, 'b) GlobalAllocator \<Rightarrow>
    ('h, 'b) GlobalAllocator option" where
  "add_free_regions H off max_paddr [] g = Some g"
| "add_free_regions H off max_paddr (r # rs) g =
    (if contains (mr_flags r) MR_FREE \<and> mr_paddr r \<noteq> max_paddr
     then (case ga_add_memory H (va_as_usize (mem_phys_to_virt off (mr_paddr r))) (mr_size r) g of
         (Ok _, g1) \<Rightarrow> add_free_regions H off max_paddr rs g1
       | _ \<Rightarrow> None)
     else add_free_regions H off max_paddr rs g)"

definition init_allocator :: "'h ByteAllocator \<Rightarrow> 'b bit_alloc_ops \<Rightarrow> usize \<Rightarrow> MemRegion list \<Rightarrow> ('h, 'b) GlobalAllocator \<Rightarrow>
    ('h, 'b) GlobalAllocator option" where
  "init_allocator H B off rs g =
    (let max_region_paddr = snd (max_free_region rs) in
     Option.bind (case find (\<lambda>r. contains (mr_flags r) MR_FREE \<and> mr_paddr r = max_region_paddr) rs of
         Some r \<Rightarrow> ga_init H B (va_as_usize (mem_phys_to_virt off (mr_paddr r))) (mr_size r) g
       | None \<Rightarrow> Some g)
     (add_free_regions H off max_region_paddr rs))"

fun map_regions :: "GenericPTE \<Rightarrow> PagingMetaData \<Rightarrow> 's PagingIf \<Rightarrow> usize \<Rightarrow> MemRegion list \<Rightarrow> PageTable64 \<Rightarrow> 's machine \<Rightarrow>
    (unit, 's) paging option" where
  "map_regions pte md pif off [] pt w = Some (Ok (), pt, w)"
| "map_regions pte md pif off (r # rs) pt w =
    (case map_region pte md pif (mem_phys_to_virt off (mr_paddr r)) (mr_paddr r) (mr_size r)
        (mapping_flags_from (mr_flags r)) True pt w of
       None \<Rightarrow> None
     | Some (Ok _, pt1, w1) \<Rightarrow> map_regions pte md pif off rs pt1 w1
     | Some (Err e, pt1, w1) \<Rightarrow> Some (Err e, pt1, w1)
     | Some (Panic, pt1, w1) \<Rightarrow> Some (Panic, pt1, w1))"

text \<open>The boot processor builds the table; an error drops the table that was built so far.\<close>

definition remap_kernel_memory :: "GenericPTE \<Rightarrow> PagingMetaData \<Rightarrow> 's PagingIf \<Rightarrow> usize \<Rightarrow> MemRegion list \<Rightarrow> 's machine \<Rightarrow>
    ((PageTable64, PagingError) outcome \<times> 's machine) option" where
  "remap_kernel_memory pte md pif off rs w = (case try_new pif w of
     (Ok pt, w1) \<Rightarrow> (case map_regions pte md pif off rs pt w1 of
         None \<Rightarrow> None
       | Some (Ok _, pt2, w2) \<Rightarrow> Some (Ok pt2, w2)
       | Some (Err e, pt2, w2) \<Rightarrow> Some (Err e, pt_drop pif pt2 w2)
       | Some (Panic, pt2, w2) \<Rightarrow> Some (Panic, w2))
   | (Err e, w1) \<Rightarrow> Some (Err e, w1)
   | (Panic, w1) \<Rightarrow> Some (Panic, w1))"

section \<open>The global allocator provides frames\<close>

definition kmem_ok :: "('b \<Rightarrow> nat set) \<Rightarrow> nat \<Rightarrow> usize \<Rightarrow> nat \<Rightarrow> ('h, 'b) GlobalAllocator \<Rightarrow> bool" where
  "kmem_ok bits cap off lim g \<longleftrightarrow> bp_ok bits cap 12 (ga_palloc g) \<and> 4096 dvd unat off \<and>
    unat off \<le> unat (bp_base (ga_palloc g)) \<and>
    unat (bp_base (ga_palloc g)) - unat off + unat (bp_total_pages (ga_palloc g)) * 4096 \<le> 2 ^ lim \<and> lim < 64"

definition kmem_frame :: "usize \<Rightarrow> ('h, 'b) GlobalAllocator \<Rightarrow> nat \<Rightarrow> PhysAddr" where
  "kmem_frame off g i = virt_to_phys off (VirtAddr (page_addr 12 (ga_palloc g) i))"

text \<open>The frames in use.\<close>

definition kmem_live :: "('b \<Rightarrow> nat set) \<Rightarrow> usize \<Rightarrow> ('h, 'b) GlobalAllocator \<Rightarrow> PhysAddr set" where
  "kmem_live bits off g =
    kmem_frame off g ` ({..<unat (bp_total_pages (ga_palloc g))} - bits (bp_inner (ga_palloc g)))"

lemma kmem_frame_inj:
  assumes "kmem_ok bits cap off lim g" "i < unat (bp_total_pages (ga_palloc g))" "j < unat (bp_total_pages (ga_palloc g))"
    "kmem_frame off g i = kmem_frame off g j"
  shows "i = j"
  using assms page_addr_inj [of bits cap 12 "ga_palloc g" i j] by (simp add: kmem_ok_def kmem_frame_def virt_to_phys_def)

lemma kmem_frame_bounds:
  assumes "kmem_ok bits cap off lim g" "i < unat (bp_total_pages (ga_palloc g))"
  shows "frame_paddr lim (kmem_frame off g i)"
proof -
  let ?a = "ga_palloc g"
  have ok: "bp_ok bits cap 12 ?a" using assms(1) by (simp add: kmem_ok_def)
  have u: "unat (page_addr 12 ?a i) = unat (bp_base ?a) + i * 4096" using page_addr_bounds(1) [OF ok assms(2)] by simp
  then have "off \<le> page_addr 12 ?a i" using assms(1) by (simp add: kmem_ok_def word_le_nat_alt)
  then have p: "unat (page_addr 12 ?a i - off) = unat (bp_base ?a) - unat off + i * 4096"
    using u assms(1) by (simp add: unat_sub kmem_ok_def)
  have "4096 dvd unat (bp_base ?a)" "4096 dvd unat off" using ok assms(1) by (simp_all add: bp_ok_def kmem_ok_def)
  then have "4096 dvd unat (page_addr 12 ?a i - off)" unfolding p by (intro dvd_add dvd_diff_nat) simp_all
  then have "is_aligned (page_addr 12 ?a i - off) (2 ^ 12)" by (simp only: is_aligned_iff_dvd) simp
  moreover have "i * 4096 < unat (bp_total_pages ?a) * 4096" using assms(2) by simp
  then have "unat (page_addr 12 ?a i - off) < 2 ^ lim" unfolding p using assms(1) unfolding kmem_ok_def by linarith
  then have "page_addr 12 ?a i - off < 2 ^ lim"
    using assms(1) by (simp add: word_less_nat_alt unat_exp_word kmem_ok_def)
  ultimately show ?thesis
    by (simp add: frame_paddr_def kmem_frame_def virt_to_phys_def pa_is_aligned_4k_def pa_is_aligned_def PAGE_SIZE_4K_exp)
qed


text \<open>The state after one page was taken or given back.\<close>

lemma kmem_update:
  assumes ok: "kmem_ok bits cap off lim g" and g': "bp_ok bits cap 12 (ga_palloc g')"
    "bp_base (ga_palloc g') = bp_base (ga_palloc g)" "bp_total_pages (ga_palloc g') = bp_total_pages (ga_palloc g)"
    and i: "i < unat (bp_total_pages (ga_palloc g))"
  shows "kmem_ok bits cap off lim g'"
    "bits (bp_inner (ga_palloc g')) = bits (bp_inner (ga_palloc g)) - {i} \<Longrightarrow>
      kmem_live bits off g' = insert (kmem_frame off g i) (kmem_live bits off g)"
    "bits (bp_inner (ga_palloc g')) = insert i (bits (bp_inner (ga_palloc g))) \<Longrightarrow>
      kmem_live bits off g' = kmem_live bits off g - {kmem_frame off g i}"
proof -
  let ?T = "{..<unat (bp_total_pages (ga_palloc g))}" and ?b = "bits (bp_inner (ga_palloc g))"
  show "kmem_ok bits cap off lim g'" using ok g'(1) unfolding kmem_ok_def g'(2,3) by blast
  have f: "kmem_frame off g' = kmem_frame off g" using g'(2) by (simp add: fun_eq_iff kmem_frame_def page_addr_def)
  show "kmem_live bits off g' = insert (kmem_frame off g i) (kmem_live bits off g)"
    if "bits (bp_inner (ga_palloc g')) = ?b - {i}"
  proof -
    have "?T - (?b - {i}) = insert i (?T - ?b)" using i by auto
    then show ?thesis by (simp add: kmem_live_def f g'(3) that)
  qed
  show "kmem_live bits off g' = kmem_live bits off g - {kmem_frame off g i}"
    if "bits (bp_inner (ga_palloc g')) = insert i ?b"
  proof -
    have inj: "inj_on (kmem_frame off g) ?T" using kmem_frame_inj [OF ok] by (auto simp: inj_on_def)
    have "?T - insert i ?b = (?T - ?b) - {i}" by auto
    then have "kmem_live bits off g' = kmem_frame off g ` ((?T - ?b) - {i})" by (simp add: kmem_live_def f g'(3) that)
    also have "\<dots> = kmem_frame off g ` (?T - ?b) - kmem_frame off g ` {i}"
      using i by (intro inj_on_image_set_diff [OF inj]) auto
    finally show ?thesis by (simp add: kmem_live_def)
  qed
qed

context bit_allocator
begin

lemma kernel_alloc_frame:
  assumes ok: "kmem_ok bits cap off lim g" and al: "alloc_frame (PagingIfImpl off B) g = (r, g')"
  shows "case r of
      Some p \<Rightarrow> \<exists>i. i \<in> bits (bp_inner (ga_palloc g)) \<and> p = kmem_frame off g i \<and> kmem_ok bits cap off lim g' \<and>
        kmem_live bits off g' = insert p (kmem_live bits off g)
    | None \<Rightarrow> kmem_ok bits cap off lim g' \<and> kmem_live bits off g' = kmem_live bits off g"
proof -
  let ?a = "ga_palloc g"
  have bp: "bp_ok bits cap 12 ?a" using ok by (simp add: kmem_ok_def)
  obtain x a' where x: "bp_alloc_pages B (2 ^ 12) 1 PAGE_SIZE_4K ?a = (x, a')" by fastforce
  have sz: "AX_PAGE_SIZE = 2 ^ 12" by (simp add: AX_PAGE_SIZE_exp)
  have r: "r = (case x of Ok v \<Rightarrow> Some (virt_to_phys off (VirtAddr v)) | _ \<Rightarrow> None)" "g' = g\<lparr> ga_palloc := a' \<rparr>"
    using al x by (auto simp: PagingIfImpl_def ga_alloc_pages_def sz split: outcome.splits)
  note s = alloc_pages_spec [OF bp x]
  show ?thesis
  proof (cases x)
    case (Ok v)
    then obtain i where i: "v = page_addr 12 ?a i" "i \<in> bits (bp_inner ?a)" "bits (bp_inner a') = bits (bp_inner ?a) - {i}"
      using s by auto
    have "i < unat (bp_total_pages ?a)" using bp i(2) by (auto simp: bp_ok_def)
    then show ?thesis
      using kmem_update(1,2) [OF ok, of g' i] s i r Ok by (auto simp: kmem_frame_def)
  next
    case (Err e)
    then show ?thesis
      using s ok r by (auto simp: kmem_ok_def kmem_live_def kmem_frame_def page_addr_def)
  next
    case Panic
    then show ?thesis using s by simp
  qed
qed

lemma kernel_frame_allocator:
  "frame_allocator (PagingIfImpl off B) lim (kmem_ok bits cap off lim) (kmem_live bits off :: ('h, 'b) GlobalAllocator \<Rightarrow> _)"
proof
  fix g g' :: "('h, 'b) GlobalAllocator" and p
  assume ok: "kmem_ok bits cap off lim g"
  {
    assume "alloc_frame (PagingIfImpl off B) g = (Some p, g')"
    from kernel_alloc_frame [OF ok this] obtain i where i: "i \<in> bits (bp_inner (ga_palloc g))" "p = kmem_frame off g i"
      "kmem_ok bits cap off lim g'" "kmem_live bits off g' = insert p (kmem_live bits off g)" by auto
    have "i < unat (bp_total_pages (ga_palloc g))" using ok i(1) by (auto simp: kmem_ok_def bp_ok_def)
    then have "p \<notin> kmem_live bits off g" using kmem_frame_inj [OF ok, of i] i(1,2) by (auto simp: kmem_live_def)
    then show "kmem_ok bits cap off lim g' \<and> p \<notin> kmem_live bits off g \<and> kmem_live bits off g' = insert p (kmem_live bits off g)"
      using i by simp
  next
    assume "alloc_frame (PagingIfImpl off B) g = (None, g')"
    from kernel_alloc_frame [OF ok this] show "kmem_ok bits cap off lim g' \<and> kmem_live bits off g' = kmem_live bits off g" by simp
  next
    assume "p \<in> kmem_live bits off g"
    then obtain i where i: "p = kmem_frame off g i" "i < unat (bp_total_pages (ga_palloc g))" "i \<notin> bits (bp_inner (ga_palloc g))"
      by (auto simp: kmem_live_def)
    have bp: "bp_ok bits cap 12 (ga_palloc g)" using ok by (simp add: kmem_ok_def)
    have "dealloc_frame (PagingIfImpl off B) p g = g\<lparr> ga_palloc := bp_dealloc_pages B (2 ^ 12) (page_addr 12 (ga_palloc g) i) 1 (ga_palloc g) \<rparr>"
      by (simp add: PagingIfImpl_def ga_dealloc_pages_def i(1) kmem_frame_def virt_to_phys_def mem_phys_to_virt_def AX_PAGE_SIZE_exp)
    then show "kmem_ok bits cap off lim (dealloc_frame (PagingIfImpl off B) p g) \<and>
        kmem_live bits off (dealloc_frame (PagingIfImpl off B) p g) = kmem_live bits off g - {p}"
      using kmem_update(1,3) [OF ok, of "dealloc_frame (PagingIfImpl off B) p g" i] dealloc_page_spec [OF bp i(2,3), of 1] i(1,2)
      by (auto simp: bp_dealloc_pages_def)
  next
    assume "p \<in> kmem_live bits off g"
    then show "frame_paddr lim p" using kmem_frame_bounds [OF ok] by (auto simp: kmem_live_def)
  }
next
  show "\<exists>x. \<forall>p. va_as_usize (phys_to_virt (PagingIfImpl off B) p) = pa_as_usize p + x"
    by (auto simp: PagingIfImpl_def mem_phys_to_virt_def)
qed

end

section \<open>The kernel page table\<close>

definition region_fits :: "nat \<Rightarrow> MemRegion \<Rightarrow> bool" where
  "region_fits lim r \<longleftrightarrow> contains (mr_flags r) MR_READ \<and> unat (pa_as_usize (mr_paddr r)) + unat (mr_size r) \<le> 2 ^ lim"

text \<open>The regions are mapped at their offset in the linear mapping.\<close>

definition region_mapped :: "GenericPTE \<Rightarrow> PagingMetaData \<Rightarrow> (MappingFlags \<Rightarrow> MappingFlags) \<Rightarrow> 's PagingIf \<Rightarrow> usize \<Rightarrow>
    PageTable64 \<Rightarrow> 's machine \<Rightarrow> MemRegion \<Rightarrow> bool" where
  "region_mapped pte md stored pif off pt w r \<longleftrightarrow> (\<forall>x < mr_size r. \<exists>s.
    pt_query pte md pif (mem_phys_to_virt off (pa_add (mr_paddr r) x)) pt w =
      Ok (pa_add (mr_paddr r) x, stored (mapping_flags_from (mr_flags r)), s))"

lemma mapping_flags_read: "contains f MR_READ \<Longrightarrow> contains (mapping_flags_from f) MF_READ"
proof -
  have "contains MF_READ MF_READ" "contains x MF_READ \<Longrightarrow> contains (x OR y) MF_READ" for x y
    by (auto simp: contains_def bit_eq_iff bit_simps)
  then show "contains f MR_READ \<Longrightarrow> contains (mapping_flags_from f) MF_READ"
    by (simp add: mapping_flags_from_def Let_def)
qed

lemma linear_add: "mem_phys_to_virt off (pa_add p x) = va_add (mem_phys_to_virt off p) x"
  by (simp add: mem_phys_to_virt_def pa_add_def va_add_def)

context page_table
begin

lemma map_regions_result:
  assumes "pt_ok pt w" "\<forall>r\<in>set rs. region_fits (PA_MAX_BITS md) r"
  shows "\<exists>res pt' w'. map_regions pte md pif off rs pt w = Some (res, pt', w') \<and> pt_ok pt' w' \<and> res \<noteq> Panic \<and>
    (\<forall>va x. query va pt w = Ok x \<longrightarrow> query va pt' w' = Ok x) \<and>
    (res = Ok () \<longrightarrow> (\<forall>r\<in>set rs. region_mapped pte md stored pif off pt' w' r))"
  using assms
proof (induction rs arbitrary: pt w)
  case (Cons r rs)
  let ?va = "mem_phys_to_virt off (mr_paddr r)" and ?f = "mapping_flags_from (mr_flags r)"
  have fits: "contains ?f MF_READ" "unat (pa_as_usize (mr_paddr r)) + unat (mr_size r) \<le> 2 ^ PA_MAX_BITS md"
    using Cons.prems(2) mapping_flags_read by (auto simp: region_fits_def)
  obtain q pt1 w1 where m: "map_region pte md pif ?va (mr_paddr r) (mr_size r) ?f True pt w = Some (q, pt1, w1)"
    "if is_aligned (va_as_usize ?va) 0x1000 \<and> is_aligned (pa_as_usize (mr_paddr r)) 0x1000 \<and> is_aligned (mr_size r) 0x1000
     then region_result ?va (mr_paddr r) (mr_size r) ?f pt w (q, pt1, w1) else (q, pt1, w1) = (Err NotAligned, pt, w)"
    using map_region_result [OF Cons.prems(1) fits, of ?va True] by (metis prod_cases3)
  have s: "pt_ok pt1 w1" "q \<noteq> Panic" "\<forall>va x. query va pt w = Ok x \<longrightarrow> query va pt1 w1 = Ok x"
    "q = Ok () \<Longrightarrow> region_mapped pte md stored pif off pt1 w1 r"
    using m(2) Cons.prems(1) by (auto simp: region_result_def region_mapped_def linear_add split: if_splits)
  show ?case
  proof (cases q)
    case (Ok u)
    obtain res pt' w' where *: "map_regions pte md pif off rs pt1 w1 = Some (res, pt', w')" "pt_ok pt' w'" "res \<noteq> Panic"
      "\<forall>va x. query va pt1 w1 = Ok x \<longrightarrow> query va pt' w' = Ok x"
      "res = Ok () \<longrightarrow> (\<forall>r\<in>set rs. region_mapped pte md stored pif off pt' w' r)"
      using Cons.IH [OF s(1)] Cons.prems(2) by auto
    have "region_mapped pte md stored pif off pt1 w1 r" using s(4) Ok by simp
    then have "region_mapped pte md stored pif off pt' w' r" using *(4) unfolding region_mapped_def by blast
    then show ?thesis using m(1) Ok * s(3) by simp
  qed (use m(1) s in \<open>auto\<close>)
qed simp

end

section \<open>Properties\<close>

text \<open>C39: Building the kernel page table always returns and never panics. On success every address of
  every memory region, seen through the linear mapping, translates to that physical address with
  the flags of the region, and the table is well formed over frames of the global allocator,
  which stays well formed in every case.\<close>

theorem kernel_memory_mapped:
  fixes w :: "('h, 'b) GlobalAllocator machine"
  assumes arch: "arch_ok a" and B: "bit_allocator B bits cap"
    and ok: "kmem_ok bits cap off (PA_MAX_BITS (arch_md a)) (frames w)"
    and rs: "\<forall>r\<in>set rs. region_fits (PA_MAX_BITS (arch_md a)) r"
  shows "\<exists>res w'. remap_kernel_memory (arch_pte a) (arch_md a) (PagingIfImpl off B) off rs w = Some (res, w') \<and> res \<noteq> Panic \<and>
    kmem_ok bits cap off (PA_MAX_BITS (arch_md a)) (frames w') \<and>
    (\<forall>pt. res = Ok pt \<longrightarrow>
      pt_inv (arch_pte a) (arch_md a) (PagingIfImpl off B) (kmem_ok bits cap off (PA_MAX_BITS (arch_md a))) (kmem_live bits off) pt w' \<and>
      (\<forall>r\<in>set rs. region_mapped (arch_pte a) (arch_md a) (arch_stored a) (PagingIfImpl off B) off pt w' r))"
proof -
  let ?pif = "PagingIfImpl off B :: ('h, 'b) GlobalAllocator PagingIf" and ?ok = "kmem_ok bits cap off (PA_MAX_BITS (arch_md a))"
  note fa = bit_allocator.kernel_frame_allocator [OF B, of off "PA_MAX_BITS (arch_md a)"]
  note pt = arch_page_table [OF arch fa]
  obtain x w1 where n: "try_new ?pif w = (x, w1)" by fastforce
  show ?thesis
  proof (cases x)
    case (Ok p)
    have inv: "pt_inv (arch_pte a) (arch_md a) ?pif ?ok (kmem_live bits off) p w1"
      using page_table.new_table_ok(1) [OF pt ok n [unfolded Ok]] .
    obtain res p' w' where m: "map_regions (arch_pte a) (arch_md a) ?pif off rs p w1 = Some (res, p', w')"
      "pt_inv (arch_pte a) (arch_md a) ?pif ?ok (kmem_live bits off) p' w'" "res \<noteq> Panic"
      "res = Ok () \<longrightarrow> (\<forall>r\<in>set rs. region_mapped (arch_pte a) (arch_md a) (arch_stored a) ?pif off p' w' r)"
      using page_table.map_regions_result [OF pt inv rs, of off] by blast
    have "?ok (frames w')" using m(2) by (simp add: pt_inv_def)
    moreover have "?ok (frames (pt_drop ?pif p' w'))" using page_table.drop_frames(1) [OF pt m(2)] .
    ultimately show ?thesis using n Ok m by (cases res) (auto simp: remap_kernel_memory_def)
  next
    case (Err e)
    then show ?thesis
      using n ok frame_allocator.alloc_none [OF fa ok] by (auto simp: remap_kernel_memory_def try_new_def alloc_table_def split: prod.splits option.splits outcome.splits)
  next
    case Panic
    then show ?thesis
      using n by (auto simp: try_new_def alloc_table_def split: prod.splits option.splits outcome.splits)
  qed
qed

text \<open>A RISC-V board with 32 KiB of memory for frames behind two regions.\<close>

abbreviation demo_off :: usize where "demo_off \<equiv> 0xFFFFFFC000000000"

definition demo_board :: "(unit, nat list) GlobalAllocator machine" where
  "demo_board = \<lparr> mem = (\<lambda>_. 0xDEAD),
    frames = \<lparr> ga_balloc = (),
      ga_palloc = the (bp_init list_bits 0x1000 0xFFFFFFC080400000 0x8000 (bp_new list_bits)) \<rparr> \<rparr>"

definition demo_regions :: "MemRegion list" where
  "demo_regions = [\<lparr> mr_paddr = PhysAddr 0x80200000, mr_size = 0x200000, mr_flags = MR_RESERVED OR MR_READ OR MR_EXECUTE \<rparr>,
    \<lparr> mr_paddr = PhysAddr 0x80400000, mr_size = 0x2000, mr_flags = MR_FREE OR MR_READ OR MR_WRITE \<rparr>]"

lemma demo_board_ok: "kmem_ok set 1048576 demo_off 56 (frames demo_board)"
proof -
  let ?a = "the (bp_init list_bits 0x1000 0xFFFFFFC080400000 0x8000 (bp_new list_bits))"
  have "bp_base ?a = 0xFFFFFFC080400000" "bp_total_pages ?a = 8" by code_simp+
  moreover have "\<exists>a'. bp_init list_bits (2 ^ 12) 0xFFFFFFC080400000 0x8000 (bp_new list_bits) = Some a' \<and> bp_ok set 1048576 12 a'"
    using lb.init_spec [of 12 "0xFFFFFFC080400000" "0x8000" 1048576 "bp_new list_bits"]
    by (auto simp: bp_new_def list_bits_def)
  then have "bp_ok set 1048576 12 ?a" by auto
  ultimately show ?thesis by (simp add: kmem_ok_def demo_board_def)
qed

interpretation kernel_pt: page_table Rv64PTE Sv39MetaData rv64_stored "PagingIfImpl demo_off list_bits"
  "kmem_ok set 1048576 demo_off 56 :: ('h, nat list) GlobalAllocator \<Rightarrow> bool" "kmem_live set demo_off"
  by (rule arch_page_table [where a = Sv39, unfolded demo_arch, OF demo_arch_ok lb.kernel_frame_allocator])

theorem kernel_memory_mapped_witness:
  "\<exists>pt w' s. remap_kernel_memory Rv64PTE Sv39MetaData (PagingIfImpl demo_off list_bits) demo_off demo_regions demo_board = Some (Ok pt, w') \<and>
    pt_query Rv64PTE Sv39MetaData (PagingIfImpl demo_off list_bits) (VirtAddr (0x80201234 + demo_off)) pt w' =
      Ok (PhysAddr 0x80201234, MF_READ OR MF_EXECUTE, s)"
proof -
  have ok: "map_option (\<lambda>(r, _). case r of Ok _ \<Rightarrow> True | _ \<Rightarrow> False)
      (remap_kernel_memory Rv64PTE Sv39MetaData (PagingIfImpl demo_off list_bits) demo_off demo_regions demo_board) = Some True"
    by code_simp
  then obtain res w' where r0: "remap_kernel_memory Rv64PTE Sv39MetaData (PagingIfImpl demo_off list_bits) demo_off demo_regions demo_board = Some (res, w')"
    by auto
  then obtain pt where r: "remap_kernel_memory Rv64PTE Sv39MetaData (PagingIfImpl demo_off list_bits) demo_off demo_regions demo_board = Some (Ok pt, w')"
    using ok by (cases res) auto
  have fits: "\<forall>r\<in>set demo_regions. region_fits 56 r"
    by (simp add: demo_regions_def region_fits_def contains_def MR_RESERVED_def MR_READ_def MR_EXECUTE_def MR_FREE_def MR_WRITE_def)
  let ?r = "hd demo_regions"
  have "region_mapped Rv64PTE Sv39MetaData rv64_stored (PagingIfImpl demo_off list_bits) demo_off pt w' ?r"
    using kernel_memory_mapped [where a = Sv39, unfolded demo_arch, OF demo_arch_ok lb.bit_allocator_axioms demo_board_ok fits] r
    by (auto simp: demo_regions_def)
  moreover have "0x1234 < mr_size ?r" "mem_phys_to_virt demo_off (pa_add (mr_paddr ?r) 0x1234) = VirtAddr (0x80201234 + demo_off)"
    "pa_add (mr_paddr ?r) 0x1234 = PhysAddr 0x80201234" "rv64_stored (mapping_flags_from (mr_flags ?r)) = MF_READ OR MF_EXECUTE"
    by code_simp+
  ultimately show ?thesis using r unfolding region_mapped_def by metis
qed

end
