(* ===== verification/Slab_Allocator.thy ===== *)
theory Slab_Allocator
  imports Page_Allocator
begin

text \<open>
  The slab allocator, \<open>src/crates/slab_allocator/src/slab.rs\<close> and \<open>lib.rs\<close>. The free blocks of a
  slab form a linked list whose links are stored in the blocks themselves, so the links are a store
  from addresses to the address of the next block. Large requests and the memory of the slabs come
  from the package \<open>buddy_system_allocator\<close>, a parameter; the locale \<open>buddy_heap\<close> states what its
  documentation promises. Addresses and sizes are natural numbers: the buddy allocator hands out
  memory inside the address space, so no sum of the code wraps around.
\<close>

section \<open>Lists of free blocks\<close>

type_synonym blocks = "nat \<Rightarrow> nat option"

record FreeBlockList =
  fl_len :: nat
  fl_head :: "nat option"

definition fl_new_empty :: FreeBlockList where
  "fl_new_empty = \<lparr> fl_len = 0, fl_head = None \<rparr>"

definition fl_pop :: "FreeBlockList \<times> blocks \<Rightarrow> nat option \<times> FreeBlockList \<times> blocks" where
  "fl_pop s = (case s of (l, m) \<Rightarrow> (case fl_head l of
     None \<Rightarrow> (None, l, m)
   | Some node \<Rightarrow> (Some node, l\<lparr> fl_head := m node, fl_len := fl_len l - 1 \<rparr>, m(node := None))))"

definition fl_push :: "nat \<Rightarrow> FreeBlockList \<times> blocks \<Rightarrow> FreeBlockList \<times> blocks" where
  "fl_push free_block s = (case s of (l, m) \<Rightarrow>
     (l\<lparr> fl_len := fl_len l + 1, fl_head := Some free_block \<rparr>, m(free_block := fl_head l)))"

definition fl_new :: "nat \<Rightarrow> nat \<Rightarrow> nat \<Rightarrow> blocks \<Rightarrow> FreeBlockList \<times> blocks" where
  "fl_new start_addr block_size num_of_blocks m =
    fold (\<lambda>i. fl_push (start_addr + i * block_size)) (rev [0..<num_of_blocks]) (fl_new_empty, m)"

section \<open>Slabs\<close>

definition SET_SIZE :: nat where "SET_SIZE = 64"

record Slab =
  sl_free :: FreeBlockList
  sl_total_blocks :: nat

definition slab_new :: "nat \<Rightarrow> nat \<Rightarrow> nat \<Rightarrow> blocks \<Rightarrow> Slab \<times> blocks" where
  "slab_new blk start_addr slab_size m =
    (let num_of_blocks = slab_size div blk in
     case fl_new start_addr blk num_of_blocks m of (l, m1) \<Rightarrow>
       (\<lparr> sl_free = l, sl_total_blocks = num_of_blocks \<rparr>, m1))"

definition used_blocks :: "Slab \<Rightarrow> nat" where
  "used_blocks s = sl_total_blocks s - fl_len (sl_free s)"

text \<open>The loop of \<open>grow\<close>, which moves the blocks of one list to another.\<close>

partial_function (option) move_blocks :: "FreeBlockList \<Rightarrow> FreeBlockList \<Rightarrow> blocks \<Rightarrow> (FreeBlockList \<times> blocks) option" where
  "move_blocks block_list l m = (case fl_pop (block_list, m) of
     (None, _, m1) \<Rightarrow> Some (l, m1)
   | (Some block, block_list1, m1) \<Rightarrow> (case fl_push block (l, m1) of (l1, m2) \<Rightarrow> move_blocks block_list1 l1 m2))"

definition slab_grow :: "nat \<Rightarrow> nat \<Rightarrow> nat \<Rightarrow> Slab \<Rightarrow> blocks \<Rightarrow> (Slab \<times> blocks) option" where
  "slab_grow blk start_addr slab_size s m =
    (let num_of_blocks = slab_size div blk in
     case fl_new start_addr blk num_of_blocks m of (block_list, m1) \<Rightarrow>
       map_option (\<lambda>(l, m2). (\<lparr> sl_free = l, sl_total_blocks = sl_total_blocks s + num_of_blocks \<rparr>, m2))
         (move_blocks block_list (sl_free s) m1))"

record 'y buddy_ops =
  bd_new :: 'y
  bd_init :: "nat \<Rightarrow> nat \<Rightarrow> 'y \<Rightarrow> 'y"
  bd_add_to_heap :: "nat \<Rightarrow> nat \<Rightarrow> 'y \<Rightarrow> 'y"
  bd_alloc :: "nat \<Rightarrow> nat \<Rightarrow> 'y \<Rightarrow> nat option \<times> 'y"
  bd_dealloc :: "nat \<Rightarrow> nat \<Rightarrow> nat \<Rightarrow> 'y \<Rightarrow> 'y"
  bd_total_bytes :: "'y \<Rightarrow> nat"
  bd_alloc_actual :: "'y \<Rightarrow> nat"

text \<open>\<open>Err ()\<close> is \<open>AllocError\<close>; \<open>Panic\<close> is the failed \<open>unwrap\<close> or a loop of \<open>grow\<close> that does not
  end.\<close>

definition slab_allocate :: "'y buddy_ops \<Rightarrow> nat \<Rightarrow> Slab \<Rightarrow> 'y \<Rightarrow> blocks \<Rightarrow> (nat, unit) outcome \<times> Slab \<times> 'y \<times> blocks" where
  "slab_allocate Y blk s y m = (case fl_pop (sl_free s, m) of
     (Some block, l, m1) \<Rightarrow> (Ok block, s\<lparr> sl_free := l \<rparr>, y, m1)
   | (None, l, m1) \<Rightarrow> (case bd_alloc Y (SET_SIZE * blk) 4096 y of
       (Some ptr, y1) \<Rightarrow> (case slab_grow blk ptr (SET_SIZE * blk) (s\<lparr> sl_free := l \<rparr>) m1 of
           Some (s2, m2) \<Rightarrow> (case fl_pop (sl_free s2, m2) of
               (Some block, l3, m3) \<Rightarrow> (Ok block, s2\<lparr> sl_free := l3 \<rparr>, y1, m3)
             | (None, l3, m3) \<Rightarrow> (Panic, s2, y1, m3))
         | None \<Rightarrow> (Panic, s, y1, m1))
     | (None, y1) \<Rightarrow> (Err (), s\<lparr> sl_free := l \<rparr>, y1, m1)))"

definition slab_deallocate :: "nat \<Rightarrow> Slab \<Rightarrow> blocks \<Rightarrow> Slab \<times> blocks" where
  "slab_deallocate ptr s m = (case fl_push ptr (sl_free s, m) of (l, m1) \<Rightarrow> (s\<lparr> sl_free := l \<rparr>, m1))"

section \<open>The heap\<close>

datatype HeapAllocator = Slab64Bytes | Slab128Bytes | Slab256Bytes | Slab512Bytes | Slab1024Bytes
  | Slab2048Bytes | Slab4096Bytes | BuddyAllocator

text \<open>The block sizes of the slabs; the entry of the buddy allocator is not used.\<close>

fun blk_size :: "HeapAllocator \<Rightarrow> nat" where
  "blk_size Slab64Bytes = 64"
| "blk_size Slab128Bytes = 128"
| "blk_size Slab256Bytes = 256"
| "blk_size Slab512Bytes = 512"
| "blk_size Slab1024Bytes = 1024"
| "blk_size Slab2048Bytes = 2048"
| "blk_size Slab4096Bytes = 4096"
| "blk_size BuddyAllocator = 1"

definition slab_classes :: "HeapAllocator list" where
  "slab_classes = [Slab64Bytes, Slab128Bytes, Slab256Bytes, Slab512Bytes, Slab1024Bytes, Slab2048Bytes, Slab4096Bytes]"

text \<open>The seven slabs of the struct are indexed by the allocator they are selected by. The heap comes
  with the memory its free blocks lie in.\<close>

record 'y Heap =
  hp_slabs :: "HeapAllocator \<Rightarrow> Slab"
  hp_buddy :: 'y
  hp_blocks :: blocks

definition SLAB_MIN_HEAP_SIZE :: nat where "SLAB_MIN_HEAP_SIZE = 0x8000"

definition heap_new :: "'y buddy_ops \<Rightarrow> nat \<Rightarrow> nat \<Rightarrow> blocks \<Rightarrow> 'y Heap option" where
  "heap_new Y heap_start_addr heap_size m =
    (if heap_start_addr mod 4096 = 0 \<and> heap_size \<ge> SLAB_MIN_HEAP_SIZE \<and> heap_size mod SLAB_MIN_HEAP_SIZE = 0
     then Some \<lparr> hp_slabs = (\<lambda>c. fst (slab_new (blk_size c) 0 0 m)),
        hp_buddy = bd_init Y heap_start_addr heap_size (bd_new Y), hp_blocks = m \<rparr>
     else None)"

definition heap_add_memory :: "'y buddy_ops \<Rightarrow> nat \<Rightarrow> nat \<Rightarrow> 'y Heap \<Rightarrow> 'y Heap option" where
  "heap_add_memory Y heap_start_addr heap_size h =
    (if heap_start_addr mod 4096 = 0 \<and> heap_size mod 4096 = 0
     then Some (h\<lparr> hp_buddy := bd_add_to_heap Y heap_start_addr (heap_start_addr + heap_size) (hp_buddy h) \<rparr>)
     else None)"

definition layout_to_allocator :: "Layout \<Rightarrow> HeapAllocator" where
  "layout_to_allocator layout =
    (let sz = unat (lay_size layout); al = unat (lay_align layout) in
     if sz > 4096 then BuddyAllocator
     else if sz \<le> 64 \<and> al \<le> 64 then Slab64Bytes
     else if sz \<le> 128 \<and> al \<le> 128 then Slab128Bytes
     else if sz \<le> 256 \<and> al \<le> 256 then Slab256Bytes
     else if sz \<le> 512 \<and> al \<le> 512 then Slab512Bytes
     else if sz \<le> 1024 \<and> al \<le> 1024 then Slab1024Bytes
     else if sz \<le> 2048 \<and> al \<le> 2048 then Slab2048Bytes
     else Slab4096Bytes)"

definition heap_allocate :: "'y buddy_ops \<Rightarrow> Layout \<Rightarrow> 'y Heap \<Rightarrow> (nat, unit) outcome \<times> 'y Heap" where
  "heap_allocate Y layout h =
    (let c = layout_to_allocator layout in
     if c = BuddyAllocator
     then (case bd_alloc Y (unat (lay_size layout)) (unat (lay_align layout)) (hp_buddy h) of
         (Some ptr, y) \<Rightarrow> (Ok ptr, h\<lparr> hp_buddy := y \<rparr>)
       | (None, y) \<Rightarrow> (Err (), h\<lparr> hp_buddy := y \<rparr>))
     else (case slab_allocate Y (blk_size c) (hp_slabs h c) (hp_buddy h) (hp_blocks h) of
         (r, s, y, m) \<Rightarrow> (r, h\<lparr> hp_slabs := (hp_slabs h)(c := s), hp_buddy := y, hp_blocks := m \<rparr>)))"

text \<open>A null pointer makes \<open>unwrap\<close> panic.\<close>

definition heap_deallocate :: "'y buddy_ops \<Rightarrow> nat \<Rightarrow> Layout \<Rightarrow> 'y Heap \<Rightarrow> 'y Heap option" where
  "heap_deallocate Y ptr layout h =
    (let c = layout_to_allocator layout in
     if c = BuddyAllocator
     then (if ptr = 0 then None
       else Some (h\<lparr> hp_buddy := bd_dealloc Y ptr (unat (lay_size layout)) (unat (lay_align layout)) (hp_buddy h) \<rparr>))
     else (case slab_deallocate ptr (hp_slabs h c) (hp_blocks h) of
         (s, m) \<Rightarrow> Some (h\<lparr> hp_slabs := (hp_slabs h)(c := s), hp_blocks := m \<rparr>)))"

definition heap_usable_size :: "Layout \<Rightarrow> nat \<times> nat" where
  "heap_usable_size layout =
    (let c = layout_to_allocator layout in
     (unat (lay_size layout), if c = BuddyAllocator then unat (lay_size layout) else blk_size c))"

definition heap_total_bytes :: "'y buddy_ops \<Rightarrow> 'y Heap \<Rightarrow> nat" where
  "heap_total_bytes Y h = (\<Sum>c\<leftarrow>slab_classes. sl_total_blocks (hp_slabs h c) * blk_size c) + bd_total_bytes Y (hp_buddy h)"

definition heap_used_bytes :: "'y buddy_ops \<Rightarrow> 'y Heap \<Rightarrow> nat" where
  "heap_used_bytes Y h = (\<Sum>c\<leftarrow>slab_classes. used_blocks (hp_slabs h c) * blk_size c) + bd_alloc_actual Y (hp_buddy h)"

definition heap_available_bytes :: "'y buddy_ops \<Rightarrow> 'y Heap \<Rightarrow> nat" where
  "heap_available_bytes Y h = heap_total_bytes Y h - heap_used_bytes Y h"

section \<open>The byte allocators\<close>

text \<open>The three implementations of the trait \<open>ByteAllocator\<close> in \<open>src/crates/allocator/src\<close>:
  \<open>slab.rs\<close>, \<open>buddy.rs\<close> and \<open>tlsf.rs\<close>. \<open>SlabByteAllocator\<close> holds no heap before \<open>init\<close>, and then its
  other methods panic. \<open>m\<close> is the content of the memory when it is handed over.\<close>

record 'y SlabByteAllocator = sb_inner :: "'y Heap option"

definition sb_new :: "'y SlabByteAllocator" where
  "sb_new = \<lparr> sb_inner = None \<rparr>"

definition sb_init :: "'y buddy_ops \<Rightarrow> blocks \<Rightarrow> usize \<Rightarrow> usize \<Rightarrow> 'y SlabByteAllocator \<Rightarrow> 'y SlabByteAllocator option" where
  "sb_init Y m start sz s = map_option (\<lambda>h. s\<lparr> sb_inner := Some h \<rparr>) (heap_new Y (unat start) (unat sz) m)"

definition sb_add_memory :: "'y buddy_ops \<Rightarrow> usize \<Rightarrow> usize \<Rightarrow> 'y SlabByteAllocator \<Rightarrow>
    (unit, AllocError) outcome \<times> 'y SlabByteAllocator" where
  "sb_add_memory Y start sz s = (case Option.bind (sb_inner s) (heap_add_memory Y (unat start) (unat sz)) of
     None \<Rightarrow> (Panic, s)
   | Some h \<Rightarrow> (Ok (), s\<lparr> sb_inner := Some h \<rparr>))"

definition sb_alloc :: "'y buddy_ops \<Rightarrow> Layout \<Rightarrow> 'y SlabByteAllocator \<Rightarrow>
    (usize, AllocError) outcome \<times> 'y SlabByteAllocator" where
  "sb_alloc Y layout s = (case sb_inner s of
     None \<Rightarrow> (Panic, s)
   | Some h \<Rightarrow> (case heap_allocate Y layout h of
       (Ok addr, h1) \<Rightarrow> (Ok (of_nat addr), s\<lparr> sb_inner := Some h1 \<rparr>)
     | (Err _, h1) \<Rightarrow> (Err AE_NoMemory, s\<lparr> sb_inner := Some h1 \<rparr>)
     | (Panic, h1) \<Rightarrow> (Panic, s\<lparr> sb_inner := Some h1 \<rparr>)))"

definition sb_dealloc :: "'y buddy_ops \<Rightarrow> usize \<Rightarrow> Layout \<Rightarrow> 'y SlabByteAllocator \<Rightarrow> 'y SlabByteAllocator option" where
  "sb_dealloc Y pos layout s =
    map_option (\<lambda>h. s\<lparr> sb_inner := Some h \<rparr>) (Option.bind (sb_inner s) (heap_deallocate Y (unat pos) layout))"

definition sb_total_bytes :: "'y buddy_ops \<Rightarrow> 'y SlabByteAllocator \<Rightarrow> usize option" where
  "sb_total_bytes Y s = map_option (\<lambda>h. of_nat (heap_total_bytes Y h)) (sb_inner s)"

definition sb_used_bytes :: "'y buddy_ops \<Rightarrow> 'y SlabByteAllocator \<Rightarrow> usize option" where
  "sb_used_bytes Y s = map_option (\<lambda>h. of_nat (heap_used_bytes Y h)) (sb_inner s)"

definition sb_available_bytes :: "'y buddy_ops \<Rightarrow> 'y SlabByteAllocator \<Rightarrow> usize option" where
  "sb_available_bytes Y s = map_option (\<lambda>h. of_nat (heap_available_bytes Y h)) (sb_inner s)"

definition buddy_bytes :: "'y buddy_ops \<Rightarrow> 'y ByteAllocator" where
  "buddy_bytes Y = \<lparr>
    by_init = (\<lambda>start sz y. Some (bd_init Y (unat start) (unat sz) y)),
    by_add_memory = (\<lambda>start sz y. (Ok (), bd_add_to_heap Y (unat start) (unat (start + sz)) y)),
    by_alloc = (\<lambda>layout y. case bd_alloc Y (unat (lay_size layout)) (unat (lay_align layout)) y of
       (Some p, y1) \<Rightarrow> (Ok (of_nat p), y1)
     | (None, y1) \<Rightarrow> (Err AE_NoMemory, y1)),
    by_dealloc = (\<lambda>pos layout y. Some (bd_dealloc Y (unat pos) (unat (lay_size layout)) (unat (lay_align layout)) y)),
    by_total_bytes = (\<lambda>y. of_nat (bd_total_bytes Y y)),
    by_used_bytes = (\<lambda>y. of_nat (bd_alloc_actual Y y)),
    by_available_bytes = (\<lambda>y. of_nat (bd_total_bytes Y y) - of_nat (bd_alloc_actual Y y)) \<rparr>"

text \<open>The operations of the package \<open>rlsf\<close>: inserting a pool, which fails for one that is too small,
  allocating, and giving back memory of some alignment.\<close>

record 't tlsf_ops =
  ts_insert_free_block :: "usize \<Rightarrow> usize \<Rightarrow> 't \<Rightarrow> unit option \<times> 't"
  ts_allocate :: "Layout \<Rightarrow> 't \<Rightarrow> usize option \<times> 't"
  ts_deallocate :: "usize \<Rightarrow> usize \<Rightarrow> 't \<Rightarrow> 't"

record 't TlsfByteAllocator =
  tl_inner :: 't
  tl_total_bytes :: usize
  tl_used_bytes :: usize

definition tlsf_new :: "'t \<Rightarrow> 't TlsfByteAllocator" where
  "tlsf_new t = \<lparr> tl_inner = t, tl_total_bytes = 0, tl_used_bytes = 0 \<rparr>"

definition tlsf_add_memory :: "'t tlsf_ops \<Rightarrow> usize \<Rightarrow> usize \<Rightarrow> 't TlsfByteAllocator \<Rightarrow>
    (unit, AllocError) outcome \<times> 't TlsfByteAllocator" where
  "tlsf_add_memory T start sz s = (if start = 0 then (Panic, s)
     else (case ts_insert_free_block T start sz (tl_inner s) of
       (None, t) \<Rightarrow> (Err AE_InvalidParam, s\<lparr> tl_inner := t \<rparr>)
     | (Some _, t) \<Rightarrow> (Ok (), s\<lparr> tl_inner := t, tl_total_bytes := tl_total_bytes s + sz \<rparr>)))"

definition tlsf_init :: "'t tlsf_ops \<Rightarrow> usize \<Rightarrow> usize \<Rightarrow> 't TlsfByteAllocator \<Rightarrow> 't TlsfByteAllocator option" where
  "tlsf_init T start sz s = (if start = 0 then None
     else (case ts_insert_free_block T start sz (tl_inner s) of
       (None, _) \<Rightarrow> None
     | (Some _, t) \<Rightarrow> Some (s\<lparr> tl_inner := t, tl_total_bytes := sz \<rparr>)))"

definition tlsf_alloc :: "'t tlsf_ops \<Rightarrow> Layout \<Rightarrow> 't TlsfByteAllocator \<Rightarrow> (usize, AllocError) outcome \<times> 't TlsfByteAllocator" where
  "tlsf_alloc T layout s = (case ts_allocate T layout (tl_inner s) of
     (None, t) \<Rightarrow> (Err AE_NoMemory, s\<lparr> tl_inner := t \<rparr>)
   | (Some p, t) \<Rightarrow> (Ok p, s\<lparr> tl_inner := t, tl_used_bytes := tl_used_bytes s + lay_size layout \<rparr>))"

definition tlsf_dealloc :: "'t tlsf_ops \<Rightarrow> usize \<Rightarrow> Layout \<Rightarrow> 't TlsfByteAllocator \<Rightarrow> 't TlsfByteAllocator option" where
  "tlsf_dealloc T pos layout s = Some (s\<lparr> tl_inner := ts_deallocate T pos (lay_align layout) (tl_inner s),
     tl_used_bytes := tl_used_bytes s - lay_size layout \<rparr>)"

definition tlsf_bytes :: "'t tlsf_ops \<Rightarrow> 't TlsfByteAllocator ByteAllocator" where
  "tlsf_bytes T = \<lparr> by_init = tlsf_init T, by_add_memory = tlsf_add_memory T, by_alloc = tlsf_alloc T,
    by_dealloc = tlsf_dealloc T, by_total_bytes = tl_total_bytes, by_used_bytes = tl_used_bytes,
    by_available_bytes = (\<lambda>s. tl_total_bytes s - tl_used_bytes s) \<rparr>"

section \<open>Free lists as sequences\<close>

fun chain :: "blocks \<Rightarrow> nat option \<Rightarrow> nat list \<Rightarrow> bool" where
  "chain m h [] \<longleftrightarrow> h = None"
| "chain m h (x # xs) \<longleftrightarrow> h = Some x \<and> chain m (m x) xs"

definition fl_repr :: "FreeBlockList \<Rightarrow> blocks \<Rightarrow> nat list \<Rightarrow> bool" where
  "fl_repr l m xs \<longleftrightarrow> distinct xs \<and> chain m (fl_head l) xs \<and> fl_len l = length xs"

lemma chain_cong: "(\<And>x. x \<in> set xs \<Longrightarrow> m' x = m x) \<Longrightarrow> chain m' h xs = chain m h xs"
  by (induction xs arbitrary: h) auto

lemma chain_upd [simp]: "b \<notin> set xs \<Longrightarrow> chain (m(b := v)) h xs = chain m h xs"
  by (rule chain_cong) auto

lemma fl_repr_cong: "(\<And>x. x \<in> set xs \<Longrightarrow> m' x = m x) \<Longrightarrow> fl_repr l m' xs = fl_repr l m xs"
  using chain_cong [of xs m' m "fl_head l"] by (auto simp: fl_repr_def)

lemma fl_repr_empty [simp]: "fl_repr fl_new_empty m []"
  by (simp add: fl_repr_def fl_new_empty_def)

lemma fl_push_repr:
  assumes "fl_repr l m xs" "b \<notin> set xs" "fl_push b (l, m) = (l', m')"
  shows "fl_repr l' m' (b # xs)" "\<And>x. x \<noteq> b \<Longrightarrow> m' x = m x"
  using assms by (auto simp: fl_repr_def fl_push_def)

lemma fl_pop_Nil: "fl_repr l m [] \<Longrightarrow> fl_pop (l, m) = (None, l, m)"
  by (simp add: fl_repr_def fl_pop_def)

lemma fl_pop_Cons:
  assumes "fl_repr l m (b # xs)"
  shows "\<exists>l' m'. fl_pop (l, m) = (Some b, l', m') \<and> fl_repr l' m' xs \<and> (\<forall>x. x \<noteq> b \<longrightarrow> m' x = m x)"
  using assms by (auto simp: fl_repr_def fl_pop_def)

definition slab_blocks :: "nat \<Rightarrow> nat \<Rightarrow> nat \<Rightarrow> nat list" where
  "slab_blocks start_addr blk n = map (\<lambda>i. start_addr + i * blk) [0..<n]"

lemma fl_new_repr:
  assumes "blk > 0"
  shows "\<exists>l m'. fl_new s blk n m = (l, m') \<and> fl_repr l m' (slab_blocks s blk n) \<and>
    (\<forall>x. x \<notin> set (slab_blocks s blk n) \<longrightarrow> m' x = m x)"
proof -
  have "\<exists>l m'. fold (\<lambda>i. fl_push (s + i * blk)) (rev [j..<n]) (fl_new_empty, m) = (l, m') \<and>
      fl_repr l m' (map (\<lambda>i. s + i * blk) [j..<n]) \<and> (\<forall>x. x \<notin> set (map (\<lambda>i. s + i * blk) [j..<n]) \<longrightarrow> m' x = m x)"
    if "j \<le> n" for j
    using that
  proof (induction rule: inc_induct)
    case base
    then show ?case by simp
  next
    case (step j)
    then obtain l m' where *: "fold (\<lambda>i. fl_push (s + i * blk)) (rev [Suc j..<n]) (fl_new_empty, m) = (l, m')"
      "fl_repr l m' (map (\<lambda>i. s + i * blk) [Suc j..<n])"
      "\<forall>x. x \<notin> set (map (\<lambda>i. s + i * blk) [Suc j..<n]) \<longrightarrow> m' x = m x" by blast
    obtain l2 m2 where p: "fl_push (s + j * blk) (l, m') = (l2, m2)" by fastforce
    have "s + j * blk \<notin> set (map (\<lambda>i. s + i * blk) [Suc j..<n])" using assms by auto
    note r = fl_push_repr [OF *(2) this p]
    have "[j..<n] = j # [Suc j..<n]" using step by (simp add: upt_conv_Cons)
    then show ?case using *(1,3) p r by auto
  qed
  from this [of 0] show ?thesis by (simp add: fl_new_def slab_blocks_def)
qed

lemma move_blocks_repr:
  assumes "fl_repr bl m ys" "fl_repr l m xs" "set ys \<inter> set xs = {}"
  shows "\<exists>l' m'. move_blocks bl l m = Some (l', m') \<and> fl_repr l' m' (rev ys @ xs) \<and>
    (\<forall>x. x \<notin> set ys \<longrightarrow> m' x = m x)"
  using assms
proof (induction ys arbitrary: bl l m xs)
  case Nil
  then show ?case by (subst move_blocks.simps) (simp add: fl_pop_Nil)
next
  case (Cons b ys)
  obtain bl1 m1 where p: "fl_pop (bl, m) = (Some b, bl1, m1)" "fl_repr bl1 m1 ys" "\<forall>x. x \<noteq> b \<longrightarrow> m1 x = m x"
    using fl_pop_Cons [OF Cons.prems(1)] by blast
  obtain l1 m2 where q: "fl_push b (l, m1) = (l1, m2)" by fastforce
  have d: "b \<notin> set ys" using Cons.prems(1) by (simp add: fl_repr_def)
  have "fl_repr l m1 xs"
    using Cons.prems(2,3) p(3) fl_repr_cong [of xs m1 m l] by fastforce
  note r = fl_push_repr [OF this _ q]
  have b: "b \<notin> set xs" using Cons.prems(3) by auto
  have "fl_repr bl1 m2 ys" using p(2) r(2) [OF b] d fl_repr_cong [of ys m2 m1 bl1] by metis
  from Cons.IH [OF this r(1) [OF b]] Cons.prems(3) d
  obtain l' m' where *: "move_blocks bl1 l1 m2 = Some (l', m')" "fl_repr l' m' (rev ys @ b # xs)"
    "\<forall>x. x \<notin> set ys \<longrightarrow> m' x = m2 x" by auto
  have "m' x = m x" if "x \<notin> set (b # ys)" for x using that *(3) r(2) [OF b] p(3) by simp
  then show ?case using * p(1) q by (subst move_blocks.simps) auto
qed

section \<open>The interface of the buddy allocator\<close>

text \<open>\<open>bd_live\<close> are the regions handed out and not given back, \<open>bd_al\<close> the alignments they were asked for with,
  \<open>bd_pool\<close> the memory it manages. Memory must be handed to it only once, and a region is given back with
  the layout it was asked for with.\<close>

locale buddy_heap =
  fixes Y :: "'y buddy_ops" and bd_ok :: "'y \<Rightarrow> bool" and bd_live :: "'y \<Rightarrow> (nat \<times> nat) set" and bd_al :: "'y \<Rightarrow> nat \<Rightarrow> nat"
    and bd_pool :: "'y \<Rightarrow> nat set"
  assumes new_law: "bd_ok (bd_new Y) \<and> bd_live (bd_new Y) = {} \<and> bd_pool (bd_new Y) = {}"
    and init_law: "bd_ok y \<Longrightarrow> s + n \<le> 2 ^ 64 \<Longrightarrow> {s..<s + n} \<inter> bd_pool y = {} \<Longrightarrow>
      bd_ok (bd_init Y s n y) \<and> bd_live (bd_init Y s n y) = bd_live y \<and> bd_al (bd_init Y s n y) = bd_al y \<and>
      bd_pool (bd_init Y s n y) \<subseteq> bd_pool y \<union> {s..<s + n}"
    and add_law: "bd_ok y \<Longrightarrow> e \<le> 2 ^ 64 \<Longrightarrow> {s..<e} \<inter> bd_pool y = {} \<Longrightarrow>
      bd_ok (bd_add_to_heap Y s e y) \<and> bd_live (bd_add_to_heap Y s e y) = bd_live y \<and>
      bd_al (bd_add_to_heap Y s e y) = bd_al y \<and> bd_pool (bd_add_to_heap Y s e y) \<subseteq> bd_pool y \<union> {s..<e}"
    and alloc_law: "bd_ok y \<Longrightarrow> n > 0 \<Longrightarrow> bd_alloc Y n al y = (Some p, y') \<Longrightarrow>
      bd_ok y' \<and> p \<noteq> 0 \<and> al dvd p \<and> {p..<p + n} \<subseteq> bd_pool y \<and> (\<forall>(q, t)\<in>bd_live y. {p..<p + n} \<inter> {q..<q + t} = {}) \<and>
      bd_live y' = insert (p, n) (bd_live y) \<and> bd_al y' = (bd_al y)(p := al) \<and> bd_pool y' \<subseteq> bd_pool y"
    and alloc_fail_law: "bd_ok y \<Longrightarrow> bd_alloc Y n al y = (None, y') \<Longrightarrow>
      bd_ok y' \<and> bd_live y' = bd_live y \<and> bd_al y' = bd_al y \<and> bd_pool y' \<subseteq> bd_pool y"
    and dealloc_law: "bd_ok y \<Longrightarrow> (p, n) \<in> bd_live y \<Longrightarrow> al = bd_al y p \<Longrightarrow>
      bd_ok (bd_dealloc Y p n al y) \<and> bd_live (bd_dealloc Y p n al y) = bd_live y - {(p, n)} \<and>
      bd_al (bd_dealloc Y p n al y) = bd_al y \<and> bd_pool (bd_dealloc Y p n al y) \<subseteq> bd_pool y"

text \<open>An allocator that hands out the memory of one region from the start to the end.\<close>

record bump = bump_cur :: nat bump_end :: nat bump_live :: "(nat \<times> nat) list" bump_al :: "nat \<Rightarrow> nat"

definition bump_ops :: "bump buddy_ops" where
  "bump_ops = \<lparr> bd_new = \<lparr> bump_cur = 0, bump_end = 0, bump_live = [], bump_al = (\<lambda>_. 0) \<rparr>,
    bd_init = (\<lambda>s n y. y\<lparr> bump_cur := s, bump_end := s + n \<rparr>),
    bd_add_to_heap = (\<lambda>s e y. y),
    bd_alloc = (\<lambda>n al y. let p = max 1 ((bump_cur y + al - 1) div al) * al in
       if al > 0 \<and> p + n \<le> bump_end y
       then (Some p, y\<lparr> bump_cur := p + n, bump_live := (p, n) # bump_live y, bump_al := (bump_al y)(p := al) \<rparr>) else (None, y)),
    bd_dealloc = (\<lambda>p n al y. y\<lparr> bump_live := removeAll (p, n) (bump_live y) \<rparr>),
    bd_total_bytes = (\<lambda>y. bump_end y), bd_alloc_actual = (\<lambda>y. sum_list (map snd (bump_live y))) \<rparr>"

definition bump_ok :: "bump \<Rightarrow> bool" where
  "bump_ok y \<longleftrightarrow> (\<forall>(p, n)\<in>set (bump_live y). {p..<p + n} \<inter> {bump_cur y..<bump_end y} = {})"

interpretation bump_heap: buddy_heap bump_ops bump_ok "\<lambda>y. set (bump_live y)" bump_al "\<lambda>y. {bump_cur y..<bump_end y} \<union> (\<Union>(p, n)\<in>set (bump_live y). {p..<p + n})"
proof
  fix y y' :: bump and n al p
  assume ok: "bump_ok y" and a: "bd_alloc bump_ops n al y = (Some p, y')"
  then have al: "al > 0" "p = max 1 ((bump_cur y + al - 1) div al) * al" "p + n \<le> bump_end y"
    "y' = y\<lparr> bump_cur := p + n, bump_live := (p, n) # bump_live y, bump_al := (bump_al y)(p := al) \<rparr>"
    by (auto simp: bump_ops_def Let_def split: if_splits)
  have "bump_cur y \<le> (bump_cur y + al - 1) div al * al" using ceil_multiple_bounds(1) [OF al(1)] .
  also have "\<dots> \<le> p" by (simp add: al(2))
  finally have "{p..<p + n} \<subseteq> {bump_cur y..<bump_end y}" "{p + n..<bump_end y} \<subseteq> {bump_cur y..<bump_end y}"
    using al(3) by auto
  moreover have "al dvd p" "p \<noteq> 0" using al(1,2) by (auto simp: max_def)
  ultimately show "bump_ok y' \<and> p \<noteq> 0 \<and> al dvd p \<and>
      {p..<p + n} \<subseteq> {bump_cur y..<bump_end y} \<union> (\<Union>(p, n)\<in>set (bump_live y). {p..<p + n}) \<and>
      (\<forall>(q, t)\<in>set (bump_live y). {p..<p + n} \<inter> {q..<q + t} = {}) \<and>
      set (bump_live y') = insert (p, n) (set (bump_live y)) \<and> bump_al y' = (bump_al y)(p := al) \<and>
      {bump_cur y'..<bump_end y'} \<union> (\<Union>(p, n)\<in>set (bump_live y'). {p..<p + n})
      \<subseteq> {bump_cur y..<bump_end y} \<union> (\<Union>(p, n)\<in>set (bump_live y). {p..<p + n})"
    using ok unfolding bump_ok_def by (auto simp: al(4))
next
  fix y :: bump and s n
  assume d: "{s..<s + n} \<inter> ({bump_cur y..<bump_end y} \<union> (\<Union>(p, n)\<in>set (bump_live y). {p..<p + n})) = {}"
  have "{p..<p + t} \<inter> {s..<s + n} = {}" if "(p, t) \<in> set (bump_live y)" for p t using d that by blast
  then show "bump_ok (bd_init bump_ops s n y) \<and> set (bump_live (bd_init bump_ops s n y)) = set (bump_live y) \<and>
      bump_al (bd_init bump_ops s n y) = bump_al y \<and>
      {bump_cur (bd_init bump_ops s n y)..<bump_end (bd_init bump_ops s n y)} \<union>
        (\<Union>(p, n)\<in>set (bump_live (bd_init bump_ops s n y)). {p..<p + n})
      \<subseteq> {bump_cur y..<bump_end y} \<union> (\<Union>(p, n)\<in>set (bump_live y). {p..<p + n}) \<union> {s..<s + n}"
    by (auto simp: bump_ops_def bump_ok_def)
qed (auto simp: bump_ops_def bump_ok_def Let_def split: if_splits)

section \<open>The heap invariant\<close>

text \<open>\<open>L\<close> are the allocations in use and \<open>C\<close> the chunks that the slabs got from the buddy allocator.\<close>

definition live_blocks :: "(nat \<times> Layout) set \<Rightarrow> HeapAllocator \<Rightarrow> nat set" where
  "live_blocks L c = {a. \<exists>l. (a, l) \<in> L \<and> layout_to_allocator l = c}"

definition class_blocks :: "HeapAllocator \<Rightarrow> nat set \<Rightarrow> nat set" where
  "class_blocks c S = (\<Union>s\<in>S. set (slab_blocks s (blk_size c) SET_SIZE))"

definition slab_ok :: "Slab \<Rightarrow> blocks \<Rightarrow> nat set \<Rightarrow> nat set \<Rightarrow> bool" where
  "slab_ok s m live all \<longleftrightarrow> (\<exists>xs. fl_repr (sl_free s) m xs \<and> set xs \<inter> live = {} \<and> set xs \<union> live = all)"

definition regions :: "(HeapAllocator \<Rightarrow> nat set) \<Rightarrow> (nat \<times> Layout) set \<Rightarrow> (nat \<times> nat) set" where
  "regions C L = {(s, SET_SIZE * blk_size c) |s c. c \<noteq> BuddyAllocator \<and> s \<in> C c} \<union>
    {(a, unat (lay_size l)) |a l. (a, l) \<in> L \<and> layout_to_allocator l = BuddyAllocator}"

definition disjoint_regions :: "(nat \<times> nat) set \<Rightarrow> bool" where
  "disjoint_regions R \<longleftrightarrow> (\<forall>x\<in>R. \<forall>y\<in>R. x \<noteq> y \<longrightarrow> {fst x..<fst x + snd x} \<inter> {fst y..<fst y + snd y} = {})"

definition heap_inv :: "('y \<Rightarrow> bool) \<Rightarrow> ('y \<Rightarrow> (nat \<times> nat) set) \<Rightarrow> ('y \<Rightarrow> nat \<Rightarrow> nat) \<Rightarrow> (HeapAllocator \<Rightarrow> nat set) \<Rightarrow> (nat \<times> Layout) set \<Rightarrow> 'y Heap \<Rightarrow> bool" where
  "heap_inv bd_ok bd_live bd_al C L h \<longleftrightarrow> bd_ok (hp_buddy h) \<and> bd_live (hp_buddy h) = regions C L \<and> disjoint_regions (regions C L) \<and>
    (\<forall>c. c \<noteq> BuddyAllocator \<longrightarrow> (\<forall>s\<in>C c. 4096 dvd s) \<and>
      slab_ok (hp_slabs h c) (hp_blocks h) (live_blocks L c) (class_blocks c (C c))) \<and>
    (\<forall>a l l'. (a, l) \<in> L \<longrightarrow> (a, l') \<in> L \<longrightarrow> l = l') \<and>
    (\<forall>a l. (a, l) \<in> L \<longrightarrow> layout_to_allocator l = BuddyAllocator \<longrightarrow> a \<noteq> 0 \<and> unat (lay_align l) dvd a \<and>
      bd_al (hp_buddy h) a = unat (lay_align l) \<and> (\<forall>c. c \<noteq> BuddyAllocator \<longrightarrow> a \<notin> C c))"

text \<open>The memory of an allocation.\<close>

definition alloc_range :: "nat \<Rightarrow> Layout \<Rightarrow> nat set" where
  "alloc_range a l = {a..<a + snd (heap_usable_size l)}"

lemma blk_size_pos [simp]: "blk_size c > 0"
  by (cases c) simp_all

lemma blk_size_inj: "c \<noteq> BuddyAllocator \<Longrightarrow> c' \<noteq> BuddyAllocator \<Longrightarrow> blk_size c = blk_size c' \<Longrightarrow> c = c'"
  by (cases c; cases c') simp_all

lemma in_slab_blocks: "b \<in> set (slab_blocks s blk n) \<longleftrightarrow> (\<exists>i<n. b = s + i * blk)"
  by (auto simp: slab_blocks_def)

lemma block_in_chunk:
  assumes "b \<in> set (slab_blocks s blk n)"
  shows "{b..<b + blk} \<subseteq> {s..<s + n * blk}"
proof -
  obtain i where i: "i < n" "b = s + i * blk" using assms by (auto simp: in_slab_blocks)
  have "(i + 1) * blk \<le> n * blk" using i(1) by (intro mult_le_mono1) simp
  then show ?thesis by (auto simp: i(2) algebra_simps)
qed

lemma blocks_of_chunk_disjoint:
  assumes "b \<in> set (slab_blocks s blk n)" "b' \<in> set (slab_blocks s blk n)" "b \<noteq> b'"
  shows "{b..<b + blk} \<inter> {b'..<b' + blk} = {}"
proof -
  obtain i j where ij: "b = s + i * blk" "b' = s + j * blk" using assms(1,2) by (auto simp: in_slab_blocks)
  have "i * blk + blk \<le> j * blk \<or> j * blk + blk \<le> i * blk"
  proof (cases "i < j")
    case True
    then have "(i + 1) * blk \<le> j * blk" by (intro mult_le_mono1) simp
    then show ?thesis by simp
  next
    case False
    then have "(j + 1) * blk \<le> i * blk" using assms(3) ij by (intro mult_le_mono1) auto
    then show ?thesis by simp
  qed
  then show ?thesis by (auto simp: ij)
qed

text \<open>Distinct blocks do not overlap, and blocks do not overlap large allocations.\<close>

lemma blocks_disjoint:
  assumes R: "disjoint_regions (regions C L)" and c: "c \<noteq> BuddyAllocator" "c' \<noteq> BuddyAllocator"
    and b: "b \<in> class_blocks c (C c)" "b' \<in> class_blocks c' (C c')" and ne: "c \<noteq> c' \<or> b \<noteq> b'"
  shows "{b..<b + blk_size c} \<inter> {b'..<b' + blk_size c'} = {}"
proof -
  obtain s s' where s: "s \<in> C c" "b \<in> set (slab_blocks s (blk_size c) SET_SIZE)"
    "s' \<in> C c'" "b' \<in> set (slab_blocks s' (blk_size c') SET_SIZE)"
    using b by (auto simp: class_blocks_def)
  show ?thesis
  proof (cases "c = c' \<and> s = s'")
    case True
    then show ?thesis using blocks_of_chunk_disjoint [of b s "blk_size c" SET_SIZE b'] s ne by simp
  next
    case False
    then have "(s, SET_SIZE * blk_size c) \<noteq> (s', SET_SIZE * blk_size c')"
      using blk_size_inj [OF c] by (auto simp: SET_SIZE_def)
    moreover have "(s, SET_SIZE * blk_size c) \<in> regions C L" "(s', SET_SIZE * blk_size c') \<in> regions C L"
      using s c by (auto simp: regions_def)
    ultimately have "{s..<s + SET_SIZE * blk_size c} \<inter> {s'..<s' + SET_SIZE * blk_size c'} = {}"
      using R unfolding disjoint_regions_def by fastforce
    then show ?thesis using block_in_chunk [OF s(2)] block_in_chunk [OF s(4)] by blast
  qed
qed

lemma block_large_disjoint:
  assumes R: "disjoint_regions (regions C L)" and c: "c \<noteq> BuddyAllocator" and b: "b \<in> class_blocks c (C c)"
    and a: "(a, l) \<in> L" "layout_to_allocator l = BuddyAllocator" and ne: "a \<notin> C c"
  shows "{b..<b + blk_size c} \<inter> {a..<a + unat (lay_size l)} = {}"
proof -
  obtain s where s: "s \<in> C c" "b \<in> set (slab_blocks s (blk_size c) SET_SIZE)" using b by (auto simp: class_blocks_def)
  have "(s, SET_SIZE * blk_size c) \<in> regions C L" "(a, unat (lay_size l)) \<in> regions C L"
    using s c a by (auto simp: regions_def)
  then have "{s..<s + SET_SIZE * blk_size c} \<inter> {a..<a + unat (lay_size l)} = {}"
    using R ne s(1) unfolding disjoint_regions_def by fastforce
  then show ?thesis using block_in_chunk [OF s(2)] by blast
qed

lemma heap_invD:
  assumes "heap_inv bd_ok bd_live bd_al C L h"
  shows "bd_ok (hp_buddy h)" "bd_live (hp_buddy h) = regions C L" "disjoint_regions (regions C L)"
    "c \<noteq> BuddyAllocator \<Longrightarrow> slab_ok (hp_slabs h c) (hp_blocks h) (live_blocks L c) (class_blocks c (C c))"
    "c \<noteq> BuddyAllocator \<Longrightarrow> s \<in> C c \<Longrightarrow> 4096 dvd s"
    "(a, l) \<in> L \<Longrightarrow> (a, l') \<in> L \<Longrightarrow> l = l'"
    "(a, l) \<in> L \<Longrightarrow> layout_to_allocator l = BuddyAllocator \<Longrightarrow> a \<noteq> 0 \<and> unat (lay_align l) dvd a"
    "(a, l) \<in> L \<Longrightarrow> layout_to_allocator l = BuddyAllocator \<Longrightarrow> c \<noteq> BuddyAllocator \<Longrightarrow> a \<notin> C c"
    "(a, l) \<in> L \<Longrightarrow> layout_to_allocator l = BuddyAllocator \<Longrightarrow> bd_al (hp_buddy h) a = unat (lay_align l)"
  using assms unfolding heap_inv_def by blast+

lemma live_in_class:
  assumes "heap_inv bd_ok bd_live bd_al C L h" "(a, l) \<in> L" "layout_to_allocator l \<noteq> BuddyAllocator"
  shows "a \<in> class_blocks (layout_to_allocator l) (C (layout_to_allocator l))"
proof -
  have "a \<in> live_blocks L (layout_to_allocator l)" using assms(2) by (auto simp: live_blocks_def)
  then show ?thesis using heap_invD(4) [OF assms(1,3)] by (auto simp: slab_ok_def)
qed

text \<open>A block of a slab that is not in use does not touch any allocation.\<close>

lemma block_avoids_live:
  assumes inv: "heap_inv bd_ok bd_live bd_al C L h" and c: "c \<noteq> BuddyAllocator" "b \<in> class_blocks c (C c)"
    and a: "(a, l) \<in> L" and ne: "layout_to_allocator l = c \<Longrightarrow> b \<noteq> a"
  shows "{b..<b + blk_size c} \<inter> alloc_range a l = {}"
proof (cases "layout_to_allocator l = BuddyAllocator")
  case True
  then show ?thesis
    using block_large_disjoint [OF heap_invD(3) [OF inv] c a True heap_invD(8) [OF inv a True c(1)]]
    by (simp add: alloc_range_def heap_usable_size_def Let_def)
next
  case False
  then show ?thesis
    using blocks_disjoint [OF heap_invD(3) [OF inv] c(1) False c(2) live_in_class [OF inv a False]] ne
    by (auto simp: alloc_range_def heap_usable_size_def Let_def)
qed

lemma alloc_range_start: "a \<in> alloc_range a l"
  by (cases "layout_to_allocator l = BuddyAllocator")
    (auto simp: alloc_range_def heap_usable_size_def layout_to_allocator_def Let_def split: if_splits)

lemma block_not_live:
  assumes "heap_inv bd_ok bd_live bd_al C L h" "c \<noteq> BuddyAllocator" "b \<in> class_blocks c (C c)" "b \<notin> live_blocks L c"
  shows "(b, l) \<notin> L"
proof
  assume l: "(b, l) \<in> L"
  have "layout_to_allocator l \<noteq> c" using l assms(4) by (auto simp: live_blocks_def)
  then have "{b..<b + blk_size c} \<inter> alloc_range b l = {}" using block_avoids_live [OF assms(1-3) l] by blast
  moreover have "b \<in> {b..<b + blk_size c}" by simp
  ultimately show False using alloc_range_start [of b l] by blast
qed

lemma chain_unique: "chain m h xs \<Longrightarrow> chain m h ys \<Longrightarrow> xs = ys"
proof (induction xs arbitrary: h ys)
  case Nil
  then show ?case by (cases ys) auto
next
  case (Cons x xs)
  then show ?case by (cases ys) auto
qed

lemma slab_ok_free:
  assumes "slab_ok s m live all" "fl_repr (sl_free s) m xs"
  shows "set xs \<inter> live = {}" "set xs \<union> live = all"
proof -
  obtain ys where ys: "fl_repr (sl_free s) m ys" "set ys \<inter> live = {}" "set ys \<union> live = all"
    using assms(1) by (auto simp: slab_ok_def)
  have "xs = ys" using chain_unique assms(2) ys(1) by (auto simp: fl_repr_def)
  then show "set xs \<inter> live = {}" "set xs \<union> live = all" using ys by simp_all
qed

lemma slab_ok_frame: "slab_ok s m live all \<Longrightarrow> (\<And>x. x \<in> all \<Longrightarrow> m' x = m x) \<Longrightarrow> slab_ok s m' live all"
  unfolding slab_ok_def using fl_repr_cong [of _ m' m] by (metis Un_iff)

lemma live_blocks_insert: "live_blocks (insert (b, l) L) c = (if layout_to_allocator l = c then insert b (live_blocks L c) else live_blocks L c)"
  by (auto simp: live_blocks_def)

lemma regions_insert_small: "layout_to_allocator l \<noteq> BuddyAllocator \<Longrightarrow> regions C (insert (b, l) L) = regions C L"
  by (auto simp: regions_def)

text \<open>Blocks of one slab are not blocks of another.\<close>

lemma class_blocks_other:
  assumes "heap_inv bd_ok bd_live bd_al C L h" "c \<noteq> BuddyAllocator" "c' \<noteq> BuddyAllocator" "c \<noteq> c'" "b \<in> class_blocks c (C c)"
  shows "b \<notin> class_blocks c' (C c')"
proof
  assume "b \<in> class_blocks c' (C c')"
  from blocks_disjoint [OF heap_invD(3) [OF assms(1)] assms(2,3,5) this] assms(4)
  show False by (auto simp: disjoint_iff)
qed

text \<open>Taking the first free block.\<close>

lemma pop_inv:
  assumes inv: "heap_inv bd_ok bd_live bd_al C L h" and c: "layout_to_allocator l = c" "c \<noteq> BuddyAllocator"
    and xs: "fl_repr (sl_free (hp_slabs h c)) (hp_blocks h) (b # xs)"
  shows "\<exists>f m. fl_pop (sl_free (hp_slabs h c), hp_blocks h) = (Some b, f, m) \<and>
    heap_inv bd_ok bd_live bd_al C (insert (b, l) L)
      (h\<lparr> hp_slabs := (hp_slabs h)(c := (hp_slabs h c)\<lparr> sl_free := f \<rparr>), hp_blocks := m \<rparr>)"
proof -
  obtain f m where p: "fl_pop (sl_free (hp_slabs h c), hp_blocks h) = (Some b, f, m)" "fl_repr f m xs"
    "\<forall>x. x \<noteq> b \<longrightarrow> m x = hp_blocks h x" using fl_pop_Cons [OF xs] by blast
  note free = slab_ok_free [OF heap_invD(4) [OF inv c(2)] xs]
  have b: "b \<in> class_blocks c (C c)" "b \<notin> live_blocks L c" "b \<notin> set xs" using free xs by (auto simp: fl_repr_def)
  note fresh = block_not_live [OF inv c(2) b(1,2)]
  let ?h = "h\<lparr> hp_slabs := (hp_slabs h)(c := (hp_slabs h c)\<lparr> sl_free := f \<rparr>), hp_blocks := m \<rparr>" and ?L = "insert (b, l) L"
  have "slab_ok (hp_slabs ?h c') m (live_blocks ?L c') (class_blocks c' (C c'))" if c': "c' \<noteq> BuddyAllocator" for c'
  proof (cases "c' = c")
    case True
    have "set xs \<inter> insert b (live_blocks L c) = {}" "set xs \<union> insert b (live_blocks L c) = class_blocks c (C c)"
      using free b(3) by auto
    then show ?thesis using p(2) True c(1) by (auto simp: slab_ok_def live_blocks_insert)
  next
    case False
    then have "\<And>x. x \<in> class_blocks c' (C c') \<Longrightarrow> m x = hp_blocks h x"
      using class_blocks_other [OF inv c(2) c' _ b(1)] p(3) by metis
    then show ?thesis using slab_ok_frame heap_invD(4) [OF inv c'] False c(1) by (simp add: live_blocks_insert)
  qed
  then have "heap_inv bd_ok bd_live bd_al C ?L ?h"
    using inv fresh c regions_insert_small [of l C b L] unfolding heap_inv_def by auto
  then show ?thesis using p(1) by blast
qed

text \<open>Adding a region.\<close>

lemma disjoint_regions_insert:
  assumes "disjoint_regions R" "\<forall>(q, t)\<in>R. {p..<p + n} \<inter> {q..<q + t} = {}"
  shows "disjoint_regions (insert (p, n) R)"
  using assms unfolding disjoint_regions_def by (fastforce simp: Int_commute)

lemma regions_nonempty: "(q, t) \<in> regions C L \<Longrightarrow> t > 0"
  by (auto simp: regions_def SET_SIZE_def layout_to_allocator_def Let_def split: if_splits)

lemma regions_add_chunk:
  "c \<noteq> BuddyAllocator \<Longrightarrow> regions (C(c := insert p (C c))) L = insert (p, SET_SIZE * blk_size c) (regions C L)"
  by (auto simp: regions_def)

lemma slab_grow_spec:
  assumes "fl_repr (sl_free s) m xs" "set (slab_blocks p blk SET_SIZE) \<inter> set xs = {}" "blk > 0"
  shows "\<exists>s' m'. slab_grow blk p (SET_SIZE * blk) s m = Some (s', m') \<and>
    fl_repr (sl_free s') m' (rev (slab_blocks p blk SET_SIZE) @ xs) \<and>
    (\<forall>x. x \<notin> set (slab_blocks p blk SET_SIZE) \<longrightarrow> m' x = m x)"
proof -
  have n: "SET_SIZE * blk div blk = SET_SIZE" using assms(3) by simp
  obtain bl m1 where f: "fl_new p blk SET_SIZE m = (bl, m1)" "fl_repr bl m1 (slab_blocks p blk SET_SIZE)"
    "\<forall>x. x \<notin> set (slab_blocks p blk SET_SIZE) \<longrightarrow> m1 x = m x" using fl_new_repr [OF assms(3)] by blast
  have "fl_repr (sl_free s) m1 xs" using assms(1,2) f(3) fl_repr_cong [of xs m1 m "sl_free s"] by blast
  from move_blocks_repr [OF f(2) this assms(2)] obtain l m2 where mv: "move_blocks bl (sl_free s) m1 = Some (l, m2)"
    "fl_repr l m2 (rev (slab_blocks p blk SET_SIZE) @ xs)" "\<forall>x. x \<notin> set (slab_blocks p blk SET_SIZE) \<longrightarrow> m2 x = m1 x" by blast
  then show ?thesis using f(1,3) n by (simp add: slab_grow_def Let_def)
qed

context buddy_heap
begin

abbreviation hinv :: "(HeapAllocator \<Rightarrow> nat set) \<Rightarrow> (nat \<times> Layout) set \<Rightarrow> 'y Heap \<Rightarrow> bool" where
  "hinv \<equiv> heap_inv bd_ok bd_live bd_al"

text \<open>A slab that is refilled from the buddy allocator.\<close>

lemma grow_inv:
  assumes inv: "hinv C L h" and c: "c \<noteq> BuddyAllocator" and al: "bd_alloc Y (SET_SIZE * blk_size c) 4096 (hp_buddy h) = (Some p, y)"
  shows "\<exists>s m b xs. slab_grow (blk_size c) p (SET_SIZE * blk_size c) (hp_slabs h c) (hp_blocks h) = Some (s, m) \<and>
    fl_repr (sl_free s) m (b # xs) \<and>
    hinv (C(c := insert p (C c))) L (h\<lparr> hp_slabs := (hp_slabs h)(c := s), hp_buddy := y, hp_blocks := m \<rparr>)"
proof -
  let ?blk = "blk_size c" and ?C = "C(c := insert p (C c))"
  let ?ys = "slab_blocks p ?blk SET_SIZE"
  have a: "bd_ok y" "4096 dvd p" "\<forall>(q, t)\<in>regions C L. {p..<p + SET_SIZE * ?blk} \<inter> {q..<q + t} = {}"
    "bd_live y = insert (p, SET_SIZE * ?blk) (regions C L)" "bd_al y = (bd_al (hp_buddy h))(p := 4096)"
    using alloc_law [OF heap_invD(1) [OF inv] _ al] heap_invD(2) [OF inv] by (simp_all add: SET_SIZE_def)
  have new: "{p..<p + SET_SIZE * ?blk} \<inter> {q..<q + t} = {}" if "(q, t) \<in> regions C L" for q t using a(3) that by blast
  have ys: "b \<notin> class_blocks c' (C c')" if "b \<in> set ?ys" "c' \<noteq> BuddyAllocator" for b c'
  proof
    assume "b \<in> class_blocks c' (C c')"
    then obtain s where s: "s \<in> C c'" "b \<in> set (slab_blocks s (blk_size c') SET_SIZE)" by (auto simp: class_blocks_def)
    have "(s, SET_SIZE * blk_size c') \<in> regions C L" using s(1) that(2) by (auto simp: regions_def)
    then have "{p..<p + SET_SIZE * ?blk} \<inter> {s..<s + SET_SIZE * blk_size c'} = {}" by (rule new)
    moreover have "b \<in> {b..<b + ?blk}" "b \<in> {b..<b + blk_size c'}" by simp_all
    ultimately show False using block_in_chunk [OF that(1)] block_in_chunk [OF s(2)] by blast
  qed
  obtain xs where xs: "fl_repr (sl_free (hp_slabs h c)) (hp_blocks h) xs" using heap_invD(4) [OF inv c] by (auto simp: slab_ok_def)
  note free = slab_ok_free [OF heap_invD(4) [OF inv c] xs]
  have "set ?ys \<inter> set xs = {}" using ys [OF _ c] free by blast
  from slab_grow_spec [OF xs this] obtain s m where g: "slab_grow ?blk p (SET_SIZE * ?blk) (hp_slabs h c) (hp_blocks h) = Some (s, m)"
    "fl_repr (sl_free s) m (rev ?ys @ xs)" "\<forall>x. x \<notin> set ?ys \<longrightarrow> m x = hp_blocks h x" by auto
  let ?h = "h\<lparr> hp_slabs := (hp_slabs h)(c := s), hp_buddy := y, hp_blocks := m \<rparr>"
  have slabs: "slab_ok (hp_slabs ?h c') m (live_blocks L c') (class_blocks c' (?C c'))" if c': "c' \<noteq> BuddyAllocator" for c'
  proof (cases "c' = c")
    case True
    have "set (rev ?ys @ xs) \<inter> live_blocks L c = {}" using free ys [OF _ c] by auto
    moreover have "set (rev ?ys @ xs) \<union> live_blocks L c = class_blocks c (insert p (C c))"
      using free by (auto simp: class_blocks_def)
    ultimately have "slab_ok s m (live_blocks L c) (class_blocks c (insert p (C c)))"
      using g(2) unfolding slab_ok_def by blast
    then show ?thesis using True by simp
  next
    case False
    have "\<And>x. x \<in> class_blocks c' (C c') \<Longrightarrow> m x = hp_blocks h x" using ys [OF _ c'] g(3) by blast
    then show ?thesis using slab_ok_frame heap_invD(4) [OF inv c'] False by simp
  qed
  have large: "a \<noteq> p" if "(a, l) \<in> L" "layout_to_allocator l = BuddyAllocator" for a l
  proof -
    have r: "(a, unat (lay_size l)) \<in> regions C L" using that by (auto simp: regions_def)
    show ?thesis using new [OF r] regions_nonempty [OF r] by (auto simp: SET_SIZE_def)
  qed
  have R: "regions ?C L = insert (p, SET_SIZE * ?blk) (regions C L)" using regions_add_chunk [OF c] .
  have D: "disjoint_regions (insert (p, SET_SIZE * ?blk) (regions C L))"
    using disjoint_regions_insert [OF heap_invD(3) [OF inv] a(3)] .
  have al: "4096 dvd s" if "c' \<noteq> BuddyAllocator" "s \<in> ?C c'" for c' s
    using that a(2) heap_invD(5) [OF inv, of c' s] by (auto split: if_splits)
  have "hinv ?C L ?h"
    unfolding heap_inv_def R
    using a(1,4,5) D slabs al large heap_invD(6,7,8,9) [OF inv] by auto
  moreover have "\<exists>b zs. rev ?ys @ xs = b # zs" by (cases "rev ?ys @ xs") (auto simp: slab_blocks_def SET_SIZE_def)
  ultimately show ?thesis using g(1,2) by metis
qed

text \<open>A buddy allocation that fails changes nothing.\<close>

lemma buddy_keeps:
  assumes "hinv C L h" "bd_ok y" "bd_live y = bd_live (hp_buddy h)" "bd_al y = bd_al (hp_buddy h)"
  shows "hinv C L (h\<lparr> hp_buddy := y \<rparr>)"
  using assms by (simp add: heap_inv_def)

lemma slab_allocate_inv:
  assumes inv: "hinv C L h" and c: "layout_to_allocator l = c" "c \<noteq> BuddyAllocator"
    and al: "slab_allocate Y (blk_size c) (hp_slabs h c) (hp_buddy h) (hp_blocks h) = (r, s, y, m)"
  shows "case r of
      Ok b \<Rightarrow> \<exists>C'. hinv C' (insert (b, l) L) (h\<lparr> hp_slabs := (hp_slabs h)(c := s), hp_buddy := y, hp_blocks := m \<rparr>) \<and> (b, l) \<notin> L
    | Err _ \<Rightarrow> hinv C L (h\<lparr> hp_slabs := (hp_slabs h)(c := s), hp_buddy := y, hp_blocks := m \<rparr>)
    | Panic \<Rightarrow> False"
proof -
  obtain xs where xs: "fl_repr (sl_free (hp_slabs h c)) (hp_blocks h) xs" using heap_invD(4) [OF inv c(2)] by (auto simp: slab_ok_def)
  have fresh: "(b, l) \<notin> L'" if "hinv C' L' h'" "fl_repr (sl_free (hp_slabs h' c)) (hp_blocks h') (b # zs)" for C' L' h' b zs
    using slab_ok_free [OF heap_invD(4) [OF that(1) c(2)] that(2)] block_not_live [OF that(1) c(2)] by auto
  show ?thesis
  proof (cases xs)
    case (Cons b ys)
    then show ?thesis
      using pop_inv [OF inv c xs [unfolded Cons]] fresh [OF inv xs [unfolded Cons]] al
      by (auto simp: slab_allocate_def intro!: exI [of _ C])
  next
    case Nil
    have p: "fl_pop (sl_free (hp_slabs h c), hp_blocks h) = (None, sl_free (hp_slabs h c), hp_blocks h)"
      using fl_pop_Nil xs Nil by simp
    obtain q y1 where b: "bd_alloc Y (SET_SIZE * blk_size c) 4096 (hp_buddy h) = (q, y1)" by fastforce
    show ?thesis
    proof (cases q)
      case None
      then have "r = Err ()" "s = hp_slabs h c" "y = y1" "m = hp_blocks h" using al p b by (auto simp: slab_allocate_def)
      then show ?thesis
        using buddy_keeps [OF inv] alloc_fail_law [OF heap_invD(1) [OF inv] b [unfolded None]] by simp
    next
      case (Some ptr)
      obtain s2 m2 b' zs where g: "slab_grow (blk_size c) ptr (SET_SIZE * blk_size c) (hp_slabs h c) (hp_blocks h) = Some (s2, m2)"
        "fl_repr (sl_free s2) m2 (b' # zs)"
        "hinv (C(c := insert ptr (C c))) L (h\<lparr> hp_slabs := (hp_slabs h)(c := s2), hp_buddy := y1, hp_blocks := m2 \<rparr>)"
        using grow_inv [OF inv c(2) b [unfolded Some]] by blast
      from pop_inv [OF g(3) c, of b' zs] fresh [OF g(3), of b' zs] g(1,2)
      show ?thesis using al p b Some
        by (cases h) (auto simp: slab_allocate_def intro!: exI [of _ "C(c := insert ptr (C c))"])
    qed
  qed
qed

lemma heap_allocate_inv:
  assumes inv: "hinv C L h" and al: "heap_allocate Y l h = (r, h')"
  shows "case r of Ok a \<Rightarrow> \<exists>C'. hinv C' (insert (a, l) L) h' \<and> (a, l) \<notin> L | Err _ \<Rightarrow> hinv C L h' | Panic \<Rightarrow> False"
proof (cases "layout_to_allocator l = BuddyAllocator")
  case False
  obtain x s y m where "slab_allocate Y (blk_size (layout_to_allocator l)) (hp_slabs h (layout_to_allocator l)) (hp_buddy h) (hp_blocks h) = (x, s, y, m)"
    by (metis prod_cases4)
  note al' = this
  from slab_allocate_inv [OF inv refl False al'] show ?thesis
    using al al' False by (auto simp: heap_allocate_def Let_def)
next
  case True
  let ?n = "unat (lay_size l)" and ?al = "unat (lay_align l)"
  have n: "?n > 0" using True by (auto simp: layout_to_allocator_def Let_def split: if_splits)
  obtain q y where b: "bd_alloc Y ?n ?al (hp_buddy h) = (q, y)" by fastforce
  show ?thesis
  proof (cases q)
    case None
    then show ?thesis
      using buddy_keeps [OF inv] alloc_fail_law [OF heap_invD(1) [OF inv] b [unfolded None]] al b True
      by (auto simp: heap_allocate_def Let_def)
  next
    case (Some p)
    note a = alloc_law [OF heap_invD(1) [OF inv] n b [unfolded Some]]
    have new: "{p..<p + ?n} \<inter> {x..<x + t} = {}" if "(x, t) \<in> regions C L" for x t
      using a heap_invD(2) [OF inv] that by blast
    have ne: "p \<noteq> x" if "(x, t) \<in> regions C L" for x t
      using new [OF that] regions_nonempty [OF that] n by auto
    have R: "regions C (insert (p, l) L) = insert (p, ?n) (regions C L)" using True by (auto simp: regions_def)
    have D: "disjoint_regions (insert (p, ?n) (regions C L))"
      using disjoint_regions_insert [OF heap_invD(3) [OF inv]] new by blast
    have chunk: "p \<notin> C c" if "c \<noteq> BuddyAllocator" for c
      using ne that by (fastforce simp: regions_def)
    have live: "(p, l') \<notin> L" for l'
    proof
      assume l': "(p, l') \<in> L"
      show False
      proof (cases "layout_to_allocator l' = BuddyAllocator")
        case True
        then show ?thesis using ne l' by (fastforce simp: regions_def)
      next
        case False
        from live_in_class [OF inv l' this] obtain s where s: "s \<in> C (layout_to_allocator l')"
          "p \<in> set (slab_blocks s (blk_size (layout_to_allocator l')) SET_SIZE)" by (auto simp: class_blocks_def)
        have "(s, SET_SIZE * blk_size (layout_to_allocator l')) \<in> regions C L" using s(1) False by (auto simp: regions_def)
        then show ?thesis using new block_in_chunk [OF s(2)] n by fastforce
      qed
    qed
    have lb: "live_blocks (insert (p, l) L) c = live_blocks L c" if "c \<noteq> BuddyAllocator" for c
      using that True by (simp add: live_blocks_insert)
    have "hinv C (insert (p, l) L) (h\<lparr> hp_buddy := y \<rparr>)"
      unfolding heap_inv_def R using a heap_invD [OF inv] D chunk live lb by auto
    then show ?thesis using al b True Some live by (auto simp: heap_allocate_def Let_def)
  qed
qed

lemma heap_inv_shrink:
  assumes "hinv C L h" "L' \<subseteq> L" "bd_ok (hp_buddy h')" "bd_live (hp_buddy h') = regions C L'" "bd_al (hp_buddy h') = bd_al (hp_buddy h)" "disjoint_regions (regions C L')"
    "\<And>c. c \<noteq> BuddyAllocator \<Longrightarrow> slab_ok (hp_slabs h' c) (hp_blocks h') (live_blocks L' c) (class_blocks c (C c))"
  shows "hinv C L' h'"
  using assms unfolding heap_inv_def by (metis subsetD)

text \<open>Giving back an allocation, the writes of its owner, and new memory.\<close>

lemma live_blocks_remove:
  assumes inv: "hinv C L h" and a: "(a, l) \<in> L"
  shows "live_blocks (L - {(a, l)}) c = (if layout_to_allocator l = c then live_blocks L c - {a} else live_blocks L c)"
proof (rule set_eqI)
  fix x
  show "x \<in> live_blocks (L - {(a, l)}) c \<longleftrightarrow>
    x \<in> (if layout_to_allocator l = c then live_blocks L c - {a} else live_blocks L c)"
  proof (cases "x = a")
    case True
    have "(a, l') \<in> L \<longleftrightarrow> l' = l" for l' using heap_invD(6) [OF inv a, of l'] a by blast
    then show ?thesis using True by (simp add: live_blocks_def)
  qed (auto simp: live_blocks_def)
qed

lemma slab_deallocate_inv:
  assumes inv: "hinv C L h" and a: "(a, l) \<in> L" and c: "layout_to_allocator l = c" "c \<noteq> BuddyAllocator"
    and de: "slab_deallocate a (hp_slabs h c) (hp_blocks h) = (s, m)"
  shows "hinv C (L - {(a, l)}) (h\<lparr> hp_slabs := (hp_slabs h)(c := s), hp_blocks := m \<rparr>)"
proof -
  obtain xs where xs: "fl_repr (sl_free (hp_slabs h c)) (hp_blocks h) xs" using heap_invD(4) [OF inv c(2)] by (auto simp: slab_ok_def)
  note free = slab_ok_free [OF heap_invD(4) [OF inv c(2)] xs]
  have l: "a \<in> live_blocks L c" using a c by (auto simp: live_blocks_def)
  then have b: "a \<in> class_blocks c (C c)" "a \<notin> set xs" using free by auto
  obtain f where f: "fl_push a (sl_free (hp_slabs h c), hp_blocks h) = (f, m)" "s = (hp_slabs h c)\<lparr> sl_free := f \<rparr>"
    using de by (auto simp: slab_deallocate_def split: prod.splits)
  note p = fl_push_repr [OF xs b(2) f(1)]
  let ?h = "h\<lparr> hp_slabs := (hp_slabs h)(c := s), hp_blocks := m \<rparr>" and ?L = "L - {(a, l)}"
  have slabs: "slab_ok (hp_slabs ?h c') m (live_blocks ?L c') (class_blocks c' (C c'))" if c': "c' \<noteq> BuddyAllocator" for c'
  proof (cases "c' = c")
    case True
    have "set (a # xs) \<inter> (live_blocks L c - {a}) = {}" "set (a # xs) \<union> (live_blocks L c - {a}) = class_blocks c (C c)"
      using free l by auto
    then have "slab_ok s m (live_blocks L c - {a}) (class_blocks c (C c))"
      unfolding slab_ok_def f(2) using p(1) by (intro exI [of _ "a # xs"]) simp
    then show ?thesis using True c(1) live_blocks_remove [OF inv a] by simp
  next
    case False
    then have "\<And>x. x \<in> class_blocks c' (C c') \<Longrightarrow> m x = hp_blocks h x"
      using class_blocks_other [OF inv c(2) c' _ b(1)] p(2) by metis
    then show ?thesis using slab_ok_frame heap_invD(4) [OF inv c'] False c(1) live_blocks_remove [OF inv a] by simp
  qed
  have "regions C ?L = regions C L" using c by (auto simp: regions_def)
  then show ?thesis using heap_inv_shrink [OF inv, of ?L ?h] heap_invD(1-3) [OF inv] slabs by auto
qed

lemma heap_deallocate_inv:
  assumes inv: "hinv C L h" and a: "(a, l) \<in> L"
  shows "\<exists>h'. heap_deallocate Y a l h = Some h' \<and> hinv C (L - {(a, l)}) h'"
proof (cases "layout_to_allocator l = BuddyAllocator")
  case False
  obtain s m where d: "slab_deallocate a (hp_slabs h (layout_to_allocator l)) (hp_blocks h) = (s, m)" by fastforce
  from slab_deallocate_inv [OF inv a refl False d] show ?thesis
    using d False by (simp add: heap_deallocate_def Let_def)
next
  case True
  note A = heap_invD(7) [OF inv a True]
  have r: "(a, unat (lay_size l)) \<in> bd_live (hp_buddy h)"
    using a True heap_invD(2) [OF inv] by (auto simp: regions_def)
  note d = dealloc_law [OF heap_invD(1) [OF inv] r heap_invD(9) [OF inv a True, symmetric]]
  have chunk: "a \<noteq> s" if "c \<noteq> BuddyAllocator" "s \<in> C c" for c s using heap_invD(8) [OF inv a True that(1)] that(2) by blast
  have R: "regions C (L - {(a, l)}) = regions C L - {(a, unat (lay_size l))}"
    using chunk heap_invD(6) [OF inv a] unfolding regions_def by fastforce
  have lb: "live_blocks (L - {(a, l)}) c = live_blocks L c" if "c \<noteq> BuddyAllocator" for c
    using live_blocks_remove [OF inv a] True that by simp
  have "disjoint_regions (regions C L - {(a, unat (lay_size l))})"
    using heap_invD(3) [OF inv] unfolding disjoint_regions_def by blast
  then have "hinv C (L - {(a, l)}) (h\<lparr> hp_buddy := bd_dealloc Y a (unat (lay_size l)) (unat (lay_align l)) (hp_buddy h) \<rparr>)"
    using d heap_invD(2,4) [OF inv] lb R by (intro heap_inv_shrink [OF inv]) auto
  then show ?thesis using A True by (simp add: heap_deallocate_def Let_def)
qed

lemma user_write_inv:
  assumes inv: "hinv C L h" and m: "\<forall>x. m x \<noteq> hp_blocks h x \<longrightarrow> (\<exists>(a, l)\<in>L. x \<in> alloc_range a l)"
  shows "hinv C L (h\<lparr> hp_blocks := m \<rparr>)"
proof -
  have "slab_ok (hp_slabs h c) m (live_blocks L c) (class_blocks c (C c))" if c: "c \<noteq> BuddyAllocator" for c
  proof -
    obtain xs where xs: "fl_repr (sl_free (hp_slabs h c)) (hp_blocks h) xs" using heap_invD(4) [OF inv c] by (auto simp: slab_ok_def)
    note free = slab_ok_free [OF heap_invD(4) [OF inv c] xs]
    have "m x = hp_blocks h x" if x: "x \<in> set xs" for x
    proof (rule ccontr)
      assume "m x \<noteq> hp_blocks h x"
      then obtain a l where al: "(a, l) \<in> L" "x \<in> alloc_range a l" using m by blast
      have "layout_to_allocator l = c \<Longrightarrow> x \<noteq> a" using al(1) x free(1) by (auto simp: live_blocks_def)
      moreover have "x \<in> class_blocks c (C c)" "x \<in> {x..<x + blk_size c}" using x free(2) by auto
      ultimately show False using block_avoids_live [OF inv c _ al(1)] al(2) by blast
    qed
    then have "fl_repr (sl_free (hp_slabs h c)) m xs" using xs fl_repr_cong by blast
    then show ?thesis using free unfolding slab_ok_def by blast
  qed
  then show ?thesis using heap_invD(1-3) [OF inv] by (intro heap_inv_shrink [OF inv]) auto
qed

lemma heap_new_inv:
  assumes "heap_new Y s n m = Some h" "s + n \<le> 2 ^ 64"
  shows "hinv (\<lambda>_. {}) {} h"
proof -
  have "bd_ok (hp_buddy h)" "bd_live (hp_buddy h) = {}"
    using assms init_law [of "bd_new Y" s n] new_law by (auto simp: heap_new_def split: if_splits)
  moreover have "slab_ok (hp_slabs h c) (hp_blocks h) {} {}" for c
    using assms(1) by (auto simp: heap_new_def slab_ok_def slab_new_def fl_new_def split: if_splits)
  ultimately show ?thesis
    unfolding heap_inv_def by (auto simp: regions_def disjoint_regions_def live_blocks_def class_blocks_def)
qed

lemma heap_add_memory_inv:
  assumes "hinv C L h" "heap_add_memory Y s n h = Some h'" "s + n \<le> 2 ^ 64" "{s..<s + n} \<inter> bd_pool (hp_buddy h) = {}"
  shows "hinv C L h'"
  using buddy_keeps [OF assms(1)] add_law [OF heap_invD(1) [OF assms(1)] assms(3,4)] assms(2)
  by (auto simp: heap_add_memory_def split: if_splits)

end

section \<open>Using the heap\<close>

text \<open>The heap with the allocations in use. The owner of an allocation may write anything into it, and
  gives it back with its own layout; new memory is not part of the heap yet. \<open>pool\<close> is the memory the
  buddy allocator manages.\<close>

inductive heap_reach :: "'y buddy_ops \<Rightarrow> ('y \<Rightarrow> nat set) \<Rightarrow> (nat \<times> Layout) set \<Rightarrow> 'y Heap \<Rightarrow> bool" for Y pool where
  reach_new: "heap_new Y s n m = Some h \<Longrightarrow> s + n \<le> 2 ^ 64 \<Longrightarrow> heap_reach Y pool {} h"
| reach_alloc: "heap_reach Y pool L h \<Longrightarrow> heap_allocate Y l h = (Ok a, h') \<Longrightarrow> heap_reach Y pool (insert (a, l) L) h'"
| reach_fail: "heap_reach Y pool L h \<Longrightarrow> heap_allocate Y l h = (Err e, h') \<Longrightarrow> heap_reach Y pool L h'"
| reach_dealloc: "heap_reach Y pool L h \<Longrightarrow> (a, l) \<in> L \<Longrightarrow> heap_deallocate Y a l h = Some h' \<Longrightarrow>
    heap_reach Y pool (L - {(a, l)}) h'"
| reach_write: "heap_reach Y pool L h \<Longrightarrow> \<forall>x. m x \<noteq> hp_blocks h x \<longrightarrow> (\<exists>(a, l)\<in>L. x \<in> alloc_range a l) \<Longrightarrow>
    heap_reach Y pool L (h\<lparr> hp_blocks := m \<rparr>)"
| reach_add: "heap_reach Y pool L h \<Longrightarrow> heap_add_memory Y s n h = Some h' \<Longrightarrow> s + n \<le> 2 ^ 64 \<Longrightarrow>
    {s..<s + n} \<inter> pool (hp_buddy h) = {} \<Longrightarrow> heap_reach Y pool L h'"

context buddy_heap
begin

lemma reach_inv: "heap_reach Y bd_pool L h \<Longrightarrow> \<exists>C. hinv C L h"
proof (induction rule: heap_reach.induct)
  case (reach_new s n m h)
  then show ?case using heap_new_inv by blast
next
  case (reach_alloc L h l a h')
  then show ?case using heap_allocate_inv [of _ L h l "Ok a" h'] by auto
next
  case (reach_fail L h l e h')
  then show ?case using heap_allocate_inv [of _ L h l "Err e" h'] by auto
next
  case (reach_dealloc L h a l h')
  then obtain C where "hinv C L h" by blast
  from heap_deallocate_inv [OF this reach_dealloc.hyps(2)] reach_dealloc.hyps(3) show ?case by auto
next
  case (reach_write L h m)
  then show ?case using user_write_inv by blast
next
  case (reach_add L h s n h')
  then show ?case using heap_add_memory_inv by blast
qed

lemma live_disjoint:
  assumes inv: "hinv C L h" and a: "(a, l) \<in> L" "(b, k) \<in> L" "(a, l) \<noteq> (b, k)"
  shows "alloc_range a l \<inter> alloc_range b k = {}"
proof -
  have ne: "a \<noteq> b" using heap_invD(6) [OF inv, of a l k] a by auto
  have small: "alloc_range x i \<inter> alloc_range y j = {}"
    if "layout_to_allocator i \<noteq> BuddyAllocator" "(x, i) \<in> L" "(y, j) \<in> L" "x \<noteq> y" for x i y j
    using block_avoids_live [OF inv that(1) live_in_class [OF inv that(2,1)] that(3)] that(1,4)
    by (simp add: alloc_range_def heap_usable_size_def Let_def)
  show ?thesis
  proof (cases "layout_to_allocator l = BuddyAllocator \<and> layout_to_allocator k = BuddyAllocator")
    case True
    then have "(a, unat (lay_size l)) \<in> regions C L" "(b, unat (lay_size k)) \<in> regions C L" using a by (auto simp: regions_def)
    then show ?thesis using heap_invD(3) [OF inv] ne True
      unfolding disjoint_regions_def by (fastforce simp: alloc_range_def heap_usable_size_def)
  next
    case False
    then show ?thesis using small [of l a b k] small [of k b a l] a ne by (auto simp: Int_commute)
  qed
qed

lemma live_aligned:
  assumes inv: "hinv C L h" and a: "(a, l) \<in> L" and al: "is_power_of_two (lay_align l)"
    and small: "lay_align l \<le> 4096 \<or> lay_size l > 4096"
  shows "unat (lay_align l) dvd a"
proof (cases "layout_to_allocator l = BuddyAllocator")
  case True
  then show ?thesis using heap_invD(7) [OF inv a] by blast
next
  case False
  let ?c = "layout_to_allocator l"
  have sz: "unat (lay_size l) \<le> 4096" using False by (auto simp: layout_to_allocator_def Let_def split: if_splits)
  then have "unat (lay_align l) \<le> 4096" using small by (auto simp: word_le_nat_alt word_less_nat_alt)
  then have le: "unat (lay_align l) \<le> blk_size ?c" using sz by (auto simp: layout_to_allocator_def Let_def)
  obtain k where "k < 64" "lay_align l = 2 ^ k" using al by (auto simp: is_power_of_two_iff)
  then have k: "unat (lay_align l) = 2 ^ k" by (simp add: unat_exp_word)
  obtain j where j: "blk_size ?c = 2 ^ j" "j \<le> 12"
    using that [of 6] that [of 7] that [of 8] that [of 9] that [of 10] that [of 11] that [of 12] False by (cases ?c) auto
  have d: "unat (lay_align l) dvd blk_size ?c" "blk_size ?c dvd 4096"
    using le power_le_dvd [of "2::nat" 12 4096 j] j unfolding k j(1) by (auto intro: le_imp_power_dvd)
  obtain s i where s: "s \<in> C ?c" "a = s + i * blk_size ?c"
    using live_in_class [OF inv a False] by (auto simp: class_blocks_def in_slab_blocks)
  have "4096 dvd s" using heap_invD(5) [OF inv False s(1)] .
  then show ?thesis using d dvd_trans unfolding s(2) by (metis dvd_add dvd_mult)
qed

end

lemma size_le_usable: "fst (heap_usable_size l) \<le> snd (heap_usable_size l)"
  by (auto simp: heap_usable_size_def layout_to_allocator_def Let_def)

text \<open>A run of the heap over the bump allocator: a small allocation, which takes a chunk for its slab, and
  a large one.\<close>

definition demo_small :: Layout where "demo_small = \<lparr> lay_size = 40, lay_align = 8 \<rparr>"
definition demo_large :: Layout where "demo_large = \<lparr> lay_size = 5000, lay_align = 16 \<rparr>"

definition demo_heap0 :: "bump Heap" where "demo_heap0 = the (heap_new bump_ops 0x8000 0x8000 (\<lambda>_. None))"
definition demo_heap1 :: "bump Heap" where "demo_heap1 = snd (heap_allocate bump_ops demo_small demo_heap0)"
definition demo_heap2 :: "bump Heap" where "demo_heap2 = snd (heap_allocate bump_ops demo_large demo_heap1)"

lemma demo_new: "heap_new bump_ops 0x8000 0x8000 (\<lambda>_. None) = Some demo_heap0"
  by (simp add: demo_heap0_def heap_new_def SLAB_MIN_HEAP_SIZE_def)

lemma demo_heap0_state:
  "hp_slabs demo_heap0 c = \<lparr> sl_free = fl_new_empty, sl_total_blocks = 0 \<rparr>" "hp_blocks demo_heap0 = (\<lambda>_. None)"
  "hp_buddy demo_heap0 = \<lparr> bump_cur = 0x8000, bump_end = 0x10000, bump_live = [], bump_al = (\<lambda>_. 0) \<rparr>"
  by (simp_all add: demo_heap0_def heap_new_def slab_new_def fl_new_def bump_ops_def SLAB_MIN_HEAP_SIZE_def)

lemma demo_layouts: "layout_to_allocator demo_small = Slab64Bytes" "layout_to_allocator demo_large = BuddyAllocator"
  by (simp_all add: layout_to_allocator_def demo_small_def demo_large_def)

lemma demo_alloc1:
  "heap_allocate bump_ops demo_small demo_heap0 = (Ok 0x8FC0, demo_heap1)"
  "hp_buddy demo_heap1 = \<lparr> bump_cur = 0x9000, bump_end = 0x10000, bump_live = [(0x8000, 0x1000)], bump_al = (\<lambda>_. 0)(0x8000 := 4096) \<rparr>"
proof -
  let ?s = "\<lparr> sl_free = fl_new_empty, sl_total_blocks = 0 \<rparr>" and ?b = "\<lparr> bump_cur = 0x8000, bump_end = 0x10000, bump_live = [], bump_al = (\<lambda>_. 0) \<rparr>"
  obtain s m where g: "slab_grow 64 0x8000 (SET_SIZE * 64) ?s (\<lambda>_. None) = Some (s, m)"
    "fl_repr (sl_free s) m (rev (slab_blocks 0x8000 64 SET_SIZE))"
    using slab_grow_spec [of ?s "\<lambda>_. None" "[]" "0x8000" 64] by auto
  have "rev (slab_blocks 0x8000 64 (Suc 63)) = 0x8FC0 # rev (slab_blocks 0x8000 64 63)"
    unfolding slab_blocks_def by (subst upt_Suc_append) simp_all
  then have "fl_repr (sl_free s) m (0x8FC0 # rev (slab_blocks 0x8000 64 63))" using g(2) by (simp add: SET_SIZE_def)
  from fl_pop_Cons [OF this] obtain l m' where p: "fl_pop (sl_free s, m) = (Some 0x8FC0, l, m')" by blast
  have b: "bd_alloc bump_ops (SET_SIZE * 64) 4096 ?b
    = (Some 0x8000, \<lparr> bump_cur = 0x9000, bump_end = 0x10000, bump_live = [(0x8000, 0x1000)], bump_al = (\<lambda>_. 0)(0x8000 := 4096) \<rparr>)"
    by (simp add: bump_ops_def SET_SIZE_def)
  have e: "fl_pop (fl_new_empty, \<lambda>_. None) = (None, fl_new_empty, \<lambda>_. None)" by (rule fl_pop_Nil) simp
  have "\<exists>h. heap_allocate bump_ops demo_small demo_heap0 = (Ok 0x8FC0, h) \<and>
      hp_buddy h = \<lparr> bump_cur = 0x9000, bump_end = 0x10000, bump_live = [(0x8000, 0x1000)], bump_al = (\<lambda>_. 0)(0x8000 := 4096) \<rparr>"
    using g(1) p b e by (simp add: heap_allocate_def demo_layouts slab_allocate_def demo_heap0_state)
  then show "heap_allocate bump_ops demo_small demo_heap0 = (Ok 0x8FC0, demo_heap1)"
    "hp_buddy demo_heap1 = \<lparr> bump_cur = 0x9000, bump_end = 0x10000, bump_live = [(0x8000, 0x1000)], bump_al = (\<lambda>_. 0)(0x8000 := 4096) \<rparr>"
    by (auto simp: demo_heap1_def)
qed

lemma demo_alloc2: "heap_allocate bump_ops demo_large demo_heap1 = (Ok 0x9000, demo_heap2)"
  by (simp add: demo_heap2_def heap_allocate_def demo_layouts demo_alloc1(2)) (simp add: demo_large_def bump_ops_def)

lemma heap_demo_reach: "heap_reach bump_ops pool {(0x9000, demo_large), (0x8FC0, demo_small)} demo_heap2"
  by (rule reach_alloc [OF reach_alloc [OF reach_new [OF demo_new] demo_alloc1(1)] demo_alloc2]) simp

text \<open>Once initialised, the byte allocator does not panic on an allocation, and its heap keeps its history.\<close>

lemma sb_alloc_spec:
  assumes "buddy_heap Y bd_ok bd_live bd_al bd_pool" "heap_reach Y bd_pool L h" "sb_inner s = Some h" "sb_alloc Y l s = (r, s')"
  shows "r \<noteq> Panic \<and> (\<exists>h' L'. sb_inner s' = Some h' \<and> heap_reach Y bd_pool L' h' \<and> (L' = L \<or> (\<exists>a. L' = insert (a, l) L \<and> r = Ok (of_nat a))))"
proof -
  obtain C where C: "heap_inv bd_ok bd_live bd_al C L h" using buddy_heap.reach_inv [OF assms(1,2)] by blast
  obtain x h' where x: "heap_allocate Y l h = (x, h')" by fastforce
  then have s: "sb_inner s' = Some h'" using assms(3,4) by (auto simp: sb_alloc_def split: outcome.splits)
  show ?thesis
  proof (cases x)
    case (Ok a)
    then show ?thesis using reach_alloc [OF assms(2)] x s assms(3,4) by (auto simp: sb_alloc_def)
  next
    case (Err e)
    then show ?thesis using reach_fail [OF assms(2)] x s assms(3,4) by (auto simp: sb_alloc_def)
  next
    case Panic
    then show ?thesis using buddy_heap.heap_allocate_inv [OF assms(1) C x] by simp
  qed
qed

text \<open>C37: In every state the slab allocator reaches - by allocating, by failing to allocate, by taking back
  allocations, by adding fresh memory, and with the owners of the allocations writing anything into them -
  the memory of two allocations in use does not overlap, over any buddy allocator that keeps its contract.\<close>

theorem slab_no_overlap:
  assumes "buddy_heap Y bd_ok bd_live bd_al bd_pool" "heap_reach Y bd_pool L h"
    and "(a, l) \<in> L" "(b, k) \<in> L" "(a, l) \<noteq> (b, k)"
  shows "alloc_range a l \<inter> alloc_range b k = {}"
  using buddy_heap.reach_inv [OF assms(1,2)] buddy_heap.live_disjoint [OF assms(1) _ assms(3-5)] by blast

theorem slab_no_overlap_witness:
  "alloc_range 0x9000 demo_large \<inter> alloc_range 0x8FC0 demo_small = {}"
  using slab_no_overlap [OF bump_heap.buddy_heap_axioms heap_demo_reach, of "0x9000" demo_large "0x8FC0" demo_small] by simp

text \<open>C38: In every reachable state an allocation request for a valid layout - an alignment that is a power
  of two, at most the page size unless the size is larger than a page - does not panic, and the address it
  returns has the requested alignment.\<close>

theorem slab_alloc_aligned:
  assumes "buddy_heap Y bd_ok bd_live bd_al bd_pool" "heap_reach Y bd_pool L h"
    and "is_power_of_two (lay_align l)" "lay_align l \<le> 4096 \<or> lay_size l > 4096"
  shows "case fst (heap_allocate Y l h) of Ok a \<Rightarrow> unat (lay_align l) dvd a | Err _ \<Rightarrow> True | Panic \<Rightarrow> False"
proof -
  obtain C where C: "heap_inv bd_ok bd_live bd_al C L h" using buddy_heap.reach_inv [OF assms(1,2)] by blast
  obtain r h' where r: "heap_allocate Y l h = (r, h')" by fastforce
  show ?thesis
    using buddy_heap.heap_allocate_inv [OF assms(1) C r] buddy_heap.live_aligned [OF assms(1) _ _ assms(3,4)] r
    by (cases r) auto
qed

theorem slab_alloc_aligned_witness:
  "case fst (heap_allocate bump_ops demo_large demo_heap2) of Ok a \<Rightarrow> unat (lay_align demo_large) dvd a | Err _ \<Rightarrow> True | Panic \<Rightarrow> False"
proof -
  have "is_power_of_two 16" by (rule is_power_of_two_iff [THEN iffD2]) (rule exI [of _ 4], simp)
  then have "is_power_of_two (lay_align demo_large)" "lay_align demo_large \<le> 4096 \<or> lay_size demo_large > 4096"
    by (simp_all add: demo_large_def)
  then show ?thesis
    using slab_alloc_aligned [OF bump_heap.buddy_heap_axioms heap_demo_reach, of demo_large] by simp
qed

end
