(* ===== verification/Spec2Isabelle.thy ===== *)
theory Spec2Isabelle
  imports Page_Table_Arch Task_Properties Fops_Properties Fd_Table Mutex Kernel_Memory Slab_Allocator
begin

text \<open>
  A verification of ArceOS, a unikernel of small components that are linked into one program: the
  tasks with their schedulers and the mutex they share, the page tables, the page and heap allocators,
  the virtual file system with its RAM and device file systems, the pipes and file descriptors of the
  POSIX interface, and the data structures and error codes they share. The theories follow the crates and modules under \<^verbatim>\<open>src/\<close>; each opens with the
  files it models.

  \<^bold>\<open>How the code is modelled.\<close> A Rust struct is a record with the fields of the struct, an enum a
  datatype, a method a function from the state to the result and the new state. Code that returns
  \<open>Result\<close> and may panic gives an \<open>outcome\<close> (\<open>Ok\<close>, \<open>Err\<close> or \<open>Panic\<close>); where there is no error value
  a panic, a failed assertion or an access outside the memory is \<open>None\<close>. Integers are words of their
  width where wrap around matters, with the semantics of a release build, and natural numbers where
  a bound is proved. Strings are lists of the bytes of their UTF-8 encoding. Shared mutable objects
  (list links, page table frames, file system nodes) live in an explicit store indexed by address or
  number. Spin locks are left out: what the code does under one is one step. Reference counts are left
  out too, but for the garbage collector of tasks, which gets them as an argument. Loops are structural
  recursion or functions with a termination proof; the loops over a region of pages, over the blocks of
  a grown slab and over the heap extensions of the global allocator may not end for every argument, so they
  give \<open>None\<close> for a run that does not, and the properties prove that they return. There is no fuel.
  Memory for buffers of the standard library (\<open>Vec\<close>, \<open>String\<close>, \<open>BTreeMap\<close>) is not limited.

  \<^bold>\<open>Shared theories.\<close> \<^verbatim>\<open>Prelude\<close> holds the outcome type, integer helpers and list lemmas.
  \<^verbatim>\<open>Axerrno\<close> models the error codes of \<^verbatim>\<open>crates/axerrno\<close> with their conversions. \<^verbatim>\<open>Btree_Map\<close> is
  the ordered map of the standard library as a sorted association list.

  \<^bold>\<open>Memory.\<close> \<^verbatim>\<open>Memory_Addr\<close> models the alignment functions and address types of
  \<^verbatim>\<open>crates/memory_addr\<close>. \<^verbatim>\<open>Page_Table_Entry\<close> models the three entry formats of
  \<^verbatim>\<open>crates/page_table_entry\<close> and the interfaces \<open>generic_pte\<close> and \<open>masked_pte\<close> they share.
  \<^verbatim>\<open>Page_Table\<close> models \<open>PageTable64\<close> of \<^verbatim>\<open>crates/page_table/src/bits64.rs\<close> over a memory of frames and a
  frame allocator that is a parameter with the interface \<open>frame_allocator\<close>. \<^verbatim>\<open>Page_Table_Proofs\<close>
  shows in the locale \<open>page_table\<close> that the tables form a tree without sharing and what each
  operation does to the translation of every address; \<^verbatim>\<open>Page_Table_Regions\<close> treats the loops over
  regions with huge pages, and \<^verbatim>\<open>Page_Table_Arch\<close> interprets the locales for x86-64, RISC-V and
  AArch64 and states the properties. \<^verbatim>\<open>Page_Allocator\<close> models the bitmap page allocator of
  \<^verbatim>\<open>crates/allocator\<close> over the package \<^verbatim>\<open>bitmap_allocator\<close>, a parameter with the interface
  \<open>bit_allocator\<close>, and the trait of the byte allocators. \<^verbatim>\<open>Slab_Allocator\<close> models \<^verbatim>\<open>crates/slab_allocator\<close>
  with its free lists stored in the free blocks, over the package \<^verbatim>\<open>buddy_system_allocator\<close>, a parameter with
  the interface \<open>buddy_heap\<close>, and the byte allocators of \<^verbatim>\<open>crates/allocator\<close>. \<^verbatim>\<open>Global_Allocator\<close> models
  the two level allocator of \<^verbatim>\<open>modules/axalloc\<close> over any byte allocator. \<^verbatim>\<open>Kernel_Memory\<close> models the memory regions of \<^verbatim>\<open>modules/axhal\<close> and the kernel
  page table that \<^verbatim>\<open>modules/axruntime\<close> builds, with the frames taken from the global allocator.

  \<^bold>\<open>Tasks.\<close> \<^verbatim>\<open>Linked_List\<close> models the intrusive circular list of \<^verbatim>\<open>crates/linked_list\<close> over a store
  of links and proves that it refines a sequence. \<^verbatim>\<open>Schedulers\<close> models the FIFO, round robin and
  completely fair schedulers of \<^verbatim>\<open>crates/scheduler\<close>; each interprets \<open>base_scheduler\<close>, the contract
  the run queue relies on. \<^verbatim>\<open>Timer_List\<close> models \<^verbatim>\<open>crates/timer_list\<close>. \<^verbatim>\<open>Task_System\<close> models the run
  queue, wait queues, timers and the task calls of \<^verbatim>\<open>modules/axtask\<close> on one processor. A task that is
  switched out inside a call has a continuation that says where it goes on. \<^verbatim>\<open>Task_Invariants\<close>
  lists all calls and parts of calls as the datatype \<open>call\<close> and defines with them the runs \<open>kstep\<close> and
  \<open>kreach\<close>, in which timer interrupts and preemption happen at any moment; it proves in the locale
  \<open>run_queue\<close> that each of them returns exactly when the conditions it asserts hold and keeps the
  invariant. The runs have the set of names of new tasks as a parameter, since the code takes every task named
  \<^verbatim>\<open>idle\<close> for an idle task and then loses it. \<^verbatim>\<open>Task_Properties\<close> interprets the locale for the three
  schedulers and states the properties. \<^verbatim>\<open>Mutex\<close> models the blocking mutex of \<^verbatim>\<open>modules/axsync\<close>, whose
  steps are interleaved with all steps of the task system.

  \<^bold>\<open>Files.\<close> \<^verbatim>\<open>Vfs\<close> models attributes, directory entries, path canonicalisation and capabilities
  of \<^verbatim>\<open>crates/axfs_vfs\<close> and \<^verbatim>\<open>crates/capability\<close>. \<^verbatim>\<open>Fs_Nodes\<close> models the nodes of \<^verbatim>\<open>crates/axfs_ramfs\<close>
  and \<^verbatim>\<open>crates/axfs_devfs\<close> in one store, since mounting links them; the method call on a node is a case
  distinction on its kind. \<^verbatim>\<open>Fs_Proofs\<close> gives the invariant of the store and what lookup, create
  and remove do; \<^verbatim>\<open>Fs_Properties\<close> states the properties over all reachable stores. \<^verbatim>\<open>Root_Fs\<close>
  models \<^verbatim>\<open>modules/axfs/src/root.rs\<close> and \<^verbatim>\<open>mounts.rs\<close>, \<^verbatim>\<open>Root_Fs_Proofs\<close> its invariant. \<^verbatim>\<open>Fops\<close> and
  \<^verbatim>\<open>Fops_Properties\<close> treat the opened files and directories of \<^verbatim>\<open>modules/axfs/src/fops.rs\<close>.

  \<^bold>\<open>The POSIX interface.\<close> \<^verbatim>\<open>Pipe\<close> models the ring buffer and the interleaved rounds of the reader and
  the writer of a pipe. \<^verbatim>\<open>Flatten_Objects\<close> models \<^verbatim>\<open>crates/flatten_objects\<close> over a bitmap of another
  package, a parameter with the interface \<open>id_bitmap\<close>. \<^verbatim>\<open>Fd_Table\<close> models the table of file
  descriptors and the calls on it.

  \<^bold>\<open>What is not modelled.\<close> Boot code, context switches, trap entry and device drivers are assembly
  or accesses to device registers. The network stack, the FAT file system, the bitmap, the buddy
  heap and the TLSF heap are packages outside the repository; where modelled code calls one of the last three
  it is a parameter with the laws it documents. Procedural macros, logging and the user
  libraries that forward calls have no behaviour of their own to verify. Memory ordering is not
  modelled: the single processor configuration of the tasks has none.
\<close>

end
